theory Spec2Isabelle
  imports Main "HOL-Library.AList"
begin

section \<open>Data model of the transpiled-module graph\<close>

text \<open>
  The source is \<^verbatim>\<open>packages/app/src/sandbox/compile.js\<close>: the compile-request queue
  followed by the class \<^verbatim>\<open>TranspiledModule\<close>. Objects of the class live in a heap,
  a list of nodes; a reference to a node is its index. A JavaScript \<^verbatim>\<open>Set\<close> of nodes
  is the list of its members in insertion order.
\<close>

type_synonym ref = nat

datatype jsval = Undefined | Num int | Str string

record Module =
  path :: string
  code :: string
  requires :: "string list option"

record ModuleSource =
  fileName :: string
  compiledCode :: string
  sourceMap :: "string option"

record jsError =
  message :: string
  errType :: string
  isDependency :: bool
  errPath :: string
  err_fileName :: "string option"
  err_tModule :: "ref option"

text \<open>
  \<^verbatim>\<open>hmrEnabled\<close> is absent, \<^verbatim>\<open>true\<close> or a callback; only the absent value is falsy.
\<close>

datatype hmr = HmrOff | HmrSelf | HmrCallback nat

text \<open>
  A promise of a node, as \<^verbatim>\<open>await\<close> and \<^verbatim>\<open>then\<close> see it: resolved to a node,
  rejected with an error, or never settled.
\<close>

datatype promise = Resolved ref | Rejected jsError | Pending

record Compilation =
  exports :: "(string \<times> jsval) list"

record TranspiledModule =
  module :: Module
  query :: string
  source :: "ModuleSource option"
  assets :: "(string \<times> ModuleSource) list option"
  isEntry :: bool
  childModules :: "ref list"
  errors :: "jsError list"
  warnings :: "string list"
  emittedAssets :: "ModuleSource list option"
  compilation :: "Compilation option"
  initiators :: "ref list"
  dependencies :: "ref list"
  asyncDependencies :: "promise list"
  transpilationDependencies :: "ref list"
  transpilationInitiators :: "ref list"
  hmrEnabled :: hmr
  changed :: bool

type_synonym heap = "TranspiledModule list"

text \<open>
  The constructor (lines 372-384). It sets neither \<^verbatim>\<open>assets\<close> nor \<^verbatim>\<open>emittedAssets\<close>,
  which are \<open>None\<close> until something assigns them; \<^verbatim>\<open>hmrEnabled\<close> and \<^verbatim>\<open>changed\<close>
  start absent, hence falsy.
\<close>

definition newTranspiledModule :: "Module \<Rightarrow> string \<Rightarrow> TranspiledModule" where
  "newTranspiledModule m q =
     \<lparr> module = m, query = q, source = None, assets = None, isEntry = False,
       childModules = [], errors = [], warnings = [], emittedAssets = None,
       compilation = None, initiators = [], dependencies = [],
       asyncDependencies = [], transpilationDependencies = [],
       transpilationInitiators = [], hmrEnabled = HmrOff, changed = False \<rparr>"

definition getId :: "TranspiledModule \<Rightarrow> string" where
  "getId t = path (module t) @ '':'' @ query t"

text \<open>\<^verbatim>\<open>Set.add\<close> and \<^verbatim>\<open>Set.delete\<close> on the insertion-ordered list of members.\<close>

definition set_add :: "'a \<Rightarrow> 'a list \<Rightarrow> 'a list" where
  "set_add x xs = (if x \<in> set xs then xs else xs @ [x])"

definition set_delete :: "'a \<Rightarrow> 'a list \<Rightarrow> 'a list" where
  "set_delete x xs = removeAll x xs"

text \<open>A field write \<^verbatim>\<open>node.f = v\<close> on the heap.\<close>

definition upd :: "ref \<Rightarrow> (TranspiledModule \<Rightarrow> TranspiledModule) \<Rightarrow> heap \<Rightarrow> heap" where
  "upd n f h = h[n := f (h ! n)]"

text \<open>
  \<^verbatim>\<open>xs.forEach(x => x.op())\<close> where \<^verbatim>\<open>op\<close> may fail to return: the loop returns
  when every call did.
\<close>

fun forEachM :: "('a \<Rightarrow> 's \<Rightarrow> 's option) \<Rightarrow> 'a list \<Rightarrow> 's \<Rightarrow> 's option" where
  "forEachM f [] s = Some s"
| "forEachM f (x # xs) s = (case f x s of None \<Rightarrow> None | Some s' \<Rightarrow> forEachM f xs s')"

section \<open>Invalidation: resetTranspilation, resetCompilation, reset, update\<close>

text \<open>
  The three reset methods recurse along the edges of a graph that may be cyclic, and the
  source keeps no visited set. The first argument bounds the depth of the recursion; the
  value \<open>None\<close> stands for a call that does not return. An engine ends such a call
  when its stack is exhausted, with a \<^verbatim>\<open>RangeError\<close> in place of the result.
\<close>

definition delete_initiator :: "ref \<Rightarrow> ref \<Rightarrow> heap \<Rightarrow> heap" where
  "delete_initiator n t h = upd t (\<lambda>x. x\<lparr>initiators := set_delete n (initiators x)\<rparr>) h"

text \<open>
  Lines 414-424: what the node forgets once its transpilation initiators have been reset.
  The initiator sets of its dependencies are updated only while \<^verbatim>\<open>hmrEnabled\<close> is unset;
  its own \<^verbatim>\<open>dependencies\<close> are cleared in both cases.
\<close>

definition forgetTranspilation :: "ref \<Rightarrow> heap \<Rightarrow> heap" where
  "forgetTranspilation n h1 =
     (let h2 = upd n (\<lambda>x. x\<lparr>source := None, errors := [], warnings := []\<rparr>) h1;
          h3 = (if hmrEnabled (h2 ! n) = HmrOff
                then fold (delete_initiator n) (dependencies (h2 ! n)) h2
                else h2)
      in upd n (\<lambda>x. x\<lparr>dependencies := [], asyncDependencies := []\<rparr>) h3)"

text \<open>Lines 406-425. The \<^verbatim>\<open>Array.from(...)\<close> of each loop is a snapshot taken before it.\<close>

primrec resetTranspilation :: "nat \<Rightarrow> ref \<Rightarrow> heap \<Rightarrow> heap option" where
  "resetTranspilation 0 = (\<lambda>n h. None)"
| "resetTranspilation (Suc k) = (\<lambda>n h.
     case (if hmrEnabled (h ! n) = HmrOff
           then forEachM (resetTranspilation k)
                  (filter (\<lambda>t. source (h ! t) \<noteq> None) (transpilationInitiators (h ! n))) h
           else Some h) of
       None \<Rightarrow> None
     | Some h1 \<Rightarrow> Some (forgetTranspilation n h1))"

text \<open>
  Lines 427-453. The \<^verbatim>\<open>try\<close> block only writes fields and recurses, and nothing in it
  raises, so its \<^verbatim>\<open>catch\<close> branch has no counterpart here.
\<close>

primrec resetCompilation :: "nat \<Rightarrow> ref \<Rightarrow> heap \<Rightarrow> heap option" where
  "resetCompilation 0 = (\<lambda>n h. None)"
| "resetCompilation (Suc k) = (\<lambda>n h.
     case (if compilation (h ! n) \<noteq> None
           then (if hmrEnabled (h ! n) = HmrOff
                 then (let h' = upd n (\<lambda>x. x\<lparr>compilation := None\<rparr>) h
                       in forEachM (resetCompilation k)
                            (filter (\<lambda>t. compilation (h' ! t) \<noteq> None) (initiators (h' ! n))) h')
                 else Some (upd n (\<lambda>x. x\<lparr>changed := True\<rparr>) h))
           else Some h) of
       None \<Rightarrow> None
     | Some h1 \<Rightarrow>
         if hmrEnabled (h1 ! n) = HmrOff
         then forEachM (resetCompilation k)
                (filter (\<lambda>t. compilation (h1 ! t) \<noteq> None) (transpilationInitiators (h1 ! n))) h1
         else Some h1)"

definition setIsEntry :: "bool \<Rightarrow> ref \<Rightarrow> heap \<Rightarrow> heap" where
  "setIsEntry b n h = upd n (\<lambda>x. x\<lparr>isEntry := b\<rparr>) h"

text \<open>Lines 394-404.\<close>

primrec reset :: "nat \<Rightarrow> ref \<Rightarrow> heap \<Rightarrow> heap option" where
  "reset 0 = (\<lambda>n h. None)"
| "reset (Suc k) = (\<lambda>n h.
     case forEachM (reset k) (childModules (h ! n)) h of
       None \<Rightarrow> None
     | Some h1 \<Rightarrow>
         (case resetCompilation k n (upd n (\<lambda>x. x\<lparr>childModules := [], emittedAssets := Some []\<rparr>) h1) of
            None \<Rightarrow> None
          | Some h2 \<Rightarrow>
              (case resetTranspilation k n h2 of
                 None \<Rightarrow> None
               | Some h3 \<Rightarrow> Some (setIsEntry False n h3))))"

text \<open>Lines 455-460 and 390-392.\<close>

definition update :: "nat \<Rightarrow> ref \<Rightarrow> Module \<Rightarrow> heap \<Rightarrow> heap option" where
  "update k n m h = reset k n (upd n (\<lambda>x. x\<lparr>module := m\<rparr>) h)"

definition dispose :: "nat \<Rightarrow> ref \<Rightarrow> heap \<Rightarrow> heap option" where
  "dispose k n h = reset k n h"

section \<open>The manager's state and its collaborators\<close>

text \<open>
  What the walks over the graph change: the heap of nodes, the manager's \<^verbatim>\<open>webpackHMR\<close>
  flag, and the effects on the host, kept as logs: the nodes whose \<^verbatim>\<open>evaluate\<close> called
  \<^verbatim>\<open>location.reload()\<close>, the warnings dispatched to the diagnostics sink, the transformer
  invocations (node and position in its loader chain), and the accept callbacks invoked.
\<close>

record state =
  heap :: heap
  webpackHMR :: bool
  reloads :: "ref list"
  dispatched :: "string list"
  transformerRuns :: "(ref \<times> nat) list"
  acceptRuns :: "nat list"

text \<open>
  A transformer is an external collaborator. It receives the code and a loader context;
  here it is the function from the code to the loader-context calls it makes, in order,
  and to its outcome. An exception raised by a loader-context call is taken to escape the
  transformer.
\<close>

datatype ctxCall =
    EmitWarning string
  | EmitError jsError
  | EmitModule string string "string option"
  | EmitFile string string "string option"
  | AddTranspilationDependency string bool
  | AddDependency string bool
  | AddDependenciesInDirectory string bool

datatype outcome = Transpiled string "string option" | Raised jsError

record transpilerConfig =
  transpiler :: "string \<Rightarrow> ctxCall list \<times> outcome"
  cacheable :: bool

text \<open>The statements of an evaluated unit that reach the module system.\<close>

datatype expr = Lit jsval | RequireProp string string

datatype stmt =
    ExportsSet string expr
  | RequireStmt string
  | ThrowStmt string
  | HotAccept "string option" "nat option"

text \<open>
  The class \<^verbatim>\<open>Manager\<close>, the preset, the path utilities and the evaluator are imported by
  the source and are not part of it. Their pure parts are parameters: the preset's
  \<^verbatim>\<open>getLoaders\<close> and \<^verbatim>\<open>getAliasedPath\<close>; the path resolver, from a specifier and the
  importing path to a module and a loader query or to an error; the modules below a
  directory; what a download delivers (an error, the module and its query, or nothing
  ever); \<^verbatim>\<open>resolveDependency\<close> on the externals; the
  reading of compiled code as the statements of a unit; \<^verbatim>\<open>location.origin\<close>;
  \<^verbatim>\<open>pathUtils.join\<close> and \<^verbatim>\<open>pathUtils.dirname\<close>.
\<close>

record env =
  getLoaders :: "Module \<Rightarrow> string \<Rightarrow> transpilerConfig list"
  getAliasedPath :: "string \<Rightarrow> string"
  resolveModule :: "string \<Rightarrow> string \<Rightarrow> jsError + (Module \<times> string)"
  modulesInDirectory :: "string \<Rightarrow> string \<Rightarrow> (Module \<times> string) list"
  download :: "string \<Rightarrow> string \<Rightarrow> (jsError + Module \<times> string) option"
  resolveDependency :: "string \<Rightarrow> jsError + (string \<times> jsval) list"
  parseUnit :: "string \<Rightarrow> stmt list"
  origin :: string
  joinPath :: "string \<Rightarrow> string \<Rightarrow> string"
  dirname :: "string \<Rightarrow> string"

definition mkError :: "string \<Rightarrow> jsError" where
  "mkError msg = \<lparr> message = msg, errType = [], isDependency = False, errPath = [],
                   err_fileName = None, err_tModule = None \<rparr>"

text \<open>The two errors \<^verbatim>\<open>evaluate\<close> creates itself (lines 716 and 778).\<close>

definition notTranspiledError :: "Module \<Rightarrow> jsError" where
  "notTranspiledError m = mkError (path m @ '' hasn't been transpiled yet.'')"

definition selfImportError :: "Module \<Rightarrow> jsError" where
  "selfImportError m = mkError (path m @ '' is importing itself'')"

text \<open>
  Modelled from the spec: \<^verbatim>\<open>Manager.addTranspiledModule\<close>, which is not in the source,
  "create or look up a node by (path, query)". A created node is the constructor's.
\<close>

definition addTranspiledModule :: "Module \<Rightarrow> string \<Rightarrow> heap \<Rightarrow> ref \<times> heap" where
  "addTranspiledModule m q h =
     (case find (\<lambda>i. path (module (h ! i)) = path m \<and> query (h ! i) = q) [0..<length h] of
        Some i \<Rightarrow> (i, h)
      | None \<Rightarrow> (length h, h @ [newTranspiledModule m q]))"

text \<open>
  Modelled from the spec: \<^verbatim>\<open>Manager.resolveTranspiledModule\<close>, which is not in the
  source: the path resolver gives the module and the query, and the node is
  "created on first reference".
\<close>

definition resolveTranspiledModule ::
  "env \<Rightarrow> string \<Rightarrow> string \<Rightarrow> heap \<Rightarrow> (jsError + ref) \<times> heap" where
  "resolveTranspiledModule e spec from h =
     (case resolveModule e spec from of
        Inl err \<Rightarrow> (Inl err, h)
      | Inr (m, q) \<Rightarrow> (case addTranspiledModule m q h of (r, h') \<Rightarrow> (Inr r, h')))"

text \<open>
  Modelled from the spec: \<^verbatim>\<open>Manager.resolveTranspiledModulesInDirectory\<close>, "all nodes
  whose path lies under dir", one node for each module the parameter lists.
\<close>

fun addAll :: "(Module \<times> string) list \<Rightarrow> heap \<Rightarrow> ref list \<times> heap" where
  "addAll [] h = ([], h)"
| "addAll ((m, q) # ms) h =
     (case addTranspiledModule m q h of
        (r, h') \<Rightarrow> (case addAll ms h' of (rs, h'') \<Rightarrow> (r # rs, h'')))"

definition resolveTranspiledModulesInDirectory ::
  "env \<Rightarrow> string \<Rightarrow> string \<Rightarrow> heap \<Rightarrow> ref list \<times> heap" where
  "resolveTranspiledModulesInDirectory e dir from h = addAll (modulesInDirectory e dir from) h"

text \<open>
  Modelled from the spec: \<^verbatim>\<open>Manager.downloadDependency\<close>, which is not in the source,
  "delegate to the external dependency downloader" for a promise of a node. The node of
  the delivered module is looked up or created when the download is requested.
\<close>

definition downloadDependency :: "env \<Rightarrow> string \<Rightarrow> string \<Rightarrow> heap \<Rightarrow> promise \<times> heap" where
  "downloadDependency e p from h =
     (case download e p from of
        None \<Rightarrow> (Pending, h)
      | Some (Inl err) \<Rightarrow> (Rejected err, h)
      | Some (Inr (m, q)) \<Rightarrow> (case addTranspiledModule m q h of (r, h') \<Rightarrow> (Resolved r, h')))"

section \<open>The loader context\<close>

definition startsWith :: "string \<Rightarrow> string \<Rightarrow> bool" where
  "startsWith p s = (take (length p) s = p)"

text \<open>
  \<^verbatim>\<open>this.dependencies.add(t); t.initiators.add(this)\<close>, the pair of writes every linking
  operation ends with, and its transpilation counterpart.
\<close>

definition add_dependency :: "ref \<Rightarrow> ref \<Rightarrow> heap \<Rightarrow> heap" where
  "add_dependency n t h =
     upd t (\<lambda>x. x\<lparr>initiators := set_add n (initiators x)\<rparr>)
       (upd n (\<lambda>x. x\<lparr>dependencies := set_add t (dependencies x)\<rparr>) h)"

definition add_transpilation_dependency :: "ref \<Rightarrow> ref \<Rightarrow> heap \<Rightarrow> heap" where
  "add_transpilation_dependency n t h =
     upd t (\<lambda>x. x\<lparr>transpilationInitiators := set_add n (transpilationInitiators x)\<rparr>)
       (upd n (\<lambda>x. x\<lparr>transpilationDependencies := set_add t (transpilationDependencies x)\<rparr>) h)"

text \<open>
  \<^verbatim>\<open>path.split('!')\<close> followed by \<^verbatim>\<open>pop()\<close> (lines 484-486): the part after the last
  \<^verbatim>\<open>!\<close> is the module path, the rest joined again is the query.
\<close>

definition splitQuery :: "string \<Rightarrow> string \<times> string" where
  "splitQuery p =
     (let modulePath = rev (takeWhile (\<lambda>c. c \<noteq> CHR ''!'') (rev p))
      in (take (length p - length modulePath - 1) p, modulePath))"

text \<open>Lines 479-506. The \<^verbatim>\<open>parent\<close> field of the copy is read nowhere and is left out.\<close>

definition emitModule ::
  "env \<Rightarrow> ref \<Rightarrow> string \<Rightarrow> string \<Rightarrow> string option \<Rightarrow> heap \<Rightarrow> ref \<times> heap" where
  "emitModule e n p c directoryPath h =
     (let dir = (case directoryPath of None \<Rightarrow> dirname e (path (module (h ! n))) | Some d \<Rightarrow> d);
          moduleCopy = (module (h ! n))\<lparr>path := joinPath e dir (snd (splitQuery p)), code := c\<rparr>
      in case addTranspiledModule moduleCopy (fst (splitQuery p)) h of
           (t, h1) \<Rightarrow>
             (t, add_dependency n t (upd n (\<lambda>x. x\<lparr>childModules := childModules x @ [t]\<rparr>) h1)))"

text \<open>Lines 507-509: a write to a property of \<^verbatim>\<open>this.assets\<close>, a TypeError while it is absent.\<close>

definition emitFile ::
  "ref \<Rightarrow> string \<Rightarrow> string \<Rightarrow> string option \<Rightarrow> heap \<Rightarrow> jsError option \<times> heap" where
  "emitFile n name content sm h =
     (case assets (h ! n) of
        None \<Rightarrow> (Some (mkError ''TypeError''), h)
      | Some a \<Rightarrow>
          (None, upd n (\<lambda>x. x\<lparr>assets := Some (AList.update name
                   \<lparr>fileName = name, compiledCode = content, sourceMap = sm\<rparr> a)\<rparr>) h))"

text \<open>Lines 513-523; a failed resolution is not caught here.\<close>

definition addTranspilationDependency ::
  "env \<Rightarrow> ref \<Rightarrow> string \<Rightarrow> bool \<Rightarrow> heap \<Rightarrow> (jsError + ref) \<times> heap" where
  "addTranspilationDependency e n depPath isAbsolute h =
     (case resolveTranspiledModule e depPath
             (if isAbsolute then ''/'' else path (module (h ! n))) h of
        (Inl err, h1) \<Rightarrow> (Inl err, h1)
      | (Inr t, h1) \<Rightarrow> (Inr t, add_transpilation_dependency n t h1))"

text \<open>Lines 524-555.\<close>

definition addDependency ::
  "env \<Rightarrow> ref \<Rightarrow> string \<Rightarrow> bool \<Rightarrow> heap \<Rightarrow> ref option \<times> heap" where
  "addDependency e n depPath isAbsolute h =
     (if startsWith ''babel-runtime'' depPath \<or> startsWith ''codesandbox-api'' depPath
      then (None, h)
      else case resolveTranspiledModule e depPath
                  (if isAbsolute then ''/'' else path (module (h ! n))) h of
             (Inr t, h1) \<Rightarrow> (Some t, add_dependency n t h1)
           | (Inl err, h1) \<Rightarrow>
               if errType err = ''module-not-found'' \<and> isDependency err
               then (case downloadDependency e (errPath err) (path (module (h1 ! n))) h1 of
                       (p, h2) \<Rightarrow>
                         (None, upd n (\<lambda>x. x\<lparr>asyncDependencies := asyncDependencies x @ [p]\<rparr>) h2))
               else (None, h1))"

text \<open>Lines 556-568.\<close>

definition addDependenciesInDirectory ::
  "env \<Rightarrow> ref \<Rightarrow> string \<Rightarrow> bool \<Rightarrow> heap \<Rightarrow> ref list \<times> heap" where
  "addDependenciesInDirectory e n folderPath isAbsolute h =
     (case resolveTranspiledModulesInDirectory e folderPath
             (if isAbsolute then ''/'' else path (module (h ! n))) h of
        (ts, h1) \<Rightarrow> (ts, fold (add_dependency n) ts h1))"

text \<open>One call of a transformer on the loader context of node \<open>n\<close>: the error it raises, if any.\<close>

fun loaderCall :: "env \<Rightarrow> ref \<Rightarrow> ctxCall \<Rightarrow> heap \<Rightarrow> jsError option \<times> heap" where
  "loaderCall e n (EmitWarning w) h = (None, upd n (\<lambda>x. x\<lparr>warnings := warnings x @ [w]\<rparr>) h)"
| "loaderCall e n (EmitError err) h = (None, upd n (\<lambda>x. x\<lparr>errors := errors x @ [err]\<rparr>) h)"
| "loaderCall e n (EmitModule p c d) h = (None, snd (emitModule e n p c d h))"
| "loaderCall e n (EmitFile name content sm) h = emitFile n name content sm h"
| "loaderCall e n (AddTranspilationDependency p a) h =
     (case addTranspilationDependency e n p a h of
        (Inl err, h1) \<Rightarrow> (Some err, h1)
      | (Inr t, h1) \<Rightarrow> (None, h1))"
| "loaderCall e n (AddDependency p a) h = (None, snd (addDependency e n p a h))"
| "loaderCall e n (AddDependenciesInDirectory p a) h =
     (None, snd (addDependenciesInDirectory e n p a h))"

fun runCalls :: "env \<Rightarrow> ref \<Rightarrow> ctxCall list \<Rightarrow> heap \<Rightarrow> jsError option \<times> heap" where
  "runCalls e n [] h = (None, h)"
| "runCalls e n (c # cs) h =
     (case loaderCall e n c h of
        (Some err, h1) \<Rightarrow> (Some err, h1)
      | (None, h1) \<Rightarrow> runCalls e n cs h1)"

section \<open>transpile\<close>

text \<open>
  The \<^verbatim>\<open>catch\<close> block of the loader loop (lines 659-664): tag, reset, rethrow. The reset
  recurses, so the block rethrows the error only if the reset returns.
\<close>

definition failTranspile ::
  "nat \<Rightarrow> ref \<Rightarrow> jsError \<Rightarrow> state \<Rightarrow> ((jsError + string \<times> string option) \<times> state) option" where
  "failTranspile k n err st =
     (case resetTranspilation k n (heap st) of
        None \<Rightarrow> None
      | Some h1 \<Rightarrow>
          Some (Inl (err\<lparr>err_fileName := Some (path (module (heap st ! n))),
                         err_tModule := Some n\<rparr>),
                st\<lparr>heap := h1\<rparr>))"

text \<open>
  One turn of the loader loop from the moment the awaited transformer settles (lines
  636-664): the calls it made on the loader context, its outcome, the dispatch of the
  warnings (all of them each time, since the list is not cleared in between), the throw of
  the first recorded error, and the \<^verbatim>\<open>catch\<close> block. The result is the error the turn
  throws, or the code and the source map for the next turn.
\<close>

definition settleLoader ::
  "nat \<Rightarrow> env \<Rightarrow> ref \<Rightarrow> transpilerConfig \<Rightarrow> string \<Rightarrow> state
     \<Rightarrow> ((jsError + string \<times> string option) \<times> state) option" where
  "settleLoader k e n t c st =
     (case runCalls e n (fst (transpiler t c)) (heap st) of
        (Some err, h1) \<Rightarrow> failTranspile k n err (st\<lparr>heap := h1\<rparr>)
      | (None, h1) \<Rightarrow>
          (case snd (transpiler t c) of
             Raised err \<Rightarrow> failTranspile k n err (st\<lparr>heap := h1\<rparr>)
           | Transpiled c' sm' \<Rightarrow>
               (let st1 = st\<lparr>heap := h1, dispatched := dispatched st @ warnings (h1 ! n)\<rparr> in
                case errors (h1 ! n) of
                  err # _ \<Rightarrow> failTranspile k n err st1
                | [] \<Rightarrow> Some (Inr (c', sm'), st1))))"

text \<open>
  The callback on an awaited download (lines 676-685): a resolved one is linked, a
  rejected one is ignored. The callbacks run one by one, each once its download has
  settled; of the downloads of a list, the first that has settled is the next to run,
  and the list without it is what remains.
\<close>

definition linkDownload :: "ref \<Rightarrow> promise \<Rightarrow> heap \<Rightarrow> heap" where
  "linkDownload n p h = (case p of Resolved t \<Rightarrow> add_dependency n t h | _ \<Rightarrow> h)"

fun settledFirst :: "promise list \<Rightarrow> (promise \<times> promise list) option" where
  "settledFirst [] = None"
| "settledFirst (Pending # ps) =
     (case settledFirst ps of None \<Rightarrow> None | Some (p, ps') \<Rightarrow> Some (p, Pending # ps'))"
| "settledFirst (p # ps) = Some (p, ps)"

text \<open>
  Lines 603-610: the old outgoing runtime edges are removed on both sides, the diagnostics
  are cleared.
\<close>

definition clearDependencies :: "ref \<Rightarrow> heap \<Rightarrow> heap" where
  "clearDependencies n h =
     upd n (\<lambda>x. x\<lparr>dependencies := [], errors := [], warnings := []\<rparr>)
       (fold (delete_initiator n) (dependencies (h ! n)) h)"

definition sourceURL :: "env \<Rightarrow> string \<Rightarrow> string \<Rightarrow> string" where
  "sourceURL e c p = c @ [CHR 0x0A] @ ''//# sourceURL='' @ origin e @ p"

text \<open>Lines 670-673: the trailer is appended and the source is stored.\<close>

definition storeSource :: "env \<Rightarrow> ref \<Rightarrow> string \<Rightarrow> string option \<Rightarrow> heap \<Rightarrow> heap" where
  "storeSource e n c sm h =
     (let p = path (module (h ! n))
      in upd n (\<lambda>x. x\<lparr>source := Some \<lparr>fileName = p, compiledCode = sourceURL e c p,
                                        sourceMap = sm\<rparr>\<rparr>) h)"

text \<open>
  \<^verbatim>\<open>transpile\<close> is an \<^verbatim>\<open>async\<close> function. A call runs until its first \<^verbatim>\<open>await\<close> and hands a
  promise to its caller; the rest runs later, one stretch between two \<^verbatim>\<open>await\<close>s at a
  time, and the stretches of different calls interleave. A call is suspended at one of
  three places: at line 636, on the promise of the transformer at position \<open>i\<close> of the
  chain, with the transformers from that position on, the code it was given and the source
  map so far; at line 675, on the downloads it mapped over, of which it holds those whose
  callback has not run yet; at line 690, on the calls of its fan-out. Or it has returned,
  or thrown.
\<close>

datatype phase =
    AtLoader "transpilerConfig list" nat string "string option"
  | AtDownloads "promise list"
  | AtFanout
  | Returned
  | Thrown jsError

record call =
  c_node :: ref
  c_phase :: phase
  c_children :: "nat list"

text \<open>
  The calls of \<^verbatim>\<open>transpile\<close> made so far, each with the place it is at, on the state they
  share, and the calls that have thrown, in the order in which they did.
\<close>

record walk =
  w_state :: state
  calls :: "call list"
  rejections :: "nat list"

definition newWalk :: "state \<Rightarrow> walk" where
  "newWalk st = \<lparr> w_state = st, calls = [], rejections = [] \<rparr>"

text \<open>
  The head of the loader loop at position \<open>i\<close> (lines 626-636), and what follows the loop
  up to the next \<^verbatim>\<open>await\<close> (lines 670-675). With a transformer left, it is called, which
  the log records, and awaited. With none left the source is stored and the call awaits
  the downloads registered so far.
\<close>

definition nextLoader ::
  "env \<Rightarrow> ref \<Rightarrow> transpilerConfig list \<Rightarrow> nat \<Rightarrow> string \<Rightarrow> string option \<Rightarrow> state
     \<Rightarrow> phase \<times> state" where
  "nextLoader e n ts i c sm st =
     (case ts of
        [] \<Rightarrow>
          (let h = storeSource e n c sm (heap st)
           in (AtDownloads (asyncDependencies (h ! n)), st\<lparr>heap := h\<rparr>))
      | t # ts' \<Rightarrow> (AtLoader ts i c sm, st\<lparr>transformerRuns := transformerRuns st @ [(n, i)]\<rparr>))"

text \<open>
  Lines 598-636: a call of \<^verbatim>\<open>transpile\<close> on node \<open>n\<close> up to its first \<^verbatim>\<open>await\<close>. With
  precomputed \<^verbatim>\<open>requires\<close> no transformer runs; \<^verbatim>\<open>forEach\<close> passes the index as the
  options, which has no \<^verbatim>\<open>isAbsolute\<close>.
\<close>

definition transpileStart :: "env \<Rightarrow> ref \<Rightarrow> state \<Rightarrow> phase \<times> state" where
  "transpileStart e n st =
     (if source (heap st ! n) \<noteq> None then (Returned, st)
      else
        (let h0 = clearDependencies n (heap st); m = module (h0 ! n) in
         case requires m of
           Some reqs \<Rightarrow>
             nextLoader e n [] 0 (code m) None
               (st\<lparr>heap := fold (\<lambda>d h. snd (addDependency e n d False h)) reqs h0\<rparr>)
         | None \<Rightarrow>
             nextLoader e n (getLoaders e m (query (h0 ! n))) 0 (code m) None (st\<lparr>heap := h0\<rparr>)))"

text \<open>\<^verbatim>\<open>t.transpile(manager)\<close>: the call joins the walk; the result is its position.\<close>

definition transpile :: "env \<Rightarrow> ref \<Rightarrow> walk \<Rightarrow> nat \<times> walk" where
  "transpile e n w =
     (case transpileStart e n (w_state w) of
        (ph, st') \<Rightarrow>
          (length (calls w),
           w\<lparr>w_state := st', calls := calls w @ [\<lparr>c_node = n, c_phase = ph, c_children = []\<rparr>]\<rparr>))"

text \<open>\<^verbatim>\<open>ts.map(t => t.transpile(manager))\<close>: every call is started before any is awaited.\<close>

fun transpileEach :: "env \<Rightarrow> ref list \<Rightarrow> walk \<Rightarrow> nat list \<times> walk" where
  "transpileEach e [] w = ([], w)"
| "transpileEach e (t # ts) w =
     (case transpile e t w of
        (i, w1) \<Rightarrow> (case transpileEach e ts w1 of (js, w2) \<Rightarrow> (i # js, w2)))"

definition setPhase :: "nat \<Rightarrow> phase \<Rightarrow> walk \<Rightarrow> walk" where
  "setPhase i ph w = w\<lparr>calls := (calls w)[i := (calls w ! i)\<lparr>c_phase := ph\<rparr>]\<rparr>"

definition reject :: "nat \<Rightarrow> jsError \<Rightarrow> walk \<Rightarrow> walk" where
  "reject i err w = (setPhase i (Thrown err) w)\<lparr>rejections := rejections w @ [i]\<rparr>"

definition isReturned :: "phase \<Rightarrow> bool" where
  "isReturned ph = (case ph of Returned \<Rightarrow> True | _ \<Rightarrow> False)"

text \<open>
  \<^verbatim>\<open>Promise.all\<close> over the calls \<open>js\<close> rejects with the error of the first of them that
  threw, and resolves once all have returned.
\<close>

definition firstRejection :: "walk \<Rightarrow> nat list \<Rightarrow> jsError option" where
  "firstRejection w js =
     (case find (\<lambda>j. j \<in> set js) (rejections w) of
        None \<Rightarrow> None
      | Some j \<Rightarrow> (case c_phase (calls w ! j) of Thrown err \<Rightarrow> Some err | _ \<Rightarrow> None))"

text \<open>
  The stretch of call \<open>i\<close> from the \<^verbatim>\<open>await\<close> it is suspended at to the next one (lines
  636-700). The calls a transformer makes on the loader context and its outcome take
  effect when its promise settles. At the downloads a stretch is the callback of one
  download and, when none is left, the rest up to the fan-out. A call whose awaited
  promise has not settled stays where it is. The rejection of a call of the fan-out is
  not caught, so the awaiting call throws the same error; the other calls of the fan-out
  stay in the walk. The first argument bounds the depth of the reset in the \<^verbatim>\<open>catch\<close>
  block; \<open>None\<close> stands for a reset that does not return.
\<close>

definition transpileResume :: "nat \<Rightarrow> env \<Rightarrow> nat \<Rightarrow> walk \<Rightarrow> walk option" where
  "transpileResume k e i w =
     (let c = calls w ! i; n = c_node c; st = w_state w in
      case c_phase c of
        AtLoader ts j inp sm \<Rightarrow>
          (case ts of
             [] \<Rightarrow> Some w
           | t # ts' \<Rightarrow>
               (case settleLoader k e n t inp st of
                  None \<Rightarrow> None
                | Some (Inl err, st1) \<Rightarrow> Some (reject i err (w\<lparr>w_state := st1\<rparr>))
                | Some (Inr (c', sm'), st1) \<Rightarrow>
                    (case nextLoader e n ts' (Suc j) c' sm' st1 of
                       (ph, st2) \<Rightarrow> Some (setPhase i ph (w\<lparr>w_state := st2\<rparr>)))))
      | AtDownloads ps \<Rightarrow>
          (case ps of
             p # ps' \<Rightarrow>
               (case settledFirst ps of
                  None \<Rightarrow> Some w
                | Some (q, qs) \<Rightarrow>
                    Some (setPhase i (AtDownloads qs)
                            (w\<lparr>w_state := st\<lparr>heap := linkDownload n q (heap st)\<rparr>\<rparr>)))
           | [] \<Rightarrow>
               (let w1 = w\<lparr>w_state := st\<lparr>heap := upd n (\<lambda>x. x\<lparr>asyncDependencies := []\<rparr>) (heap st)\<rparr>\<rparr> in
                case transpileEach e (transpilationInitiators (heap (w_state w1) ! n)) w1 of
                  (js1, w2) \<Rightarrow>
                    (case transpileEach e (dependencies (heap (w_state w2) ! n)) w2 of
                       (js2, w3) \<Rightarrow>
                         Some (w3\<lparr>calls := (calls w3)[i := c\<lparr>c_phase := AtFanout,
                                                            c_children := js1 @ js2\<rparr>]\<rparr>))))
      | AtFanout \<Rightarrow>
          (case firstRejection w (c_children c) of
             Some err \<Rightarrow> Some (reject i err w)
           | None \<Rightarrow>
               if list_all (\<lambda>j. isReturned (c_phase (calls w ! j))) (c_children c)
               then Some (setPhase i Returned w)
               else Some w)
      | Returned \<Rightarrow> Some w
      | Thrown err \<Rightarrow> Some w)"

text \<open>
  What moves a walk: a call of \<^verbatim>\<open>transpile\<close> from outside, on a node of the heap, or the
  next stretch of a call in it. The order of the moves is the order in which the host
  runs them.
\<close>

datatype move = Call ref | Resume nat

definition wstep :: "nat \<Rightarrow> env \<Rightarrow> move \<Rightarrow> walk \<Rightarrow> walk option" where
  "wstep k e mv w =
     (case mv of
        Call n \<Rightarrow> if n < length (heap (w_state w)) then Some (snd (transpile e n w)) else Some w
      | Resume i \<Rightarrow> if i < length (calls w) then transpileResume k e i w else Some w)"

definition wrun :: "nat \<Rightarrow> env \<Rightarrow> move list \<Rightarrow> walk \<Rightarrow> walk option" where
  "wrun k e mvs w = forEachM (wstep k e) mvs w"

section \<open>evaluate\<close>

text \<open>The test \<^verbatim>\<open>/^(\w|@\w)/\<close> together with \<^verbatim>\<open>!aliasedPath.includes('!')\<close> (line 763).\<close>

definition wordChar :: "char \<Rightarrow> bool" where
  "wordChar c = (c \<in> set (''abcdefghijklmnopqrstuvwxyz'' @ ''ABCDEFGHIJKLMNOPQRSTUVWXYZ''
                            @ ''0123456789_''))"

definition bareSpecifier :: "string \<Rightarrow> bool" where
  "bareSpecifier p =
     ((case p of
         [] \<Rightarrow> False
       | c # cs \<Rightarrow> wordChar c \<or> (c = CHR ''@'' \<and> (case cs of [] \<Rightarrow> False | d # _ \<Rightarrow> wordChar d)))
      \<and> CHR ''!'' \<notin> set p)"

type_synonym exportsT = "(string \<times> jsval) list"

text \<open>
  The \<^verbatim>\<open>require\<close> closure (lines 757-785) of node \<open>n\<close> with module \<open>localModule\<close>. Its
  first argument is the recursive entry point. Modelled from the spec:
  \<^verbatim>\<open>Manager.evaluateTranspiledModule\<close>, which is not in the source, is "the recursive
  entry point used by require" and calls \<^verbatim>\<open>evaluate\<close> on the node. Two modules are the
  same object when they are equal.
\<close>

definition requireFn ::
  "(ref \<Rightarrow> ref list \<Rightarrow> state \<Rightarrow> ((jsError + exportsT) \<times> state) option) \<Rightarrow> env \<Rightarrow> ref \<Rightarrow> Module
     \<Rightarrow> ref list \<Rightarrow> string \<Rightarrow> state \<Rightarrow> ((jsError + exportsT) \<times> state) option" where
  "requireFn ev e n localModule parentModules p st =
     (let aliasedPath = getAliasedPath e p in
      if bareSpecifier aliasedPath \<and>
         (startsWith ''babel-runtime'' aliasedPath \<or> startsWith ''codesandbox-api'' aliasedPath)
      then Some (resolveDependency e aliasedPath, st)
      else
        case resolveTranspiledModule e aliasedPath (path localModule) (heap st) of
          (Inl err, h1) \<Rightarrow> Some (Inl err, st\<lparr>heap := h1\<rparr>)
        | (Inr t, h1) \<Rightarrow>
            if localModule = module (h1 ! t)
            then Some (Inl (selfImportError localModule), st\<lparr>heap := h1\<rparr>)
            else ev t (parentModules @ [n]) (st\<lparr>heap := h1\<rparr>))"

text \<open>\<^verbatim>\<open>hot.accept(path, cb)\<close> of the compilation record of node \<open>n\<close> (lines 738-750).\<close>

definition hotAccept ::
  "env \<Rightarrow> ref \<Rightarrow> string option \<Rightarrow> nat option \<Rightarrow> state \<Rightarrow> jsError option \<times> state" where
  "hotAccept e n p cb st =
     (if p \<noteq> None \<and> p \<noteq> Some []
      then
        case resolveTranspiledModule e (case p of None \<Rightarrow> [] | Some s \<Rightarrow> s)
               (path (module (heap st ! n))) (heap st) of
          (Inl err, h1) \<Rightarrow> (Some err, st\<lparr>heap := h1\<rparr>)
        | (Inr t, h1) \<Rightarrow>
            (None, st\<lparr>heap := upd t (\<lambda>x. x\<lparr>hmrEnabled :=
                        (case cb of None \<Rightarrow> HmrOff | Some c \<Rightarrow> HmrCallback c)\<rparr>) h1,
                      webpackHMR := True\<rparr>)
      else (None, st\<lparr>heap := upd n (\<lambda>x. x\<lparr>hmrEnabled := HmrSelf\<rparr>) (heap st),
                     webpackHMR := True\<rparr>))"

definition setExport :: "ref \<Rightarrow> string \<Rightarrow> jsval \<Rightarrow> heap \<Rightarrow> heap" where
  "setExport n k v h =
     upd n (\<lambda>x. x\<lparr>compilation :=
       map_option (\<lambda>c. c\<lparr>exports := AList.update k v (exports c)\<rparr>) (compilation x)\<rparr>) h"

definition getProp :: "exportsT \<Rightarrow> string \<Rightarrow> jsval" where
  "getProp ex k = (case map_of ex k of None \<Rightarrow> Undefined | Some v \<Rightarrow> v)"

text \<open>
  Modelled from the spec: the evaluator \<^verbatim>\<open>loaders/eval\<close>, which is not in the source. It
  runs the unit with the injected \<^verbatim>\<open>require\<close> and the compilation record as
  \<^verbatim>\<open>module\<close>; "after successful invocation, compilation.exports reflects any assignments
  the unit made", and "exceptions propagate". The result is the error the unit ended
  with, if any.
\<close>

fun evaluator ::
  "(string \<Rightarrow> state \<Rightarrow> ((jsError + exportsT) \<times> state) option) \<Rightarrow> env \<Rightarrow> ref \<Rightarrow> stmt list
     \<Rightarrow> state \<Rightarrow> (jsError option \<times> state) option" where
  "evaluator req e n [] st = Some (None, st)"
| "evaluator req e n (ExportsSet k (Lit v) # ss) st =
     evaluator req e n ss (st\<lparr>heap := setExport n k v (heap st)\<rparr>)"
| "evaluator req e n (ExportsSet k (RequireProp p f) # ss) st =
     (case req p st of
        None \<Rightarrow> None
      | Some (Inl err, st1) \<Rightarrow> Some (Some err, st1)
      | Some (Inr ex, st1) \<Rightarrow>
          evaluator req e n ss (st1\<lparr>heap := setExport n k (getProp ex f) (heap st1)\<rparr>))"
| "evaluator req e n (RequireStmt p # ss) st =
     (case req p st of
        None \<Rightarrow> None
      | Some (Inl err, st1) \<Rightarrow> Some (Some err, st1)
      | Some (Inr ex, st1) \<Rightarrow> evaluator req e n ss st1)"
| "evaluator req e n (ThrowStmt msg # ss) st = Some (Some (mkError msg), st)"
| "evaluator req e n (HotAccept p cb # ss) st =
     (case hotAccept e n p cb st of
        (Some err, st1) \<Rightarrow> Some (Some err, st1)
      | (None, st1) \<Rightarrow> evaluator req e n ss st1)"

definition exportsOf :: "ref \<Rightarrow> state \<Rightarrow> exportsT" where
  "exportsOf n st = (case compilation (heap st ! n) of None \<Rightarrow> [] | Some c \<Rightarrow> exports c)"

text \<open>Lines 794-796: the external accept hook, when \<^verbatim>\<open>hmrEnabled\<close> is a function.\<close>

definition runAcceptHook :: "ref \<Rightarrow> state \<Rightarrow> state" where
  "runAcceptHook n st =
     (case hmrEnabled (heap st ! n) of
        HmrCallback c \<Rightarrow> st\<lparr>acceptRuns := acceptRuns st @ [c]\<rparr>
      | _ \<Rightarrow> st)"

text \<open>Line 735: the record is created only when there is none.\<close>

definition initCompilation :: "ref \<Rightarrow> state \<Rightarrow> state" where
  "initCompilation n st =
     (case compilation (heap st ! n) of
        None \<Rightarrow> st\<lparr>heap := upd n (\<lambda>x. x\<lparr>compilation := Some \<lparr>exports = []\<rparr>\<rparr>) (heap st)\<rparr>
      | Some c \<Rightarrow> st)"

text \<open>Line 800: \<^verbatim>\<open>e.tModule = e.tModule || transpiledModule\<close>.\<close>

definition tagModule :: "ref \<Rightarrow> jsError \<Rightarrow> jsError" where
  "tagModule n err =
     err\<lparr>err_tModule := (case err_tModule err of None \<Rightarrow> Some n | Some m \<Rightarrow> Some m)\<rparr>"

text \<open>
  Lines 714-804, with \<^verbatim>\<open>manager.evaluateTranspiledModule\<close> as the first argument.
\<close>

definition evaluateBody ::
  "(ref \<Rightarrow> ref list \<Rightarrow> state \<Rightarrow> ((jsError + exportsT) \<times> state) option) \<Rightarrow> env \<Rightarrow> ref \<Rightarrow> ref list
     \<Rightarrow> state \<Rightarrow> ((jsError + exportsT) \<times> state) option" where
  "evaluateBody ev e n parentModules st =
     (case source (heap st ! n) of
        None \<Rightarrow>
          Some (Inl (notTranspiledError (module (heap st ! n))), st)
      | Some src \<Rightarrow>
          if webpackHMR st \<and> compilation (heap st ! n) = None \<and> isEntry (heap st ! n)
             \<and> hmrEnabled (heap st ! n) = HmrOff
          then Some (Inr [], st\<lparr>reloads := reloads st @ [n]\<rparr>)
          else if compilation (heap st ! n) \<noteq> None \<and> \<not> changed (heap st ! n)
          then Some (Inr (exportsOf n st), st)
          else
            (case evaluator (requireFn ev e n (module (heap st ! n)) parentModules)
                    e n (parseUnit e (compiledCode src)) (initCompilation n st) of
               None \<Rightarrow> None
             | Some (Some err, st1) \<Rightarrow> Some (Inl (tagModule n err), st1)
             | Some (None, st1) \<Rightarrow> Some (Inr (exportsOf n st1), runAcceptHook n st1)))"

text \<open>
  \<^verbatim>\<open>evaluate\<close>. The first argument bounds the depth of nested \<^verbatim>\<open>require\<close> calls;
  \<open>None\<close> stands for an evaluation that does not return.
\<close>

primrec evaluate ::
  "nat \<Rightarrow> env \<Rightarrow> ref \<Rightarrow> ref list \<Rightarrow> state \<Rightarrow> ((jsError + exportsT) \<times> state) option" where
  "evaluate 0 = (\<lambda>e n parentModules st. None)"
| "evaluate (Suc k) = (\<lambda>e n parentModules st. evaluateBody (evaluate k e) e n parentModules st)"

section \<open>serialize and load\<close>

record SerializedTranspiledModule =
  s_module :: Module
  s_query :: string
  s_source :: "ModuleSource option"
  s_assets :: "(string \<times> ModuleSource) list option"
  s_isEntry :: bool
  s_childModules :: "string list"
  s_emittedAssets :: "ModuleSource list option"
  s_initiators :: "string list"
  s_dependencies :: "string list"
  s_asyncDependencies :: "string list"
  s_transpilationDependencies :: "string list"
  s_transpilationInitiators :: "string list"

text \<open>
  The callbacks that line 853 registers with \<^verbatim>\<open>then\<close>. A callback of a promise runs as a
  job of its own after the running code has returned, also when the promise is already
  resolved; one of a rejected or unsettled promise does not run. Each is the id it will
  push.
\<close>

fun thenCallbacks :: "heap \<Rightarrow> promise list \<Rightarrow> string list" where
  "thenCallbacks h [] = []"
| "thenCallbacks h (Resolved x # ps) = getId (h ! x) # thenCallbacks h ps"
| "thenCallbacks h (Rejected err # ps) = thenCallbacks h ps"
| "thenCallbacks h (Pending # ps) = thenCallbacks h ps"

text \<open>
  Lines 826-859: the record as it is when \<^verbatim>\<open>serialize\<close> returns, and the callbacks
  still to run on it.
\<close>

definition serialize :: "heap \<Rightarrow> ref \<Rightarrow> SerializedTranspiledModule \<times> string list" where
  "serialize h n =
     (let t = h ! n in
      (\<lparr> s_module = module t, s_query = query t, s_source = source t, s_assets = assets t,
         s_isEntry = isEntry t,
         s_childModules = map (\<lambda>m. getId (h ! m)) (childModules t),
         s_emittedAssets = emittedAssets t,
         s_initiators = map (\<lambda>m. getId (h ! m)) (initiators t),
         s_dependencies = map (\<lambda>m. getId (h ! m)) (dependencies t),
         s_asyncDependencies = [],
         s_transpilationDependencies = map (\<lambda>m. getId (h ! m)) (transpilationDependencies t),
         s_transpilationInitiators = map (\<lambda>m. getId (h ! m)) (transpilationInitiators t) \<rparr>,
       thenCallbacks h (asyncDependencies t)))"

text \<open>The record once the registered callbacks have run.\<close>

definition runCallbacks :: "SerializedTranspiledModule \<times> string list \<Rightarrow> SerializedTranspiledModule" where
  "runCallbacks r = (fst r)\<lparr>s_asyncDependencies := s_asyncDependencies (fst r) @ snd r\<rparr>"

text \<open>
  Lines 861-887. \<open>state\<close> maps ids to nodes. For an id that \<open>state\<close> lacks,
  \<^verbatim>\<open>state[depId]\<close> is \<^verbatim>\<open>undefined\<close>, and the source stores it in the set or the array as
  it stores a node, and goes on. A reference of this model is always a node, so the heap
  has no place for such an entry: \<^verbatim>\<open>load\<close> returns, beside the heap with the nodes that
  were found, the ids for which it stored \<^verbatim>\<open>undefined\<close>, in the order of the loops.
\<close>

definition lookupIds :: "(string \<times> ref) list \<Rightarrow> string list \<Rightarrow> ref list" where
  "lookupIds state ids = List.map_filter (map_of state) ids"

definition missingIds :: "(string \<times> ref) list \<Rightarrow> string list \<Rightarrow> string list" where
  "missingIds state ids = filter (\<lambda>i. map_of state i = None) ids"

definition load ::
  "ref \<Rightarrow> SerializedTranspiledModule \<Rightarrow> (string \<times> ref) list \<Rightarrow> heap \<Rightarrow> string list \<times> heap" where
  "load n data state h =
     (missingIds state (s_dependencies data @ s_childModules data @ s_initiators data
                        @ s_transpilationDependencies data @ s_asyncDependencies data),
      upd n (\<lambda>x. x\<lparr> query := s_query data, assets := s_assets data,
                  module := s_module data, emittedAssets := s_emittedAssets data,
                  isEntry := s_isEntry data, source := s_source data,
                  dependencies := fold set_add (lookupIds state (s_dependencies data)) (dependencies x),
                  childModules := childModules x @ lookupIds state (s_childModules data),
                  initiators := fold set_add (lookupIds state (s_initiators data)) (initiators x),
                  transpilationDependencies :=
                    fold set_add (lookupIds state (s_transpilationDependencies data))
                      (transpilationDependencies x),
                  asyncDependencies :=
                    asyncDependencies x @ map Resolved (lookupIds state (s_asyncDependencies data)) \<rparr>) h)"

text \<open>
  Modelled from the spec: the serializer of the whole graph, \<^verbatim>\<open>Manager.save\<close> and
  \<^verbatim>\<open>Manager.load\<close>, which are not in the source. "serialize(graph) gives
  { byId: { [id]: serializedNode } }", and deserialize is to "create empty nodes for every
  id, then populate edges by id lookup". The records are read after their callbacks ran.
  The result is the ids that were looked up in vain, and the graph.
\<close>

definition serializeGraph :: "heap \<Rightarrow> (string \<times> SerializedTranspiledModule) list" where
  "serializeGraph h = map (\<lambda>n. (getId (h ! n), runCallbacks (serialize h n))) [0..<length h]"

definition deserialize :: "(string \<times> SerializedTranspiledModule) list \<Rightarrow> string list \<times> heap" where
  "deserialize blob =
     fold (\<lambda>(n, d) (ms, h).
             case load n d (zip (map fst blob) [0..<length blob]) h of (ms', h') \<Rightarrow> (ms @ ms', h'))
       (zip [0..<length blob] (map snd blob))
       ([], map (\<lambda>(i, d). newTranspiledModule (s_module d) (s_query d)) blob)"

section \<open>The compile-request queue\<close>

text \<open>
  Lines 219-246. A compile run is in flight from the call \<^verbatim>\<open>compile(task)\<close> until its
  promise settles. The state is the array \<^verbatim>\<open>tasks\<close>, the flag \<^verbatim>\<open>runningTask\<close>, and the
  tasks of the runs in flight; the order of the runs started is kept as a log.
\<close>

record 'a pipeline =
  tasks :: "'a list"
  runningTask :: bool
  inFlight :: "'a list"
  started :: "'a list"

definition initialPipeline :: "'a pipeline" where
  "initialPipeline = \<lparr> tasks = [], runningTask = False, inFlight = [], started = [] \<rparr>"

text \<open>
  \<^verbatim>\<open>executeTaskIfAvailable\<close> up to its \<^verbatim>\<open>await\<close>: \<^verbatim>\<open>pop\<close> takes the last element.
\<close>

definition executeTaskIfAvailable :: "'a pipeline \<Rightarrow> 'a pipeline" where
  "executeTaskIfAvailable p =
     (if tasks p \<noteq> []
      then p\<lparr> tasks := butlast (tasks p), runningTask := True,
              inFlight := inFlight p @ [last (tasks p)],
              started := started p @ [last (tasks p)] \<rparr>
      else p)"

text \<open>\<^verbatim>\<open>tasks[0] = data\<close> extends an empty array and overwrites the first slot otherwise.\<close>

definition queueTask :: "'a \<Rightarrow> 'a pipeline \<Rightarrow> 'a pipeline" where
  "queueTask d p =
     (let p1 = p\<lparr> tasks := (case tasks p of [] \<Rightarrow> [d] | x # xs \<Rightarrow> d # xs) \<rparr>
      in if \<not> runningTask p1 then executeTaskIfAvailable p1 else p1)"

text \<open>
  What can happen to the pipeline: a request arrives; the oldest run in flight fulfils,
  and \<^verbatim>\<open>executeTaskIfAvailable\<close> continues after its \<^verbatim>\<open>await\<close>; or that run rejects,
  and the continuation is skipped.
\<close>

datatype 'a event = Request 'a | Fulfilled | Rejects

fun step :: "'a pipeline \<Rightarrow> 'a event \<Rightarrow> 'a pipeline" where
  "step p (Request d) = queueTask d p"
| "step p Fulfilled =
     (if inFlight p = [] then p
      else executeTaskIfAvailable (p\<lparr> inFlight := tl (inFlight p), runningTask := False \<rparr>))"
| "step p Rejects =
     (if inFlight p = [] then p else p\<lparr> inFlight := tl (inFlight p) \<rparr>)"

definition run :: "'a event list \<Rightarrow> 'a pipeline" where
  "run evs = foldl step initialPipeline evs"

section \<open>Relations between the states before and after an operation\<close>

text \<open>
  \<open>frame R N h h'\<close>: the heap \<open>h'\<close> extends \<open>h\<close>, every node of \<open>h\<close> is related to its
  later self by \<open>R\<close>, and every node created since satisfies \<open>N\<close>.
\<close>

definition frame ::
  "(TranspiledModule \<Rightarrow> TranspiledModule \<Rightarrow> bool) \<Rightarrow> (TranspiledModule \<Rightarrow> bool) \<Rightarrow> heap \<Rightarrow> heap \<Rightarrow> bool" where
  "frame R N h h' =
     (length h \<le> length h' \<and> (\<forall>m<length h. R (h ! m) (h' ! m))
      \<and> (\<forall>m<length h'. length h \<le> m \<longrightarrow> N (h' ! m)))"

definition same_links :: "TranspiledModule \<Rightarrow> TranspiledModule \<Rightarrow> bool" where
  "same_links x y =
     (dependencies y = dependencies x \<and> initiators y = initiators x
      \<and> transpilationDependencies y = transpilationDependencies x
      \<and> transpilationInitiators y = transpilationInitiators x
      \<and> childModules y = childModules x \<and> asyncDependencies y = asyncDependencies x)"

definition no_links :: "TranspiledModule \<Rightarrow> bool" where
  "no_links y =
     (dependencies y = [] \<and> initiators y = [] \<and> transpilationDependencies y = []
      \<and> transpilationInitiators y = [] \<and> childModules y = [] \<and> asyncDependencies y = [])"

definition ev_node :: "TranspiledModule \<Rightarrow> TranspiledModule \<Rightarrow> bool" where
  "ev_node x y =
     (source y = source x \<and> isEntry y = isEntry x \<and> changed y = changed x \<and> same_links x y
      \<and> (compilation x \<noteq> None \<longrightarrow> compilation y \<noteq> None)
      \<and> (compilation x = None \<and> source x = None \<longrightarrow> compilation y = None))"

definition ev_new :: "TranspiledModule \<Rightarrow> bool" where
  "ev_new y = (source y = None \<and> compilation y = None \<and> \<not> changed y \<and> no_links y)"

definition ev_frame :: "heap \<Rightarrow> heap \<Rightarrow> bool" where
  "ev_frame = frame ev_node ev_new"

definition reload_ok :: "heap \<Rightarrow> ref \<Rightarrow> bool" where
  "reload_ok h x = (x < length h \<and> source (h ! x) \<noteq> None \<and> compilation (h ! x) = None \<and> isEntry (h ! x))"

definition newReloads :: "state \<Rightarrow> state \<Rightarrow> ref list" where
  "newReloads st st' = drop (length (reloads st)) (reloads st')"

definition ev_rel :: "state \<Rightarrow> state \<Rightarrow> bool" where
  "ev_rel st st' =
     (ev_frame (heap st) (heap st') \<and> take (length (reloads st)) (reloads st') = reloads st
      \<and> length (reloads st) \<le> length (reloads st')
      \<and> (\<forall>x\<in>set (newReloads st st'). reload_ok (heap st) x))"

definition unchanged_all :: "heap \<Rightarrow> bool" where
  "unchanged_all h = (\<forall>m<length h. \<not> changed (h ! m))"

definition unevaluated :: "heap \<Rightarrow> ref set" where
  "unevaluated h = {m. m < length h \<and> source (h ! m) \<noteq> None \<and> compilation (h ! m) = None}"

definition settled :: "nat \<Rightarrow> state \<Rightarrow> bool" where
  "settled N st = (card (unevaluated (heap st)) \<le> N \<and> unchanged_all (heap st))"

section \<open>Invariants of the graph\<close>

text \<open>
  Symmetry of a pair of edge sets: every member of an \<open>out\<close> set is a node that has the
  owner in its \<open>inn\<close> set, and conversely.
\<close>

definition pair_sym ::
  "(TranspiledModule \<Rightarrow> ref list) \<Rightarrow> (TranspiledModule \<Rightarrow> ref list) \<Rightarrow> heap \<Rightarrow> bool" where
  "pair_sym out inn h =
     ((\<forall>a<length h. \<forall>b\<in>set (out (h ! a)). b < length h \<and> a \<in> set (inn (h ! b)))
      \<and> (\<forall>b<length h. \<forall>a\<in>set (inn (h ! b)). a < length h \<and> b \<in> set (out (h ! a))))"

definition edge_symmetry :: "heap \<Rightarrow> bool" where
  "edge_symmetry h =
     (pair_sym dependencies initiators h
      \<and> pair_sym transpilationDependencies transpilationInitiators h)"

text \<open>
  Every reference a node holds is a node of the heap, as every reference of the source is
  an object: the members of its edge sets, its children, its resolved downloads.
\<close>

definition promise_ok :: "heap \<Rightarrow> promise \<Rightarrow> bool" where
  "promise_ok h p = (case p of Resolved r \<Rightarrow> r < length h | _ \<Rightarrow> True)"

definition node_refs_ok :: "heap \<Rightarrow> TranspiledModule \<Rightarrow> bool" where
  "node_refs_ok h x =
     ((\<forall>r\<in>set (dependencies x @ initiators x @ transpilationDependencies x
                 @ transpilationInitiators x @ childModules x). r < length h)
      \<and> (\<forall>p\<in>set (asyncDependencies x). promise_ok h p))"

definition refs_ok :: "heap \<Rightarrow> bool" where
  "refs_ok h = (\<forall>m<length h. node_refs_ok h (h ! m))"

definition graph_ok :: "heap \<Rightarrow> bool" where
  "graph_ok h = (refs_ok h \<and> edge_symmetry h)"

definition noHmr :: "heap \<Rightarrow> bool" where
  "noHmr h = (\<forall>m<length h. hmrEnabled (h ! m) = HmrOff)"

text \<open>No cached evaluation without a cached transpile.\<close>

definition source_inv :: "heap \<Rightarrow> bool" where
  "source_inv h = (\<forall>m<length h. source (h ! m) = None \<longrightarrow> compilation (h ! m) = None)"

text \<open>What a transpile leaves alone, and what a transpile that returns keeps.\<close>

definition keep_node :: "TranspiledModule \<Rightarrow> TranspiledModule \<Rightarrow> bool" where
  "keep_node x y =
     (compilation y = compilation x \<and> module y = module x \<and> hmrEnabled y = hmrEnabled x
      \<and> changed y = changed x \<and> isEntry y = isEntry x)"

definition keep_new :: "TranspiledModule \<Rightarrow> bool" where
  "keep_new y = (compilation y = None \<and> hmrEnabled y = HmrOff \<and> \<not> changed y)"

definition tr_frame :: "heap \<Rightarrow> heap \<Rightarrow> bool" where
  "tr_frame = frame keep_node keep_new"

definition src_node :: "TranspiledModule \<Rightarrow> TranspiledModule \<Rightarrow> bool" where
  "src_node x y = (source x \<noteq> None \<longrightarrow> source y \<noteq> None)"

definition ok_node :: "TranspiledModule \<Rightarrow> TranspiledModule \<Rightarrow> bool" where
  "ok_node x y = (keep_node x y \<and> src_node x y)"

definition ok_frame :: "heap \<Rightarrow> heap \<Rightarrow> bool" where
  "ok_frame = frame ok_node keep_new"

definition lk_frame :: "heap \<Rightarrow> heap \<Rightarrow> bool" where
  "lk_frame = frame same_links no_links"

definition tr_ok :: "heap \<Rightarrow> heap \<Rightarrow> bool" where
  "tr_ok h h' =
     (ok_frame h h' \<and> (refs_ok h \<longrightarrow> refs_ok h') \<and> (graph_ok h \<longrightarrow> graph_ok h'))"

definition tr_any :: "heap \<Rightarrow> heap \<Rightarrow> bool" where
  "tr_any h h' =
     (tr_frame h h' \<and> (refs_ok h \<longrightarrow> refs_ok h') \<and> (graph_ok h \<and> noHmr h \<longrightarrow> graph_ok h'))"

text \<open>What a failed transpile of node \<open>n\<close> with path \<open>p\<close> leaves: the tagged error and the reset node.\<close>

definition failed_at :: "ref \<Rightarrow> string \<Rightarrow> jsError \<Rightarrow> heap \<Rightarrow> bool" where
  "failed_at n p err h =
     (err_fileName err = Some p \<and> err_tModule err = Some n \<and> source (h ! n) = None
      \<and> errors (h ! n) = [] \<and> warnings (h ! n) = [] \<and> dependencies (h ! n) = []
      \<and> asyncDependencies (h ! n) = [])"

text \<open>
  How transformer \<open>t\<close>, run on code \<open>c\<close> for node \<open>n\<close> in heap \<open>h\<close>, fails, if it does: a
  call on the loader context raised, or the transformer raised, or it returned and there
  is a recorded error, of which the first is thrown after the warnings were dispatched.
  The result is the error, the heap the transformer leaves, and the warnings dispatched.
\<close>

definition transformerFailure ::
  "env \<Rightarrow> ref \<Rightarrow> transpilerConfig \<Rightarrow> string \<Rightarrow> heap \<Rightarrow> (jsError \<times> heap \<times> string list) option" where
  "transformerFailure e n t c h =
     (case runCalls e n (fst (transpiler t c)) h of
        (Some err, h1) \<Rightarrow> Some (err, h1, [])
      | (None, h1) \<Rightarrow>
          (case snd (transpiler t c) of
             Raised err \<Rightarrow> Some (err, h1, [])
           | Transpiled c' sm' \<Rightarrow>
               (case errors (h1 ! n) of
                  [] \<Rightarrow> None
                | err # errs \<Rightarrow> Some (err, h1, warnings (h1 ! n)))))"

text \<open>What \<^verbatim>\<open>resetCompilation\<close> leaves alone: it writes \<open>compilation\<close> and \<open>changed\<close> only.\<close>

definition rc_node :: "TranspiledModule \<Rightarrow> TranspiledModule \<Rightarrow> bool" where
  "rc_node x y =
     (source y = source x \<and> same_links x y \<and> hmrEnabled y = hmrEnabled x
      \<and> (compilation x = None \<longrightarrow> compilation y = None))"

definition rc_frame :: "heap \<Rightarrow> heap \<Rightarrow> bool" where
  "rc_frame h h' = (length h' = length h \<and> (\<forall>m<length h. rc_node (h ! m) (h' ! m)))"

definition hmr_same :: "heap \<Rightarrow> heap \<Rightarrow> bool" where
  "hmr_same h h' = (length h' = length h \<and> (\<forall>m<length h. hmrEnabled (h' ! m) = hmrEnabled (h ! m)))"

text \<open>
  A walk is well formed when every reference of its heap is a node, every call is on a
  node, and the downloads a call awaits are downloads of nodes. A call has stored its
  source once it is past the loader chain; while no call has thrown, the node of such a
  call has a source.
\<close>

definition phase_ok :: "heap \<Rightarrow> phase \<Rightarrow> bool" where
  "phase_ok h ph = (case ph of AtDownloads ps \<Rightarrow> (\<forall>p\<in>set ps. promise_ok h p) | _ \<Rightarrow> True)"

definition walk_ok :: "walk \<Rightarrow> bool" where
  "walk_ok w =
     (refs_ok (heap (w_state w))
      \<and> (\<forall>i<length (calls w). c_node (calls w ! i) < length (heap (w_state w))
             \<and> phase_ok (heap (w_state w)) (c_phase (calls w ! i))))"

definition stored :: "phase \<Rightarrow> bool" where
  "stored ph = (case ph of AtLoader ts i c sm \<Rightarrow> False | Thrown err \<Rightarrow> False | _ \<Rightarrow> True)"

definition sources_ok :: "walk \<Rightarrow> bool" where
  "sources_ok w =
     (\<forall>i<length (calls w). stored (c_phase (calls w ! i))
         \<longrightarrow> source (heap (w_state w) ! c_node (calls w ! i)) \<noteq> None)"

text \<open>
  What one or more moves do to a walk: the heap changes as under a transpile, the list of
  rejections is extended, and while it is not, the heap changes as under a transpile that
  returns and the calls past their loader chain keep their source.
\<close>

definition walk_rel :: "walk \<Rightarrow> walk \<Rightarrow> bool" where
  "walk_rel w w' =
     (tr_any (heap (w_state w)) (heap (w_state w'))
      \<and> (\<exists>xs. rejections w' = rejections w @ xs)
      \<and> length (calls w) \<le> length (calls w')
      \<and> walk_ok w'
      \<and> (rejections w' = rejections w
           \<longrightarrow> tr_ok (heap (w_state w)) (heap (w_state w')) \<and> (sources_ok w \<longrightarrow> sources_ok w')))"

text \<open>
  A ranking of the nodes that \<^verbatim>\<open>resetTranspilation\<close> on node \<open>n\<close> can reach, along the
  edges it follows: from a node without \<open>hmrEnabled\<close> to its transpilation initiators
  that have a source. The rank falls along every such edge that leaves \<open>n\<close> or a node
  of lower rank than \<open>n\<close>; the other nodes are free. There is such a ranking exactly
  when no cycle of these edges can be reached from \<open>n\<close>.
\<close>

definition ranked :: "(ref \<Rightarrow> nat) \<Rightarrow> ref \<Rightarrow> heap \<Rightarrow> bool" where
  "ranked rk n h =
     (\<forall>m<length h. (m = n \<or> rk m < rk n) \<longrightarrow> hmrEnabled (h ! m) = HmrOff
        \<longrightarrow> (\<forall>t\<in>set (transpilationInitiators (h ! m)). source (h ! t) \<noteq> None \<longrightarrow> rk t < rk m))"

text \<open>
  What \<^verbatim>\<open>resetTranspilation\<close> leaves alone on every node: the transpilation initiators and
  \<open>hmrEnabled\<close>; and it sets no source.
\<close>

definition rt_node :: "TranspiledModule \<Rightarrow> TranspiledModule \<Rightarrow> bool" where
  "rt_node x y =
     (transpilationInitiators y = transpilationInitiators x \<and> hmrEnabled y = hmrEnabled x
      \<and> (source x = None \<longrightarrow> source y = None))"

definition rt_frame :: "heap \<Rightarrow> heap \<Rightarrow> bool" where
  "rt_frame h h' = (length h' = length h \<and> (\<forall>m<length h. rt_node (h ! m) (h' ! m)))"

section \<open>Example graphs\<close>

text \<open>
  Two modules that import each other, \<^verbatim>\<open>/a.js\<close> with
  \<^verbatim>\<open>exports.a = 1; exports.b = require('./b').b\<close> and \<^verbatim>\<open>/b.js\<close> with
  \<^verbatim>\<open>exports.b = 2; exports.a = require('./a').a\<close>, their code abbreviated to one letter,
  and a module \<^verbatim>\<open>/c.js\<close> whose unit sets an export and throws. The loader chain has one
  transformer, which registers the import and returns the code as it is.
\<close>

definition exModuleA :: Module where
  "exModuleA = \<lparr>path = ''/a.js'', code = ''A'', requires = None\<rparr>"

definition exModuleB :: Module where
  "exModuleB = \<lparr>path = ''/b.js'', code = ''B'', requires = None\<rparr>"

definition notFound :: "string \<Rightarrow> jsError" where
  "notFound p = (mkError ''not found'')\<lparr>errType := ''module-not-found'', errPath := p\<rparr>"

definition exResolve :: "string \<Rightarrow> string \<Rightarrow> jsError + Module \<times> string" where
  "exResolve spec from =
     (if spec = ''./a'' then Inr (exModuleA, [])
      else if spec = ''./b'' then Inr (exModuleB, [])
      else Inl (notFound spec))"

definition exTranspiler :: "string \<Rightarrow> ctxCall list \<times> outcome" where
  "exTranspiler c =
     (if c = ''A'' then ([AddDependency ''./b'' False], Transpiled c None)
      else if c = ''B'' then ([AddDependency ''./a'' False], Transpiled c None)
      else ([], Raised (mkError ''syntax error'')))"

definition exParse :: "string \<Rightarrow> stmt list" where
  "exParse c =
     (if take 1 c = ''A'' then [ExportsSet ''a'' (Lit (Num 1)), ExportsSet ''b'' (RequireProp ''./b'' ''b'')]
      else if take 1 c = ''B'' then [ExportsSet ''b'' (Lit (Num 2)), ExportsSet ''a'' (RequireProp ''./a'' ''a'')]
      else [ExportsSet ''x'' (Lit (Num 0)), ThrowStmt ''boom''])"

definition exEnv :: env where
  "exEnv = \<lparr> getLoaders = (\<lambda>m q. [\<lparr>transpiler = exTranspiler, cacheable = True\<rparr>]),
             getAliasedPath = (\<lambda>p. p), resolveModule = exResolve,
             modulesInDirectory = (\<lambda>d f. []), download = (\<lambda>p f. None),
             resolveDependency = (\<lambda>p. Inr []), parseUnit = exParse,
             origin = ''https://sandbox'', joinPath = (\<lambda>d p. d @ p), dirname = (\<lambda>p. ''/'') \<rparr>"

definition exState :: "heap \<Rightarrow> state" where
  "exState h = \<lparr> heap = h, webpackHMR = False, reloads = [], dispatched = [],
                 transformerRuns = [], acceptRuns = [] \<rparr>"

definition exFresh :: state where
  "exFresh = exState [newTranspiledModule exModuleA [], newTranspiledModule exModuleB []]"

definition exSource :: "Module \<Rightarrow> ModuleSource" where
  "exSource m = \<lparr>fileName = path m, compiledCode = sourceURL exEnv (code m) (path m), sourceMap = None\<rparr>"

definition exTranspiled :: state where
  "exTranspiled = exState
     [(newTranspiledModule exModuleA [])\<lparr>source := Some (exSource exModuleA),
         dependencies := [1], initiators := [1]\<rparr>,
      (newTranspiledModule exModuleB [])\<lparr>source := Some (exSource exModuleB),
         dependencies := [0], initiators := [0]\<rparr>]"

definition exCachedNode :: TranspiledModule where
  "exCachedNode = (newTranspiledModule exModuleA [])\<lparr>source := Some (exSource exModuleA),
         compilation := Some \<lparr>exports = [(''a'', Num 1)]\<rparr>\<rparr>"

definition exCached :: state where
  "exCached = exState [exCachedNode]"

definition exStale :: state where
  "exStale = exState [exCachedNode\<lparr>source := None\<rparr>]"

definition exEntryUntranspiled :: state where
  "exEntryUntranspiled =
     (exState [(newTranspiledModule exModuleA [])\<lparr>isEntry := True\<rparr>])\<lparr>webpackHMR := True\<rparr>"

definition exEntry :: state where
  "exEntry =
     (exState [(newTranspiledModule exModuleA [])\<lparr>isEntry := True,
                 source := Some (exSource exModuleA)\<rparr>])\<lparr>webpackHMR := True\<rparr>"

definition exModuleC :: Module where
  "exModuleC = \<lparr>path = ''/c.js'', code = ''C'', requires = None\<rparr>"

definition exThrowing :: state where
  "exThrowing = exState [(newTranspiledModule exModuleC [])\<lparr>source := Some (exSource exModuleC)\<rparr>]"

definition exThrown :: state where
  "exThrown = exState [(newTranspiledModule exModuleC [])\<lparr>source := Some (exSource exModuleC),
                          compilation := Some \<lparr>exports = [(''x'', Num 0)]\<rparr>\<rparr>]"

text \<open>
  A node with one download that has resolved, and a graph with one compile-time edge
  together with what \<^verbatim>\<open>load\<close> makes of its serialization.
\<close>

definition exPending :: heap where
  "exPending =
     [(newTranspiledModule exModuleA [])\<lparr>asyncDependencies := [Resolved 1]\<rparr>,
      newTranspiledModule exModuleB []]"

definition exLoaderGraph :: heap where
  "exLoaderGraph =
     [(newTranspiledModule exModuleA [])\<lparr>transpilationDependencies := [1]\<rparr>,
      (newTranspiledModule exModuleB [])\<lparr>transpilationInitiators := [0]\<rparr>]"

definition exLoaderRestored :: heap where
  "exLoaderRestored =
     [(newTranspiledModule exModuleA [])\<lparr>transpilationDependencies := [1]\<rparr>,
      newTranspiledModule exModuleB []]"

text \<open>
  The two modules once the walk of a \<^verbatim>\<open>transpile\<close> of \<^verbatim>\<open>/a.js\<close> has ended, and the error
  of the transformer on \<^verbatim>\<open>/c.js\<close>, tagged by the failed call on node 0.
\<close>

definition exAfterTranspile :: state where
  "exAfterTranspile = exTranspiled\<lparr>transformerRuns := [(0, 0), (1, 0)]\<rparr>"

definition exSyntaxError :: jsError where
  "exSyntaxError = (mkError ''syntax error'')\<lparr>err_fileName := Some ''/c.js'', err_tModule := Some 0\<rparr>"

text \<open>
  The two transpiled modules after \<^verbatim>\<open>resetTranspilation\<close> and after \<^verbatim>\<open>reset\<close> of \<^verbatim>\<open>/a.js\<close>;
  the same edge from \<^verbatim>\<open>/a.js\<close> to \<^verbatim>\<open>/b.js\<close> with \<open>hmrEnabled\<close> set on \<^verbatim>\<open>/a.js\<close>, before
  and after its \<^verbatim>\<open>resetTranspilation\<close>.
\<close>

definition exReset :: heap where
  "exReset =
     [(newTranspiledModule exModuleA [])\<lparr>initiators := [1]\<rparr>,
      (newTranspiledModule exModuleB [])\<lparr>source := Some (exSource exModuleB), dependencies := [0]\<rparr>]"

definition exResetAll :: heap where
  "exResetAll =
     [(newTranspiledModule exModuleA [])\<lparr>initiators := [1], emittedAssets := Some []\<rparr>,
      (newTranspiledModule exModuleB [])\<lparr>source := Some (exSource exModuleB), dependencies := [0]\<rparr>]"

definition exHmrGraph :: heap where
  "exHmrGraph =
     [(newTranspiledModule exModuleA [])\<lparr>source := Some (exSource exModuleA),
         dependencies := [1], hmrEnabled := HmrSelf\<rparr>,
      (newTranspiledModule exModuleB [])\<lparr>source := Some (exSource exModuleB), initiators := [0]\<rparr>]"

definition exHmrReset :: heap where
  "exHmrReset =
     [(newTranspiledModule exModuleA [])\<lparr>hmrEnabled := HmrSelf\<rparr>,
      (newTranspiledModule exModuleB [])\<lparr>source := Some (exSource exModuleB), initiators := [0]\<rparr>]"

text \<open>
  An evaluated module \<^verbatim>\<open>/a.js\<close> whose loader registered \<^verbatim>\<open>/c.js\<close> as a compile-time
  dependency, before and after the failed transpile of \<^verbatim>\<open>/c.js\<close>.
\<close>

definition exLoaderCached :: state where
  "exLoaderCached = exState
     [(newTranspiledModule exModuleC [])\<lparr>transpilationInitiators := [1]\<rparr>,
      exCachedNode\<lparr>transpilationDependencies := [0]\<rparr>]"

definition exLoaderStale :: state where
  "exLoaderStale = (exState
     [(newTranspiledModule exModuleC [])\<lparr>transpilationInitiators := [1]\<rparr>,
      exCachedNode\<lparr>source := None, transpilationDependencies := [0]\<rparr>])\<lparr>transformerRuns := [(0, 0)]\<rparr>"

text \<open>
  The walks of \<^verbatim>\<open>transpile\<close> the examples end in: the two modules that import each other
  after a call on \<^verbatim>\<open>/a.js\<close> has returned, with the call on \<^verbatim>\<open>/b.js\<close> it started and the
  call on \<^verbatim>\<open>/a.js\<close> that one started; and the failed call on \<^verbatim>\<open>/c.js\<close>.
\<close>

definition exWalkDone :: walk where
  "exWalkDone =
     \<lparr> w_state = exAfterTranspile,
       calls = [\<lparr>c_node = 0, c_phase = Returned, c_children = [1]\<rparr>,
                \<lparr>c_node = 1, c_phase = Returned, c_children = [2]\<rparr>,
                \<lparr>c_node = 0, c_phase = Returned, c_children = []\<rparr>],
       rejections = [] \<rparr>"

definition exWalkFailed :: walk where
  "exWalkFailed =
     \<lparr> w_state = exLoaderStale,
       calls = [\<lparr>c_node = 0, c_phase = Thrown exSyntaxError, c_children = []\<rparr>],
       rejections = [0] \<rparr>"

text \<open>
  Four modules: \<^verbatim>\<open>/a.js\<close> imports \<^verbatim>\<open>/b.js\<close> and \<^verbatim>\<open>/c.js\<close>, and each of these imports
  \<^verbatim>\<open>/d.js\<close>. In the second graph the code of \<^verbatim>\<open>/c.js\<close> is one on which the transformer
  raises. A fifth module, \<^verbatim>\<open>/e.js\<close>, is one for which the transformer emits a warning,
  registers \<^verbatim>\<open>/d.js\<close> as a dependency, emits an error and returns.
\<close>

definition exModuleD :: Module where
  "exModuleD = \<lparr>path = ''/d.js'', code = ''D'', requires = None\<rparr>"

definition exModuleE :: Module where
  "exModuleE = \<lparr>path = ''/e.js'', code = ''E'', requires = None\<rparr>"

definition exResolve4 :: "string \<Rightarrow> string \<Rightarrow> jsError + Module \<times> string" where
  "exResolve4 spec from =
     (if spec = ''./a'' then Inr (exModuleA, [])
      else if spec = ''./b'' then Inr (exModuleB, [])
      else if spec = ''./c'' then Inr (exModuleC, [])
      else if spec = ''./d'' then Inr (exModuleD, [])
      else Inl (notFound spec))"

definition exTranspiler4 :: "string \<Rightarrow> ctxCall list \<times> outcome" where
  "exTranspiler4 c =
     (if c = ''A'' then ([AddDependency ''./b'' False, AddDependency ''./c'' False], Transpiled c None)
      else if c = ''B'' \<or> c = ''C'' then ([AddDependency ''./d'' False], Transpiled c None)
      else if c = ''D'' then ([], Transpiled c None)
      else if c = ''E''
        then ([EmitWarning ''unused'', AddDependency ''./d'' False, EmitError (mkError ''bad import'')],
              Transpiled c None)
      else ([], Raised (mkError ''syntax error'')))"

definition exLoader4 :: transpilerConfig where
  "exLoader4 = \<lparr>transpiler = exTranspiler4, cacheable = True\<rparr>"

definition exEnv4 :: env where
  "exEnv4 = exEnv\<lparr>getLoaders := (\<lambda>m q. [exLoader4]), resolveModule := exResolve4\<rparr>"

definition exDiamond :: state where
  "exDiamond = exState [newTranspiledModule exModuleA [], newTranspiledModule exModuleB [],
                        newTranspiledModule exModuleC [], newTranspiledModule exModuleD []]"

definition exBroken :: state where
  "exBroken = exState [newTranspiledModule exModuleA [], newTranspiledModule exModuleB [],
                       newTranspiledModule (exModuleC\<lparr>code := ''X''\<rparr>) [],
                       newTranspiledModule exModuleD []]"

text \<open>
  A call on \<^verbatim>\<open>/e.js\<close> that awaits its transformer. The evaluated \<^verbatim>\<open>/a.js\<close> has \<^verbatim>\<open>/e.js\<close> as a
  compile-time dependency. Then the heap the transformer leaves, and the walk after the
  failure.
\<close>

definition exBusy :: walk where
  "exBusy =
     \<lparr> w_state = (exState
          [(newTranspiledModule exModuleE [])\<lparr>transpilationInitiators := [1]\<rparr>,
           exCachedNode\<lparr>transpilationDependencies := [0]\<rparr>,
           newTranspiledModule exModuleD []])\<lparr>transformerRuns := [(0, 0)]\<rparr>,
       calls = [\<lparr>c_node = 0, c_phase = AtLoader [exLoader4] 0 ''E'' None, c_children = []\<rparr>],
       rejections = [] \<rparr>"

definition exBusyHeap :: heap where
  "exBusyHeap =
     [(newTranspiledModule exModuleE [])\<lparr>transpilationInitiators := [1], warnings := [''unused''],
         errors := [mkError ''bad import''], dependencies := [2]\<rparr>,
      exCachedNode\<lparr>transpilationDependencies := [0]\<rparr>,
      (newTranspiledModule exModuleD [])\<lparr>initiators := [0]\<rparr>]"

definition exBusyFailed :: walk where
  "exBusyFailed =
     \<lparr> w_state = (exState
          [(newTranspiledModule exModuleE [])\<lparr>transpilationInitiators := [1]\<rparr>,
           exCachedNode\<lparr>source := None, transpilationDependencies := [0]\<rparr>,
           newTranspiledModule exModuleD []])\<lparr>transformerRuns := [(0, 0)], dispatched := [''unused'']\<rparr>,
       calls = [\<lparr>c_node = 0, c_phase = Thrown ((mkError ''bad import'')\<lparr>err_fileName := Some ''/e.js'',
                    err_tModule := Some 0\<rparr>), c_children = []\<rparr>],
       rejections = [0] \<rparr>"

text \<open>
  Two transpiled modules that are each other's compile-time dependency, and \<^verbatim>\<open>/c.js\<close>,
  not transpiled, a compile-time dependency of the first.
\<close>

definition exCycle :: state where
  "exCycle = exState
     [(newTranspiledModule exModuleA [])\<lparr>source := Some (exSource exModuleA),
         transpilationInitiators := [1], transpilationDependencies := [1, 2]\<rparr>,
      (newTranspiledModule exModuleB [])\<lparr>source := Some (exSource exModuleB),
         transpilationInitiators := [0], transpilationDependencies := [0]\<rparr>,
      (newTranspiledModule exModuleC [])\<lparr>transpilationInitiators := [0]\<rparr>]"

text \<open>
  The walk on the second graph of four modules when the call on \<^verbatim>\<open>/c.js\<close> has been
  rejected and the call on \<^verbatim>\<open>/a.js\<close> still awaits its fan-out.
\<close>

definition exSyntaxError2 :: jsError where
  "exSyntaxError2 = (mkError ''syntax error'')\<lparr>err_fileName := Some ''/c.js'', err_tModule := Some 2\<rparr>"

definition exAwaiting :: walk where
  "exAwaiting =
     \<lparr> w_state = (exState
          [(newTranspiledModule exModuleA [])\<lparr>source := Some (exSource exModuleA),
              dependencies := [1, 2]\<rparr>,
           (newTranspiledModule exModuleB [])\<lparr>initiators := [0]\<rparr>,
           (newTranspiledModule (exModuleC\<lparr>code := ''X''\<rparr>) [])\<lparr>initiators := [0]\<rparr>,
           newTranspiledModule exModuleD []])\<lparr>transformerRuns := [(0, 0), (1, 0), (2, 0)]\<rparr>,
       calls = [\<lparr>c_node = 0, c_phase = AtFanout, c_children = [1, 2]\<rparr>,
                \<lparr>c_node = 1, c_phase = AtLoader [exLoader4] 0 ''B'' None, c_children = []\<rparr>,
                \<lparr>c_node = 2, c_phase = Thrown exSyntaxError2, c_children = []\<rparr>],
       rejections = [2] \<rparr>"

section \<open>Properties of evaluate\<close>

lemma length_upd [simp]: "length (upd n f h) = length h"
  by (simp add: upd_def)

lemma nth_upd: "upd n f h ! m = (if m = n \<and> n < length h then f (h ! n) else h ! m)"
  by (cases "n < length h") (auto simp: upd_def nth_list_update list_update_beyond)

lemma frame_refl: "(\<And>x. R x x) \<Longrightarrow> frame R N h h"
  by (simp add: frame_def)

lemma frame_trans:
  assumes "frame R N h1 h2" "frame R N h2 h3"
    and "\<And>x y z. R x y \<Longrightarrow> R y z \<Longrightarrow> R x z" and "\<And>y z. N y \<Longrightarrow> R y z \<Longrightarrow> N z"
  shows "frame R N h1 h3"
  unfolding frame_def
proof (intro conjI allI impI)
  show "length h1 \<le> length h3" using assms(1,2) by (simp add: frame_def)
next
  fix m assume "m < length h1"
  then show "R (h1 ! m) (h3 ! m)"
    using assms(1,2) assms(3)[of "h1 ! m" "h2 ! m" "h3 ! m"] by (simp add: frame_def)
next
  fix m assume m: "m < length h3" "length h1 \<le> m"
  show "N (h3 ! m)"
  proof (cases "m < length h2")
    case True
    then show ?thesis using assms(1,2) m assms(4)[of "h2 ! m" "h3 ! m"] by (simp add: frame_def)
  next
    case False
    then show ?thesis using assms(2) m by (simp add: frame_def)
  qed
qed

lemma frame_upd:
  "(\<And>x. R x x) \<Longrightarrow> (n < length h \<Longrightarrow> R (h ! n) (f (h ! n))) \<Longrightarrow> frame R N h (upd n f h)"
  by (simp add: frame_def nth_upd)

lemma frame_append: "(\<And>x. R x x) \<Longrightarrow> N x \<Longrightarrow> frame R N h (h @ [x])"
  by (auto simp: frame_def nth_append)

lemma addTranspiledModule_cases:
  assumes "addTranspiledModule m q h = (r, h')"
  shows "(r < length h \<and> h' = h) \<or> (r = length h \<and> h' = h @ [newTranspiledModule m q])"
proof (cases "find (\<lambda>i. path (module (h ! i)) = path m \<and> query (h ! i) = q) [0..<length h]")
  case None
  then show ?thesis using assms by (simp add: addTranspiledModule_def)
next
  case (Some i)
  then have "i \<in> set [0..<length h]" by (auto simp: find_Some_iff)
  then show ?thesis using assms Some by (simp add: addTranspiledModule_def)
qed

lemma frame_addTranspiledModule:
  assumes "addTranspiledModule m q h = (r, h')" "\<And>x. R x x" "N (newTranspiledModule m q)"
  shows "frame R N h h' \<and> r < length h'"
  using addTranspiledModule_cases[OF assms(1)] assms(2,3)
  by (auto simp: frame_refl frame_append)

lemma ev_node_refl: "ev_node x x"
  by (simp add: ev_node_def same_links_def)

lemma ev_node_trans: "ev_node x y \<Longrightarrow> ev_node y z \<Longrightarrow> ev_node x z"
  by (auto simp: ev_node_def same_links_def)

lemma ev_new_node: "ev_new y \<Longrightarrow> ev_node y z \<Longrightarrow> ev_new z"
  by (auto simp: ev_node_def ev_new_def same_links_def no_links_def)

lemma ev_new_new: "ev_new (newTranspiledModule m q)"
  by (simp add: ev_new_def no_links_def newTranspiledModule_def)

lemma ev_frame_refl: "ev_frame h h"
  by (simp add: ev_frame_def frame_refl ev_node_refl)

lemma ev_frame_trans: "ev_frame h1 h2 \<Longrightarrow> ev_frame h2 h3 \<Longrightarrow> ev_frame h1 h3"
  unfolding ev_frame_def by (erule (1) frame_trans) (auto intro: ev_node_trans ev_new_node)

lemma ev_frame_length: "ev_frame h h' \<Longrightarrow> length h \<le> length h'"
  by (simp add: ev_frame_def frame_def)

lemma ev_frame_resolve:
  assumes "resolveTranspiledModule e spec from h = (r, h')"
  shows "ev_frame h h' \<and> (\<forall>t. r = Inr t \<longrightarrow> t < length h')"
proof (cases "resolveModule e spec from")
  case (Inl err)
  then show ?thesis using assms by (auto simp: resolveTranspiledModule_def ev_frame_refl)
next
  case (Inr mq)
  obtain m q where mq: "mq = (m, q)" by (cases mq)
  obtain t h1 where a: "addTranspiledModule m q h = (t, h1)" by (cases "addTranspiledModule m q h")
  from frame_addTranspiledModule[OF a, of ev_node ev_new] have "ev_frame h h1 \<and> t < length h1"
    by (simp add: ev_frame_def ev_node_refl ev_new_new)
  then show ?thesis using assms Inr mq a by (auto simp: resolveTranspiledModule_def)
qed

lemma ev_frame_upd:
  "(n < length h \<Longrightarrow> ev_node (h ! n) (f (h ! n))) \<Longrightarrow> ev_frame h (upd n f h)"
  unfolding ev_frame_def by (rule frame_upd) (auto simp: ev_node_refl)

lemma ev_frame_setExport: "ev_frame h (setExport n k v h)"
  unfolding setExport_def by (rule ev_frame_upd) (auto simp: ev_node_def same_links_def)

lemma ev_frame_initCompilation:
  "source (heap st ! n) \<noteq> None \<Longrightarrow> ev_frame (heap st) (heap (initCompilation n st))"
  by (auto simp: initCompilation_def ev_frame_refl ev_node_def same_links_def
      intro!: ev_frame_upd split: option.splits)

lemma ev_frame_hotAccept:
  assumes "hotAccept e n p cb st = (r, st')"
  shows "ev_frame (heap st) (heap st')"
proof (cases "p \<noteq> None \<and> p \<noteq> Some []")
  case True
  obtain r1 h1 where res: "resolveTranspiledModule e (case p of None \<Rightarrow> [] | Some s \<Rightarrow> s)
               (path (module (heap st ! n))) (heap st) = (r1, h1)"
    by (cases "resolveTranspiledModule e (case p of None \<Rightarrow> [] | Some s \<Rightarrow> s)
               (path (module (heap st ! n))) (heap st)")
  have f1: "ev_frame (heap st) h1" using ev_frame_resolve[OF res] by simp
  show ?thesis
  proof (cases r1)
    case (Inl err)
    then show ?thesis using assms True res f1 by (auto simp: hotAccept_def)
  next
    case (Inr t)
    have "ev_frame h1 (upd t (\<lambda>x. x\<lparr>hmrEnabled :=
                        (case cb of None \<Rightarrow> HmrOff | Some c \<Rightarrow> HmrCallback c)\<rparr>) h1)"
      by (rule ev_frame_upd) (simp add: ev_node_def same_links_def)
    then show ?thesis using assms True res f1 Inr
      by (auto simp: hotAccept_def intro: ev_frame_trans)
  qed
next
  case False
  have "ev_frame (heap st) (upd n (\<lambda>x. x\<lparr>hmrEnabled := HmrSelf\<rparr>) (heap st))"
    by (rule ev_frame_upd) (simp add: ev_node_def same_links_def)
  then show ?thesis using assms False by (auto simp: hotAccept_def)
qed

lemma ev_relI:
  "ev_frame (heap st) (heap st') \<Longrightarrow> reloads st' = reloads st @ new
    \<Longrightarrow> (\<And>x. x \<in> set new \<Longrightarrow> reload_ok (heap st) x) \<Longrightarrow> ev_rel st st'"
  by (simp add: ev_rel_def newReloads_def)

lemma ev_relD:
  assumes "ev_rel st st'"
  shows "ev_frame (heap st) (heap st')"
    and "reloads st' = reloads st @ newReloads st st'"
    and "\<And>x. x \<in> set (newReloads st st') \<Longrightarrow> reload_ok (heap st) x"
proof -
  show "ev_frame (heap st) (heap st')" using assms by (simp add: ev_rel_def)
  have "reloads st' = take (length (reloads st)) (reloads st') @ drop (length (reloads st)) (reloads st')"
    by simp
  also have "take (length (reloads st)) (reloads st') = reloads st"
    using assms by (simp add: ev_rel_def)
  finally show "reloads st' = reloads st @ newReloads st st'"
    by (simp add: newReloads_def)
  show "\<And>x. x \<in> set (newReloads st st') \<Longrightarrow> reload_ok (heap st) x"
    using assms by (simp add: ev_rel_def)
qed

lemma ev_rel_refl: "ev_rel st st"
  by (rule ev_relI[where new = "[]"]) (simp_all add: ev_frame_refl)

lemma ev_rel_heap: "heap st' = heap st \<Longrightarrow> reloads st' = reloads st \<Longrightarrow> ev_rel st st'"
  by (rule ev_relI[where new = "[]"]) (simp_all add: ev_frame_refl)

lemma reload_ok_back:
  assumes "ev_frame h h'" "reload_ok h' x"
  shows "reload_ok h x"
proof -
  from assms(1) have len: "length h \<le> length h'"
    and old: "\<And>m. m < length h \<Longrightarrow> ev_node (h ! m) (h' ! m)"
    and new: "\<And>m. m < length h' \<Longrightarrow> length h \<le> m \<Longrightarrow> ev_new (h' ! m)"
    by (simp_all add: ev_frame_def frame_def)
  from assms(2) have x: "x < length h'" "source (h' ! x) \<noteq> None" "compilation (h' ! x) = None"
    "isEntry (h' ! x)" by (simp_all add: reload_ok_def)
  have "x < length h"
  proof (rule ccontr)
    assume "\<not> x < length h"
    then have "ev_new (h' ! x)" using new x(1) by simp
    then show False using x(2) by (simp add: ev_new_def)
  qed
  then show ?thesis using old[of x] x by (auto simp: reload_ok_def ev_node_def)
qed

lemma ev_rel_trans:
  assumes "ev_rel s1 s2" "ev_rel s2 s3"
  shows "ev_rel s1 s3"
proof (rule ev_relI[where new = "newReloads s1 s2 @ newReloads s2 s3"])
  show "ev_frame (heap s1) (heap s3)"
    using ev_relD(1)[OF assms(1)] ev_relD(1)[OF assms(2)] by (rule ev_frame_trans)
  show "reloads s3 = reloads s1 @ newReloads s1 s2 @ newReloads s2 s3"
    using ev_relD(2)[OF assms(1)] ev_relD(2)[OF assms(2)] by simp
  fix x assume "x \<in> set (newReloads s1 s2 @ newReloads s2 s3)"
  then show "reload_ok (heap s1) x"
    using ev_relD(3)[OF assms(1)] ev_relD(3)[OF assms(2)] reload_ok_back[OF ev_relD(1)[OF assms(1)]]
    by auto
qed

lemma ev_rel_frame: "ev_frame (heap st) h \<Longrightarrow> ev_rel st (st\<lparr>heap := h\<rparr>)"
  by (rule ev_relI[where new = "[]"]) simp_all

lemma ev_rel_require:
  assumes ev: "\<And>t ps s r s'. ev t ps s = Some (r, s') \<Longrightarrow> t < length (heap s) \<Longrightarrow> ev_rel s s'"
    and "requireFn ev e n lm ps p st = Some (r, st')"
  shows "ev_rel st st'"
proof (cases "bareSpecifier (getAliasedPath e p) \<and>
         (startsWith ''babel-runtime'' (getAliasedPath e p) \<or> startsWith ''codesandbox-api'' (getAliasedPath e p))")
  case True
  then show ?thesis using assms(2) by (auto simp: requireFn_def ev_rel_refl)
next
  case False
  obtain r1 h1 where res: "resolveTranspiledModule e (getAliasedPath e p) (path lm) (heap st) = (r1, h1)"
    by (cases "resolveTranspiledModule e (getAliasedPath e p) (path lm) (heap st)")
  have f1: "ev_rel st (st\<lparr>heap := h1\<rparr>)" using ev_frame_resolve[OF res] by (simp add: ev_rel_frame)
  show ?thesis
  proof (cases r1)
    case (Inl err)
    then show ?thesis using assms(2) False res f1 by (auto simp: requireFn_def Let_def)
  next
    case (Inr t)
    show ?thesis
    proof (cases "lm = module (h1 ! t)")
      case True
      then show ?thesis using assms(2) False res f1 Inr by (auto simp: requireFn_def Let_def)
    next
      case neq: False
      then have "ev t (ps @ [n]) (st\<lparr>heap := h1\<rparr>) = Some (r, st')"
        using assms(2) False res Inr by (auto simp: requireFn_def Let_def)
      moreover have "t < length h1" using ev_frame_resolve[OF res] Inr by simp
      ultimately have "ev_rel (st\<lparr>heap := h1\<rparr>) st'" using ev by simp
      with f1 show ?thesis by (blast intro: ev_rel_trans)
    qed
  qed
qed

lemma ev_rel_evaluator:
  "evaluator req e n ss st = Some (r, st') \<Longrightarrow> (\<And>p s r s'. req p s = Some (r, s') \<Longrightarrow> ev_rel s s')
    \<Longrightarrow> ev_rel st st'"
proof (induction req e n ss st rule: evaluator.induct)
  case (1 req e n st)
  then show ?case by (simp add: ev_rel_refl)
next
  case (2 req e n k v ss st)
  have "ev_rel st (st\<lparr>heap := setExport n k v (heap st)\<rparr>)"
    by (simp add: ev_rel_frame ev_frame_setExport)
  with 2 show ?case by (auto intro: ev_rel_trans)
next
  case (3 req e n k p f ss st)
  show ?case
  proof (cases "req p st")
    case None
    then show ?thesis using 3 by simp
  next
    case (Some a)
    obtain r1 st1 where a: "a = (r1, st1)" by (cases a)
    have s1: "ev_rel st st1" using Some a "3.prems"(2) by blast
    show ?thesis
    proof (cases r1)
      case (Inl err)
      then show ?thesis using 3 Some a s1 by simp
    next
      case (Inr ex)
      have "ev_rel st1 (st1\<lparr>heap := setExport n k (getProp ex f) (heap st1)\<rparr>)"
        by (simp add: ev_rel_frame ev_frame_setExport)
      moreover have "ev_rel (st1\<lparr>heap := setExport n k (getProp ex f) (heap st1)\<rparr>) st'"
        using "3.IH" "3.prems" Some a Inr by simp
      ultimately show ?thesis using s1 by (blast intro: ev_rel_trans)
    qed
  qed
next
  case (4 req e n p ss st)
  show ?case
  proof (cases "req p st")
    case None
    then show ?thesis using 4 by simp
  next
    case (Some a)
    obtain r1 st1 where a: "a = (r1, st1)" by (cases a)
    have s1: "ev_rel st st1" using Some a "4.prems"(2) by blast
    show ?thesis
    proof (cases r1)
      case (Inl err)
      then show ?thesis using 4 Some a s1 by simp
    next
      case (Inr ex)
      have "ev_rel st1 st'"
        using "4.IH" "4.prems" Some a Inr by simp
      then show ?thesis using s1 by (blast intro: ev_rel_trans)
    qed
  qed
next
  case (5 req e n msg ss st)
  then show ?case by (simp add: ev_rel_refl)
next
  case (6 req e n p cb ss st)
  obtain r1 st1 where h: "hotAccept e n p cb st = (r1, st1)" by (cases "hotAccept e n p cb st")
  have "reloads st1 = reloads st" using h by (auto simp: hotAccept_def split: if_splits prod.splits sum.splits)
  then have s1: "ev_rel st st1" using ev_frame_hotAccept[OF h] by (intro ev_relI[where new = "[]"]) simp_all
  show ?case
  proof (cases r1)
    case None
    then have "ev_rel st1 st'" using "6.IH" "6.prems" h by simp
    then show ?thesis using s1 by (blast intro: ev_rel_trans)
  next
    case (Some err)
    then show ?thesis using 6 h s1 by simp
  qed
qed

lemma ev_rel_evaluateBody:
  assumes "evaluateBody ev e n ps st = Some (r, st')" "n < length (heap st)"
    and ev: "\<And>t ps s r s'. ev t ps s = Some (r, s') \<Longrightarrow> t < length (heap s) \<Longrightarrow> ev_rel s s'"
  shows "ev_rel st st'"
proof (cases "source (heap st ! n)")
  case None
  then show ?thesis using assms(1) by (auto simp: evaluateBody_def ev_rel_refl)
next
  case (Some src)
  show ?thesis
  proof (cases "webpackHMR st \<and> compilation (heap st ! n) = None \<and> isEntry (heap st ! n)
          \<and> hmrEnabled (heap st ! n) = HmrOff")
    case True
    then have "st' = st\<lparr>reloads := reloads st @ [n]\<rparr>" using assms(1) Some by (auto simp: evaluateBody_def)
    then show ?thesis using True Some assms(2)
      by (intro ev_relI[where new = "[n]"]) (auto simp: ev_frame_refl reload_ok_def)
  next
    case nr: False
    show ?thesis
    proof (cases "compilation (heap st ! n) \<noteq> None \<and> \<not> changed (heap st ! n)")
      case True
      then show ?thesis using assms(1) Some nr by (auto simp: evaluateBody_def ev_rel_refl)
    next
      case False
      let ?req = "requireFn ev e n (module (heap st ! n)) ps"
      let ?st1 = "initCompilation n st"
      have r1: "reloads ?st1 = reloads st" by (simp add: initCompilation_def split: option.splits)
      have s1: "ev_rel st ?st1"
        using ev_frame_initCompilation[of st n] Some r1 by (intro ev_relI[where new = "[]"]) simp_all
      have req: "\<And>p s r s'. ?req p s = Some (r, s') \<Longrightarrow> ev_rel s s'"
        by (rule ev_rel_require[where ev = ev]) (auto intro: ev)
      obtain r2 st2 where ev2: "evaluator ?req e n (parseUnit e (compiledCode src)) ?st1 = Some (r2, st2)"
        using assms(1) Some nr False by (auto simp: evaluateBody_def split: option.splits)
      have s2: "ev_rel ?st1 st2" using ev_rel_evaluator[OF ev2 req] by simp
      have "heap st' = heap st2 \<and> reloads st' = reloads st2"
        using assms(1) Some nr False ev2
        by (cases r2) (auto simp: evaluateBody_def runAcceptHook_def split: hmr.splits)
      then have "ev_rel st2 st'" by (simp add: ev_rel_heap)
      with s1 s2 show ?thesis by (blast intro: ev_rel_trans)
    qed
  qed
qed

lemma ev_rel_evaluate:
  "evaluate k e n ps st = Some (r, st') \<Longrightarrow> n < length (heap st) \<Longrightarrow> ev_rel st st'"
proof (induction k arbitrary: n ps st r st')
  case 0
  then show ?case by simp
next
  case (Suc k)
  from Suc.prems(1) have "evaluateBody (evaluate k e) e n ps st = Some (r, st')" by simp
  then show ?case using Suc.prems(2) by (rule ev_rel_evaluateBody) (rule Suc.IH)
qed

lemma evaluator_mono:
  "evaluator req e n ss st = Some (r, st') \<Longrightarrow>
   (\<And>p s r s'. req p s = Some (r, s') \<Longrightarrow> req' p s = Some (r, s'))
    \<Longrightarrow> evaluator req' e n ss st = Some (r, st')"
proof (induction req e n ss st rule: evaluator.induct)
  case (3 req e n k p f ss st)
  then show ?case by (cases "req p st") (auto split: sum.splits prod.splits)
next
  case (4 req e n p ss st)
  then show ?case by (cases "req p st") (auto split: sum.splits prod.splits)
next
  case (6 req e n p cb ss st)
  then show ?case by (auto split: option.splits prod.splits)
qed auto

lemma requireFn_mono:
  "requireFn ev e n lm ps p st = Some (r, st') \<Longrightarrow>
   (\<And>t qs s r s'. ev t qs s = Some (r, s') \<Longrightarrow> ev' t qs s = Some (r, s'))
    \<Longrightarrow> requireFn ev' e n lm ps p st = Some (r, st')"
  by (auto simp: requireFn_def Let_def split: if_splits prod.splits sum.splits)

lemma evaluateBody_mono:
  assumes "evaluateBody ev e n ps st = Some (r, st')"
    and ev: "\<And>t qs s r s'. ev t qs s = Some (r, s') \<Longrightarrow> ev' t qs s = Some (r, s')"
  shows "evaluateBody ev' e n ps st = Some (r, st')"
proof (cases "source (heap st ! n) \<noteq> None \<and>
    \<not> (webpackHMR st \<and> compilation (heap st ! n) = None \<and> isEntry (heap st ! n)
          \<and> hmrEnabled (heap st ! n) = HmrOff) \<and>
    \<not> (compilation (heap st ! n) \<noteq> None \<and> \<not> changed (heap st ! n))")
  case False
  then show ?thesis using assms(1) by (auto simp: evaluateBody_def split: option.splits)
next
  case True
  then obtain src where src: "source (heap st ! n) = Some src" by auto
  let ?req = "requireFn ev e n (module (heap st ! n)) ps"
  let ?req' = "requireFn ev' e n (module (heap st ! n)) ps"
  obtain r2 st2 where ev2: "evaluator ?req e n (parseUnit e (compiledCode src)) (initCompilation n st) = Some (r2, st2)"
    using assms(1) True src by (auto simp: evaluateBody_def split: option.splits)
  have "evaluator ?req' e n (parseUnit e (compiledCode src)) (initCompilation n st) = Some (r2, st2)"
    using ev2 by (rule evaluator_mono) (erule requireFn_mono, rule ev)
  then show ?thesis using assms(1) True src ev2 by (auto simp: evaluateBody_def split: option.splits)
qed

lemma evaluate_Suc:
  "evaluate k e n ps st = Some (r, st') \<Longrightarrow> evaluate (Suc k) e n ps st = Some (r, st')"
proof (induction k arbitrary: n ps st r st')
  case 0
  then show ?case by simp
next
  case (Suc k)
  from Suc.prems have "evaluateBody (evaluate k e) e n ps st = Some (r, st')" by simp
  then have "evaluateBody (evaluate (Suc k) e) e n ps st = Some (r, st')"
    by (rule evaluateBody_mono) (rule Suc.IH)
  then show ?case by simp
qed

lemma evaluate_mono:
  assumes "k \<le> k'" "evaluate k e n ps st = Some (r, st')"
  shows "evaluate k' e n ps st = Some (r, st')"
  using assms
proof (induction rule: dec_induct)
  case base
  then show ?case .
next
  case (step m)
  then show ?case by (simp only: evaluate_Suc)
qed

lemma finite_unevaluated: "finite (unevaluated h)"
  by (simp add: unevaluated_def)

lemma ev_frameD:
  assumes "ev_frame h h'"
  shows "length h \<le> length h'"
    and "\<And>m. m < length h \<Longrightarrow> ev_node (h ! m) (h' ! m)"
    and "\<And>m. m < length h' \<Longrightarrow> length h \<le> m \<Longrightarrow> ev_new (h' ! m)"
  using assms by (simp_all add: ev_frame_def frame_def)

lemma unevaluated_frame:
  assumes "ev_frame h h'"
  shows "unevaluated h' \<subseteq> unevaluated h"
proof
  fix m assume m: "m \<in> unevaluated h'"
  then have a: "m < length h'" "source (h' ! m) \<noteq> None" "compilation (h' ! m) = None"
    by (simp_all add: unevaluated_def)
  have "m < length h"
  proof (rule ccontr)
    assume "\<not> m < length h"
    then have "ev_new (h' ! m)" using ev_frameD(3)[OF assms, of m] a(1) by simp
    then show False using a(2) by (simp add: ev_new_def)
  qed
  then show "m \<in> unevaluated h"
    using ev_frameD(2)[OF assms, of m] a by (auto simp: unevaluated_def ev_node_def)
qed

lemma unchanged_frame:
  assumes "ev_frame h h'" "unchanged_all h"
  shows "unchanged_all h'"
  unfolding unchanged_all_def
proof (intro allI impI)
  fix m assume m: "m < length h'"
  show "\<not> changed (h' ! m)"
  proof (cases "m < length h")
    case True
    then show ?thesis using ev_frameD(2)[OF assms(1), of m] assms(2)
      by (simp add: ev_node_def unchanged_all_def)
  next
    case False
    then show ?thesis using ev_frameD(3)[OF assms(1), of m] m by (simp add: ev_new_def)
  qed
qed

lemma settled_frame: "ev_frame (heap st) (heap st') \<Longrightarrow> settled N st \<Longrightarrow> settled N st'"
  unfolding settled_def
  by (meson card_mono finite_unevaluated le_trans unevaluated_frame unchanged_frame)

lemma settled_rel: "ev_rel st st' \<Longrightarrow> settled N st \<Longrightarrow> settled N st'"
  by (rule settled_frame) (rule ev_relD(1))

lemma require_fuel_mono:
  "k \<le> k' \<Longrightarrow> requireFn (evaluate k e) e n lm ps p st = Some (r, st')
    \<Longrightarrow> requireFn (evaluate k' e) e n lm ps p st = Some (r, st')"
  by (erule requireFn_mono) (rule evaluate_mono)

lemma evaluator_fuel_mono:
  "k \<le> k' \<Longrightarrow> evaluator (requireFn (evaluate k e) e n lm ps) e n ss st = Some (r, st')
    \<Longrightarrow> evaluator (requireFn (evaluate k' e) e n lm ps) e n ss st = Some (r, st')"
  by (erule evaluator_mono) (rule require_fuel_mono)

lemma ev_rel_require_fuel:
  "requireFn (evaluate k e) e n lm ps p st = Some (r, st') \<Longrightarrow> ev_rel st st'"
  by (rule ev_rel_require[where ev = "evaluate k e"]) (auto intro: ev_rel_evaluate)

lemma require_terminates:
  assumes IH: "\<And>st t ps. settled N st \<Longrightarrow> t < length (heap st)
                 \<Longrightarrow> \<exists>k r st'. evaluate k e t ps st = Some (r, st')"
    and P: "settled N st"
  shows "\<exists>k r st'. requireFn (evaluate k e) e n lm ps p st = Some (r, st')"
proof (cases "bareSpecifier (getAliasedPath e p) \<and>
         (startsWith ''babel-runtime'' (getAliasedPath e p) \<or> startsWith ''codesandbox-api'' (getAliasedPath e p))")
  case True
  then show ?thesis by (auto simp: requireFn_def)
next
  case False
  obtain r1 h1 where res: "resolveTranspiledModule e (getAliasedPath e p) (path lm) (heap st) = (r1, h1)"
    by (cases "resolveTranspiledModule e (getAliasedPath e p) (path lm) (heap st)")
  have P1: "settled N (st\<lparr>heap := h1\<rparr>)"
    using ev_frame_resolve[OF res] P by (auto intro: settled_frame)
  show ?thesis
  proof (cases r1)
    case (Inl err)
    then show ?thesis using False res by (auto simp: requireFn_def Let_def)
  next
    case (Inr t)
    show ?thesis
    proof (cases "lm = module (h1 ! t)")
      case True
      then show ?thesis using False res Inr by (auto simp: requireFn_def Let_def)
    next
      case neq: False
      have "t < length (heap (st\<lparr>heap := h1\<rparr>))" using ev_frame_resolve[OF res] Inr by simp
      from IH[OF P1 this, of "ps @ [n]"] obtain k r st'
        where "evaluate k e t (ps @ [n]) (st\<lparr>heap := h1\<rparr>) = Some (r, st')" by blast
      then have "requireFn (evaluate k e) e n lm ps p st = Some (r, st')"
        using False res Inr neq by (auto simp: requireFn_def Let_def)
      then show ?thesis by blast
    qed
  qed
qed

lemma evaluator_terminates:
  assumes IH: "\<And>st t ps. settled N st \<Longrightarrow> t < length (heap st)
                 \<Longrightarrow> \<exists>k r st'. evaluate k e t ps st = Some (r, st')"
  shows "settled N st
    \<Longrightarrow> \<exists>k r st'. evaluator (requireFn (evaluate k e) e n lm ps) e n ss st = Some (r, st')"
proof (induction ss arbitrary: st)
  case Nil
  then show ?case by simp
next
  case (Cons s ss)
  note P = Cons.prems
  have after_require: "\<exists>k r st'. evaluator (requireFn (evaluate k e) e n lm ps) e n (s # ss) st = Some (r, st')"
    if s: "\<And>req. evaluator req e n (s # ss) st =
              (case req p st of None \<Rightarrow> None
               | Some (Inl err, st1) \<Rightarrow> Some (Some err, st1)
               | Some (Inr ex, st1) \<Rightarrow> evaluator req e n ss (st1\<lparr>heap := g ex (heap st1)\<rparr>))"
      and g: "\<And>ex h. ev_frame h (g ex h)"
    for p g
  proof -
    from require_terminates[OF IH P] obtain k1 r1 st1
      where r1: "requireFn (evaluate k1 e) e n lm ps p st = Some (r1, st1)" by blast
    have P1: "settled N st1" using ev_rel_require_fuel[OF r1] P by (rule settled_rel)
    show ?thesis
    proof (cases r1)
      case (Inl err)
      then have "evaluator (requireFn (evaluate k1 e) e n lm ps) e n (s # ss) st = Some (Some err, st1)"
        using r1 by (simp add: s)
      then show ?thesis by blast
    next
      case (Inr ex)
      have "settled N (st1\<lparr>heap := g ex (heap st1)\<rparr>)"
        using g[of "heap st1" ex] P1 by (auto intro: settled_frame)
      from Cons.IH[OF this] obtain k2 r2 st2
        where r2: "evaluator (requireFn (evaluate k2 e) e n lm ps) e n ss
                     (st1\<lparr>heap := g ex (heap st1)\<rparr>) = Some (r2, st2)" by blast
      have "requireFn (evaluate (max k1 k2) e) e n lm ps p st = Some (r1, st1)"
        using r1 by (rule require_fuel_mono[rotated]) simp
      moreover have "evaluator (requireFn (evaluate (max k1 k2) e) e n lm ps) e n ss
                     (st1\<lparr>heap := g ex (heap st1)\<rparr>) = Some (r2, st2)"
        using r2 by (rule evaluator_fuel_mono[rotated]) simp
      ultimately have "evaluator (requireFn (evaluate (max k1 k2) e) e n lm ps) e n (s # ss) st
                         = Some (r2, st2)"
        using Inr by (simp add: s)
      then show ?thesis by blast
    qed
  qed
  show ?case
  proof (cases s)
    case (ExportsSet key ex)
    show ?thesis
    proof (cases ex)
      case (Lit v)
      have "settled N (st\<lparr>heap := setExport n key v (heap st)\<rparr>)"
        using ev_frame_setExport[of "heap st" n key v] P by (auto intro: settled_frame)
      from Cons.IH[OF this] show ?thesis using ExportsSet Lit by simp
    next
      case (RequireProp p f)
      show ?thesis
        by (rule after_require[where p = p and g = "\<lambda>ex. setExport n key (getProp ex f)"])
           (simp_all add: ExportsSet RequireProp ev_frame_setExport)
    qed
  next
    case (RequireStmt p)
    show ?thesis
      by (rule after_require[where p = p and g = "\<lambda>ex h. h"])
         (auto simp: RequireStmt ev_frame_refl split: option.splits prod.splits sum.splits)
  next
    case (ThrowStmt msg)
    then show ?thesis by simp
  next
    case (HotAccept p cb)
    obtain r1 st1 where h: "hotAccept e n p cb st = (r1, st1)" by (cases "hotAccept e n p cb st")
    have P1: "settled N st1" using ev_frame_hotAccept[OF h] P by (rule settled_frame)
    show ?thesis
    proof (cases r1)
      case None
      from Cons.IH[OF P1] show ?thesis using HotAccept h None by simp
    next
      case (Some err)
      then show ?thesis using HotAccept h by simp
    qed
  qed
qed

lemma evaluate_terminates_settled:
  "unchanged_all (heap st) \<Longrightarrow> n < length (heap st) \<Longrightarrow> \<exists>k r st'. evaluate k e n ps st = Some (r, st')"
proof (induction "card (unevaluated (heap st))" arbitrary: st n ps rule: less_induct)
  case less
  show ?case
  proof (cases "source (heap st ! n) \<noteq> None \<and>
      \<not> (webpackHMR st \<and> compilation (heap st ! n) = None \<and> isEntry (heap st ! n)
            \<and> hmrEnabled (heap st ! n) = HmrOff) \<and>
      \<not> (compilation (heap st ! n) \<noteq> None \<and> \<not> changed (heap st ! n))")
    case False
    then have "\<exists>r st'. evaluate (Suc 0) e n ps st = Some (r, st')"
      by (auto simp: evaluateBody_def split: option.splits)
    then show ?thesis by blast
  next
    case True
    then obtain src where src: "source (heap st ! n) = Some src" by auto
    have nc: "compilation (heap st ! n) = None"
      using True less.prems by (auto simp: unchanged_all_def)
    let ?st1 = "initCompilation n st"
    have h1: "heap ?st1 = upd n (\<lambda>x. x\<lparr>compilation := Some \<lparr>exports = []\<rparr>\<rparr>) (heap st)"
      using nc by (simp add: initCompilation_def)
    have fr: "ev_frame (heap st) (heap ?st1)" using src by (simp add: ev_frame_initCompilation)
    have "n \<in> unevaluated (heap st)" using src nc less.prems(2) by (simp add: unevaluated_def)
    moreover have "n \<notin> unevaluated (heap ?st1)"
      using less.prems(2) by (simp add: h1 unevaluated_def nth_upd)
    ultimately have "unevaluated (heap ?st1) \<subset> unevaluated (heap st)"
      using unevaluated_frame[OF fr] by blast
    then have lt: "card (unevaluated (heap ?st1)) < card (unevaluated (heap st))"
      by (simp add: psubset_card_mono finite_unevaluated)
    have P1: "settled (card (unevaluated (heap ?st1))) ?st1"
      using unchanged_frame[OF fr less.prems(1)] by (simp add: settled_def)
    have IH: "\<And>s t qs. settled (card (unevaluated (heap ?st1))) s \<Longrightarrow> t < length (heap s)
                 \<Longrightarrow> \<exists>k r s'. evaluate k e t qs s = Some (r, s')"
      using less.hyps lt by (simp add: settled_def)
    from evaluator_terminates[where N = "card (unevaluated (heap ?st1))", OF IH P1]
    obtain k r2 st2 where
      "evaluator (requireFn (evaluate k e) e n (module (heap st ! n)) ps) e n
         (parseUnit e (compiledCode src)) ?st1 = Some (r2, st2)" by blast
    then have "\<exists>r st'. evaluate (Suc k) e n ps st = Some (r, st')"
      using True src by (cases r2) (auto simp: evaluateBody_def)
    then show ?thesis by blast
  qed
qed

section \<open>Properties of the links and of transpile\<close>

lemma pair_symI:
  assumes "\<And>a b. a < length h \<Longrightarrow> b \<in> set (out (h ! a)) \<Longrightarrow> b < length h \<and> a \<in> set (inn (h ! b))"
    and "\<And>a b. b < length h \<Longrightarrow> a \<in> set (inn (h ! b)) \<Longrightarrow> a < length h \<and> b \<in> set (out (h ! a))"
  shows "pair_sym out inn h"
  unfolding pair_sym_def using assms by blast

lemma pair_symD1:
  "pair_sym out inn h \<Longrightarrow> a < length h \<Longrightarrow> b \<in> set (out (h ! a)) \<Longrightarrow> b < length h \<and> a \<in> set (inn (h ! b))"
  unfolding pair_sym_def by blast

lemma pair_symD2:
  "pair_sym out inn h \<Longrightarrow> b < length h \<Longrightarrow> a \<in> set (inn (h ! b)) \<Longrightarrow> a < length h \<and> b \<in> set (out (h ! a))"
  unfolding pair_sym_def by blast

lemma pair_sym_same:
  assumes ps: "pair_sym out inn h" and len: "length h \<le> length h'"
    and old: "\<And>m. m < length h \<Longrightarrow> out (h' ! m) = out (h ! m) \<and> inn (h' ! m) = inn (h ! m)"
    and new: "\<And>m. m < length h' \<Longrightarrow> length h \<le> m \<Longrightarrow> out (h' ! m) = [] \<and> inn (h' ! m) = []"
  shows "pair_sym out inn h'"
proof (rule pair_symI)
  fix a b assume a: "a < length h'" "b \<in> set (out (h' ! a))"
  have al: "a < length h"
  proof (rule ccontr)
    assume "\<not> a < length h"
    then have "out (h' ! a) = []" using new[of a] a(1) by simp
    then show False using a(2) by simp
  qed
  have "b \<in> set (out (h ! a))" using a(2) old[OF al] by simp
  from pair_symD1[OF ps al this] have b: "b < length h" "a \<in> set (inn (h ! b))" by simp_all
  show "b < length h' \<and> a \<in> set (inn (h' ! b))"
    using b len old[OF b(1)] by simp
next
  fix a b assume b: "b < length h'" "a \<in> set (inn (h' ! b))"
  have bl: "b < length h"
  proof (rule ccontr)
    assume "\<not> b < length h"
    then have "inn (h' ! b) = []" using new[of b] b(1) by simp
    then show False using b(2) by simp
  qed
  have "a \<in> set (inn (h ! b))" using b(2) old[OF bl] by simp
  from pair_symD2[OF ps bl this] have a: "a < length h" "b \<in> set (out (h ! a))" by simp_all
  show "a < length h' \<and> b \<in> set (out (h' ! a))"
    using a len old[OF a(1)] by simp
qed

lemma pair_sym_add:
  assumes ps: "pair_sym out inn h" and len: "length h' = length h" and n: "n < length h" and t: "t < length h"
    and o: "\<And>m. m < length h \<Longrightarrow> set (out (h' ! m)) = (if m = n then insert t (set (out (h ! m))) else set (out (h ! m)))"
    and i: "\<And>m. m < length h \<Longrightarrow> set (inn (h' ! m)) = (if m = t then insert n (set (inn (h ! m))) else set (inn (h ! m)))"
  shows "pair_sym out inn h'"
proof (rule pair_symI)
  fix a b assume a: "a < length h'" "b \<in> set (out (h' ! a))"
  then have al: "a < length h" by (simp add: len)
  show "b < length h' \<and> a \<in> set (inn (h' ! b))"
  proof (cases "a = n \<and> b = t")
    case True
    then show ?thesis using t n by (simp add: len i)
  next
    case False
    then have "b \<in> set (out (h ! a))" using a(2) al by (auto simp: o split: if_splits)
    from pair_symD1[OF ps al this] show ?thesis by (auto simp: len i)
  qed
next
  fix a b assume b: "b < length h'" "a \<in> set (inn (h' ! b))"
  then have bl: "b < length h" by (simp add: len)
  show "a < length h' \<and> b \<in> set (out (h' ! a))"
  proof (cases "a = n \<and> b = t")
    case True
    then show ?thesis using t n by (simp add: len o)
  next
    case False
    then have "a \<in> set (inn (h ! b))" using b(2) bl by (auto simp: i split: if_splits)
    from pair_symD2[OF ps bl this] show ?thesis by (auto simp: len o)
  qed
qed

lemma pair_sym_clear:
  assumes ps: "pair_sym out inn h" and len: "length h' = length h" and n: "n < length h"
    and o: "\<And>m. m < length h \<Longrightarrow> set (out (h' ! m)) = (if m = n then {} else set (out (h ! m)))"
    and i: "\<And>m. m < length h \<Longrightarrow> set (inn (h' ! m)) = set (inn (h ! m)) - {n}"
  shows "pair_sym out inn h'"
proof (rule pair_symI)
  fix a b assume a: "a < length h'" "b \<in> set (out (h' ! a))"
  then have al: "a < length h" by (simp add: len)
  have an: "a \<noteq> n" using a(2) al by (auto simp: o)
  then have "b \<in> set (out (h ! a))" using a(2) al by (simp add: o)
  from pair_symD1[OF ps al this] an show "b < length h' \<and> a \<in> set (inn (h' ! b))"
    by (simp add: len i)
next
  fix a b assume b: "b < length h'" "a \<in> set (inn (h' ! b))"
  then have bl: "b < length h" by (simp add: len)
  have an: "a \<noteq> n" "a \<in> set (inn (h ! b))" using b(2) bl by (auto simp: i)
  from pair_symD2[OF ps bl an(2)] an(1) show "a < length h' \<and> b \<in> set (out (h' ! a))"
    by (simp add: len o)
qed

lemma nth_delete_initiator:
  "delete_initiator n d h ! m =
     (if m = d \<and> d < length h then (h ! m)\<lparr>initiators := removeAll n (initiators (h ! m))\<rparr> else h ! m)"
  by (simp add: delete_initiator_def nth_upd set_delete_def)

lemma length_delete_initiator [simp]: "length (delete_initiator n d h) = length h"
  by (simp add: delete_initiator_def)

lemma fold_delete_initiator:
  "length (fold (delete_initiator n) ds h) = length h \<and>
   fold (delete_initiator n) ds h ! m =
     (if m \<in> set ds \<and> m < length h then (h ! m)\<lparr>initiators := removeAll n (initiators (h ! m))\<rparr>
      else h ! m)"
proof (induction ds arbitrary: h)
  case Nil
  then show ?case by simp
next
  case (Cons d ds)
  show ?case
    using Cons.IH[of "delete_initiator n d h"]
    by (auto simp: nth_delete_initiator)
qed

lemma frameD:
  assumes "frame R N h h'"
  shows "length h \<le> length h'"
    and "\<And>m. m < length h \<Longrightarrow> R (h ! m) (h' ! m)"
    and "\<And>m. m < length h' \<Longrightarrow> length h \<le> m \<Longrightarrow> N (h' ! m)"
  using assms by (simp_all add: frame_def)

lemma frame_mono:
  "frame R N h h' \<Longrightarrow> (\<And>x y. R x y \<Longrightarrow> R' x y) \<Longrightarrow> (\<And>y. N y \<Longrightarrow> N' y) \<Longrightarrow> frame R' N' h h'"
  by (simp add: frame_def)

lemma promise_ok_mono: "promise_ok h p \<Longrightarrow> length h \<le> length h' \<Longrightarrow> promise_ok h' p"
  by (auto simp: promise_ok_def split: promise.splits)

lemma node_refs_ok_mono: "node_refs_ok h x \<Longrightarrow> length h \<le> length h' \<Longrightarrow> node_refs_ok h' x"
  unfolding node_refs_ok_def by (meson promise_ok_mono less_le_trans)

lemma node_refs_ok_links:
  "node_refs_ok h x \<Longrightarrow> same_links x y \<Longrightarrow> node_refs_ok h y"
  by (simp add: node_refs_ok_def same_links_def)

lemma node_refs_ok_no_links: "no_links y \<Longrightarrow> node_refs_ok h y"
  by (simp add: node_refs_ok_def no_links_def)

lemma refs_okD: "refs_ok h \<Longrightarrow> m < length h \<Longrightarrow> node_refs_ok h (h ! m)"
  by (simp add: refs_ok_def)

lemma refs_ok_step:
  assumes "refs_ok h" "length h \<le> length h'"
    and "\<And>m. m < length h \<Longrightarrow> node_refs_ok h (h ! m) \<Longrightarrow> node_refs_ok h' (h' ! m)"
    and "\<And>m. m < length h' \<Longrightarrow> length h \<le> m \<Longrightarrow> node_refs_ok h' (h' ! m)"
  shows "refs_ok h'"
  unfolding refs_ok_def
proof (intro allI impI)
  fix m assume "m < length h'"
  then show "node_refs_ok h' (h' ! m)"
    using assms(3)[of m] assms(4)[of m] refs_okD[OF assms(1), of m] by (cases "m < length h") auto
qed

lemma refs_ok_lk_frame:
  assumes "refs_ok h" "lk_frame h h'"
  shows "refs_ok h'"
proof -
  note f = frameD[OF assms(2)[unfolded lk_frame_def]]
  show ?thesis
  proof (rule refs_ok_step[OF assms(1) f(1)])
    fix m assume "m < length h" "node_refs_ok h (h ! m)"
    then show "node_refs_ok h' (h' ! m)"
      using f(1) f(2)[of m] by (blast intro: node_refs_ok_mono node_refs_ok_links)
  next
    fix m assume "m < length h'" "length h \<le> m"
    then show "node_refs_ok h' (h' ! m)" using f(3) by (simp add: node_refs_ok_no_links)
  qed
qed

lemma refs_ok_upd:
  assumes "refs_ok h" "n < length h \<Longrightarrow> node_refs_ok h (f (h ! n))"
  shows "refs_ok (upd n f h)"
proof (rule refs_ok_step[OF assms(1)])
  fix m assume m: "m < length h" "node_refs_ok h (h ! m)"
  have "node_refs_ok h (upd n f h ! m)" using m assms(2) by (simp add: nth_upd)
  then show "node_refs_ok (upd n f h) (upd n f h ! m)" by (rule node_refs_ok_mono) simp
qed simp_all

lemma refs_ok_fold_delete:
  assumes "refs_ok h"
  shows "refs_ok (fold (delete_initiator n) ds h)"
proof (rule refs_ok_step[OF assms])
  fix m assume m: "m < length h" "node_refs_ok h (h ! m)"
  have "node_refs_ok h (fold (delete_initiator n) ds h ! m)"
    using m by (auto simp: fold_delete_initiator node_refs_ok_def)
  then show "node_refs_ok (fold (delete_initiator n) ds h) (fold (delete_initiator n) ds h ! m)"
    by (rule node_refs_ok_mono) (simp add: fold_delete_initiator)
qed (simp_all add: fold_delete_initiator)

lemma edge_symmetry_lk_frame:
  assumes "edge_symmetry h" "lk_frame h h'"
  shows "edge_symmetry h'"
proof -
  note f = frameD[OF assms(2)[unfolded lk_frame_def]]
  have old: "\<And>m. m < length h \<Longrightarrow> same_links (h ! m) (h' ! m)" by (rule f(2))
  have new: "\<And>m. m < length h' \<Longrightarrow> length h \<le> m \<Longrightarrow> no_links (h' ! m)" by (rule f(3))
  have "pair_sym dependencies initiators h'"
    by (rule pair_sym_same[of _ _ h]) (use assms(1) f(1) old new in \<open>auto simp: edge_symmetry_def same_links_def no_links_def\<close>)
  moreover have "pair_sym transpilationDependencies transpilationInitiators h'"
    by (rule pair_sym_same[of _ _ h]) (use assms(1) f(1) old new in \<open>auto simp: edge_symmetry_def same_links_def no_links_def\<close>)
  ultimately show ?thesis by (simp add: edge_symmetry_def)
qed

lemma graph_ok_lk_frame: "graph_ok h \<Longrightarrow> lk_frame h h' \<Longrightarrow> graph_ok h'"
  by (auto simp: graph_ok_def intro: refs_ok_lk_frame edge_symmetry_lk_frame)

lemma node_refs_ok_edges:
  "node_refs_ok h x \<Longrightarrow> \<forall>r\<in>set ds. r < length h \<Longrightarrow>
     node_refs_ok h (x\<lparr>dependencies := ds\<rparr>) \<and> node_refs_ok h (x\<lparr>initiators := ds\<rparr>)
     \<and> node_refs_ok h (x\<lparr>transpilationDependencies := ds\<rparr>)
     \<and> node_refs_ok h (x\<lparr>transpilationInitiators := ds\<rparr>)
     \<and> node_refs_ok h (x\<lparr>childModules := ds\<rparr>)"
  by (auto simp: node_refs_ok_def)

lemma node_refs_ok_async:
  "node_refs_ok h x \<Longrightarrow> \<forall>p\<in>set ps. promise_ok h p \<Longrightarrow> node_refs_ok h (x\<lparr>asyncDependencies := ps\<rparr>)"
  by (simp add: node_refs_ok_def)

lemma node_refs_okD:
  assumes "node_refs_ok h x"
  shows "\<forall>r\<in>set (dependencies x). r < length h" "\<forall>r\<in>set (initiators x). r < length h"
    "\<forall>r\<in>set (transpilationDependencies x). r < length h"
    "\<forall>r\<in>set (transpilationInitiators x). r < length h"
    "\<forall>r\<in>set (childModules x). r < length h" "\<forall>p\<in>set (asyncDependencies x). promise_ok h p"
  using assms by (simp_all add: node_refs_ok_def)

lemma keep_node_refl: "keep_node x x" by (simp add: keep_node_def)
lemma keep_node_trans: "keep_node x y \<Longrightarrow> keep_node y z \<Longrightarrow> keep_node x z" by (simp add: keep_node_def)
lemma keep_new_node: "keep_new y \<Longrightarrow> keep_node y z \<Longrightarrow> keep_new z" by (simp add: keep_node_def keep_new_def)
lemma ok_node_refl: "ok_node x x" by (simp add: ok_node_def keep_node_def src_node_def)
lemma ok_node_trans: "ok_node x y \<Longrightarrow> ok_node y z \<Longrightarrow> ok_node x z"
  by (simp add: ok_node_def keep_node_def src_node_def)
lemma keep_new_ok_node: "keep_new y \<Longrightarrow> ok_node y z \<Longrightarrow> keep_new z"
  by (simp add: ok_node_def keep_node_def keep_new_def)
lemma keep_new_new: "keep_new (newTranspiledModule m q)"
  by (simp add: keep_new_def newTranspiledModule_def)
lemma no_links_new: "no_links (newTranspiledModule m q)"
  by (simp add: no_links_def newTranspiledModule_def)
lemma same_links_refl: "same_links x x" by (simp add: same_links_def)

lemma tr_frame_refl: "tr_frame h h"
  by (simp add: tr_frame_def frame_refl keep_node_refl)

lemma tr_frame_trans: "tr_frame h1 h2 \<Longrightarrow> tr_frame h2 h3 \<Longrightarrow> tr_frame h1 h3"
  unfolding tr_frame_def by (erule (1) frame_trans) (auto intro: keep_node_trans keep_new_node)

lemma ok_frame_refl: "ok_frame h h"
  by (simp add: ok_frame_def frame_refl ok_node_refl)

lemma ok_frame_trans: "ok_frame h1 h2 \<Longrightarrow> ok_frame h2 h3 \<Longrightarrow> ok_frame h1 h3"
  unfolding ok_frame_def by (erule (1) frame_trans) (auto intro: ok_node_trans keep_new_ok_node)

lemma ok_frame_tr_frame: "ok_frame h h' \<Longrightarrow> tr_frame h h'"
  unfolding ok_frame_def tr_frame_def by (erule frame_mono) (simp_all add: ok_node_def)

lemma tr_frame_length: "tr_frame h h' \<Longrightarrow> length h \<le> length h'"
  by (simp add: tr_frame_def frame_def)

lemma ok_frame_length: "ok_frame h h' \<Longrightarrow> length h \<le> length h'"
  by (simp add: ok_frame_def frame_def)

lemma noHmr_frame:
  assumes "tr_frame h h'" "noHmr h"
  shows "noHmr h'"
  unfolding noHmr_def
proof (intro allI impI)
  fix m assume m: "m < length h'"
  note f = frameD[OF assms(1)[unfolded tr_frame_def]]
  show "hmrEnabled (h' ! m) = HmrOff"
  proof (cases "m < length h")
    case True
    then show ?thesis using f(2)[of m] assms(2) by (simp add: keep_node_def noHmr_def)
  next
    case False
    then show ?thesis using f(3)[of m] m by (simp add: keep_new_def)
  qed
qed

lemma tr_ok_refl: "tr_ok h h" by (simp add: tr_ok_def ok_frame_refl)

lemma tr_ok_trans: "tr_ok h1 h2 \<Longrightarrow> tr_ok h2 h3 \<Longrightarrow> tr_ok h1 h3"
  unfolding tr_ok_def by (blast intro: ok_frame_trans)

lemma tr_any_refl: "tr_any h h" by (simp add: tr_any_def tr_frame_refl)

lemma tr_any_trans: "tr_any h1 h2 \<Longrightarrow> tr_any h2 h3 \<Longrightarrow> tr_any h1 h3"
  unfolding tr_any_def by (blast intro: tr_frame_trans noHmr_frame)

lemma tr_ok_any: "tr_ok h h' \<Longrightarrow> tr_any h h'"
  by (simp add: tr_ok_def tr_any_def ok_frame_tr_frame)

lemma tr_ok_length: "tr_ok h h' \<Longrightarrow> length h \<le> length h'"
  by (simp add: tr_ok_def ok_frame_length)

lemma tr_any_length: "tr_any h h' \<Longrightarrow> length h \<le> length h'"
  by (simp add: tr_any_def tr_frame_length)

lemma lk_frame_upd:
  "(n < length h \<Longrightarrow> same_links (h ! n) (f (h ! n))) \<Longrightarrow> lk_frame h (upd n f h)"
  unfolding lk_frame_def by (rule frame_upd) (auto simp: same_links_refl)

lemma ok_frame_upd:
  "(n < length h \<Longrightarrow> ok_node (h ! n) (f (h ! n))) \<Longrightarrow> ok_frame h (upd n f h)"
  unfolding ok_frame_def by (rule frame_upd) (auto simp: ok_node_refl)

lemma tr_frame_upd:
  "(n < length h \<Longrightarrow> keep_node (h ! n) (f (h ! n))) \<Longrightarrow> tr_frame h (upd n f h)"
  unfolding tr_frame_def by (rule frame_upd) (auto simp: keep_node_refl)

lemma tr_okI:
  "ok_frame h h' \<Longrightarrow> (refs_ok h \<Longrightarrow> refs_ok h') \<Longrightarrow> (graph_ok h \<Longrightarrow> edge_symmetry h')
    \<Longrightarrow> tr_ok h h'"
  by (auto simp: tr_ok_def graph_ok_def)

lemma tr_ok_lk: "ok_frame h h' \<Longrightarrow> lk_frame h h' \<Longrightarrow> tr_ok h h'"
  by (auto simp: tr_ok_def intro: refs_ok_lk_frame graph_ok_lk_frame)

lemma tr_ok_upd:
  assumes "n < length h \<Longrightarrow> ok_node (h ! n) (f (h ! n)) \<and> same_links (h ! n) (f (h ! n))"
  shows "tr_ok h (upd n f h)"
  by (rule tr_ok_lk) (use assms in \<open>auto intro: ok_frame_upd lk_frame_upd\<close>)

lemma tr_ok_alloc:
  assumes "addTranspiledModule m q h = (r, h')"
  shows "tr_ok h h' \<and> r < length h'"
proof -
  from frame_addTranspiledModule[OF assms, of ok_node keep_new]
  have a: "ok_frame h h' \<and> r < length h'" by (simp add: ok_frame_def ok_node_refl keep_new_new)
  from frame_addTranspiledModule[OF assms, of same_links no_links]
  have b: "lk_frame h h'" by (simp add: lk_frame_def same_links_refl no_links_new)
  show ?thesis using a b by (simp add: tr_ok_lk)
qed

lemma set_set_add [simp]: "set (set_add x xs) = insert x (set xs)"
  by (auto simp: set_add_def)

lemma edge_symmetry_add_dependency:
  assumes g: "edge_symmetry h" and n: "n < length h" and t: "t < length h"
  shows "edge_symmetry (add_dependency n t h)"
proof -
  let ?h = "add_dependency n t h"
  have "pair_sym dependencies initiators ?h"
    by (rule pair_sym_add[of _ _ h _ n t])
       (use g n t in \<open>auto simp: edge_symmetry_def add_dependency_def nth_upd\<close>)
  moreover have "pair_sym transpilationDependencies transpilationInitiators ?h"
    by (rule pair_sym_same[of _ _ h])
       (use g in \<open>auto simp: edge_symmetry_def add_dependency_def nth_upd\<close>)
  ultimately show ?thesis by (simp add: edge_symmetry_def)
qed

lemma edge_symmetry_add_transpilation_dependency:
  assumes g: "edge_symmetry h" and n: "n < length h" and t: "t < length h"
  shows "edge_symmetry (add_transpilation_dependency n t h)"
proof -
  let ?h = "add_transpilation_dependency n t h"
  have "pair_sym transpilationDependencies transpilationInitiators ?h"
    by (rule pair_sym_add[of _ _ h _ n t])
       (use g n t in \<open>auto simp: edge_symmetry_def add_transpilation_dependency_def nth_upd\<close>)
  moreover have "pair_sym dependencies initiators ?h"
    by (rule pair_sym_same[of _ _ h])
       (use g in \<open>auto simp: edge_symmetry_def add_transpilation_dependency_def nth_upd\<close>)
  ultimately show ?thesis by (simp add: edge_symmetry_def)
qed

lemma refs_ok_add_dependency:
  assumes r: "refs_ok h" and n: "n < length h" and t: "t < length h"
  shows "refs_ok (add_dependency n t h)"
proof -
  let ?h1 = "upd n (\<lambda>x. x\<lparr>dependencies := set_add t (dependencies x)\<rparr>) h"
  have r1: "refs_ok ?h1"
    by (rule refs_ok_upd[OF r])
       (use refs_okD[OF r n] t node_refs_okD(1)[of h "h ! n"] in \<open>simp add: node_refs_ok_edges\<close>)
  have t1: "t < length ?h1" using t by simp
  have "refs_ok (upd t (\<lambda>x. x\<lparr>initiators := set_add n (initiators x)\<rparr>) ?h1)"
    by (rule refs_ok_upd[OF r1])
       (use refs_okD[OF r1 t1] n node_refs_okD(2)[of ?h1 "?h1 ! t"] in \<open>simp add: node_refs_ok_edges\<close>)
  then show ?thesis by (simp add: add_dependency_def)
qed

lemma refs_ok_add_transpilation_dependency:
  assumes r: "refs_ok h" and n: "n < length h" and t: "t < length h"
  shows "refs_ok (add_transpilation_dependency n t h)"
proof -
  let ?h1 = "upd n (\<lambda>x. x\<lparr>transpilationDependencies := set_add t (transpilationDependencies x)\<rparr>) h"
  have r1: "refs_ok ?h1"
    by (rule refs_ok_upd[OF r])
       (use refs_okD[OF r n] t node_refs_okD(3)[of h "h ! n"] in \<open>simp add: node_refs_ok_edges\<close>)
  have t1: "t < length ?h1" using t by simp
  have "refs_ok (upd t (\<lambda>x. x\<lparr>transpilationInitiators := set_add n (transpilationInitiators x)\<rparr>) ?h1)"
    by (rule refs_ok_upd[OF r1])
       (use refs_okD[OF r1 t1] n node_refs_okD(4)[of ?h1 "?h1 ! t"] in \<open>simp add: node_refs_ok_edges\<close>)
  then show ?thesis by (simp add: add_transpilation_dependency_def)
qed

lemma ok_frame_add_dependency: "ok_frame h (add_dependency n t h)"
  unfolding add_dependency_def
  by (rule ok_frame_trans[OF ok_frame_upd ok_frame_upd])
     (simp_all add: ok_node_def keep_node_def src_node_def)

lemma ok_frame_add_transpilation_dependency: "ok_frame h (add_transpilation_dependency n t h)"
  unfolding add_transpilation_dependency_def
  by (rule ok_frame_trans[OF ok_frame_upd ok_frame_upd])
     (simp_all add: ok_node_def keep_node_def src_node_def)

lemma tr_ok_add_dependency: "n < length h \<Longrightarrow> t < length h \<Longrightarrow> tr_ok h (add_dependency n t h)"
  by (rule tr_okI)
     (simp_all add: ok_frame_add_dependency refs_ok_add_dependency edge_symmetry_add_dependency graph_ok_def)

lemma tr_ok_add_transpilation_dependency:
  "n < length h \<Longrightarrow> t < length h \<Longrightarrow> tr_ok h (add_transpilation_dependency n t h)"
  by (rule tr_okI)
     (simp_all add: ok_frame_add_transpilation_dependency refs_ok_add_transpilation_dependency
        edge_symmetry_add_transpilation_dependency graph_ok_def)

lemma forEachM_inv:
  "forEachM f xs s = Some s' \<Longrightarrow> I s
    \<Longrightarrow> (\<And>x s s'. x \<in> set xs \<Longrightarrow> I s \<Longrightarrow> f x s = Some s' \<Longrightarrow> I s') \<Longrightarrow> I s'"
proof (induction xs arbitrary: s)
  case Nil
  then show ?case by simp
next
  case (Cons x xs)
  then obtain s1 where s1: "f x s = Some s1" "forEachM f xs s1 = Some s'"
    by (auto split: option.splits)
  have "I s1" using Cons.prems(3)[of x s s1] Cons.prems(2) s1(1) by simp
  show ?case
    by (rule Cons.IH[OF s1(2) \<open>I s1\<close>]) (rule Cons.prems(3), simp_all)
qed

lemma ok_frame_fold_delete: "ok_frame h (fold (delete_initiator n) ds h)"
  unfolding ok_frame_def frame_def
  by (simp add: fold_delete_initiator ok_node_def keep_node_def src_node_def)

lemma edge_symmetry_clear:
  assumes g: "edge_symmetry h" and n: "n < length h"
    and len: "length h' = length h"
    and dn: "dependencies (h' ! n) = []"
    and d: "\<And>m. m < length h \<Longrightarrow> m \<noteq> n \<Longrightarrow> dependencies (h' ! m) = dependencies (h ! m)"
    and i: "\<And>m. m < length h \<Longrightarrow> initiators (h' ! m) =
              (if m \<in> set (dependencies (h ! n)) then removeAll n (initiators (h ! m)) else initiators (h ! m))"
    and td: "\<And>m. m < length h \<Longrightarrow> transpilationDependencies (h' ! m) = transpilationDependencies (h ! m)
               \<and> transpilationInitiators (h' ! m) = transpilationInitiators (h ! m)"
  shows "edge_symmetry h'"
proof -
  from g have ps: "pair_sym dependencies initiators h"
    and pt: "pair_sym transpilationDependencies transpilationInitiators h"
    by (simp_all add: edge_symmetry_def)
  have "pair_sym dependencies initiators h'"
  proof (rule pair_sym_clear[OF ps len n])
    fix m assume m: "m < length h"
    show "set (dependencies (h' ! m)) = (if m = n then {} else set (dependencies (h ! m)))"
      using dn d[OF m] by simp
    show "set (initiators (h' ! m)) = set (initiators (h ! m)) - {n}"
    proof (cases "m \<in> set (dependencies (h ! n))")
      case True
      then show ?thesis using i[OF m] by auto
    next
      case False
      then have "n \<notin> set (initiators (h ! m))" using pair_symD2[OF ps m, of n] by auto
      then show ?thesis using i[OF m] False by auto
    qed
  qed
  moreover have "pair_sym transpilationDependencies transpilationInitiators h'"
    by (rule pair_sym_same[OF pt]) (use len td in auto)
  ultimately show ?thesis by (simp add: edge_symmetry_def)
qed

lemma node_refs_ok_cleared:
  "node_refs_ok h x \<Longrightarrow>
     node_refs_ok h (x\<lparr>dependencies := [], errors := e, warnings := w\<rparr>)
     \<and> node_refs_ok h (x\<lparr>source := s, errors := e, warnings := w\<rparr>)
     \<and> node_refs_ok h (x\<lparr>dependencies := [], asyncDependencies := []\<rparr>)"
  by (auto simp: node_refs_ok_def)

lemma length_clearDependencies [simp]: "length (clearDependencies n h) = length h"
  by (simp add: clearDependencies_def fold_delete_initiator)

lemma tr_ok_clearDependencies:
  assumes n: "n < length h"
  shows "tr_ok h (clearDependencies n h)"
proof (rule tr_okI)
  show "ok_frame h (clearDependencies n h)"
    unfolding clearDependencies_def
    by (rule ok_frame_trans[OF ok_frame_fold_delete ok_frame_upd])
       (simp add: ok_node_def keep_node_def src_node_def)
next
  assume r: "refs_ok h"
  let ?h1 = "fold (delete_initiator n) (dependencies (h ! n)) h"
  have r1: "refs_ok ?h1" using r by (rule refs_ok_fold_delete)
  show "refs_ok (clearDependencies n h)"
    unfolding clearDependencies_def
    by (rule refs_ok_upd[OF r1]) (use refs_okD[OF r1, of n] in \<open>simp add: node_refs_ok_cleared\<close>)
next
  assume g: "graph_ok h"
  show "edge_symmetry (clearDependencies n h)"
    by (rule edge_symmetry_clear[of h n])
       (use n g in \<open>auto simp: graph_ok_def clearDependencies_def nth_upd fold_delete_initiator\<close>)
qed

lemma length_forgetTranspilation [simp]: "length (forgetTranspilation n h) = length h"
  by (simp add: forgetTranspilation_def Let_def fold_delete_initiator)

lemma tr_frame_forgetTranspilation: "tr_frame h (forgetTranspilation n h)"
proof -
  let ?h2 = "upd n (\<lambda>x. x\<lparr>source := None, errors := [], warnings := []\<rparr>) h"
  let ?h3 = "if hmrEnabled (?h2 ! n) = HmrOff
             then fold (delete_initiator n) (dependencies (?h2 ! n)) ?h2 else ?h2"
  have a: "tr_frame h ?h2" by (rule tr_frame_upd) (simp add: keep_node_def)
  have b: "tr_frame ?h2 ?h3"
    using ok_frame_tr_frame[OF ok_frame_fold_delete] by (simp add: tr_frame_refl)
  have c: "tr_frame ?h3 (upd n (\<lambda>x. x\<lparr>dependencies := [], asyncDependencies := []\<rparr>) ?h3)"
    by (rule tr_frame_upd) (simp add: keep_node_def)
  show ?thesis unfolding forgetTranspilation_def Let_def
    using a b c by (blast intro: tr_frame_trans)
qed

lemma forgetTranspilation_node:
  assumes "n < length h"
  shows "source (forgetTranspilation n h ! n) = None \<and> errors (forgetTranspilation n h ! n) = []
    \<and> warnings (forgetTranspilation n h ! n) = [] \<and> dependencies (forgetTranspilation n h ! n) = []
    \<and> asyncDependencies (forgetTranspilation n h ! n) = []
    \<and> compilation (forgetTranspilation n h ! n) = compilation (h ! n)"
  using assms by (simp add: forgetTranspilation_def Let_def nth_upd fold_delete_initiator)

lemma forgetTranspilation_hmr:
  "hmrEnabled (h ! n) \<noteq> HmrOff \<Longrightarrow> forgetTranspilation n h =
     upd n (\<lambda>x. x\<lparr>dependencies := [], asyncDependencies := []\<rparr>)
       (upd n (\<lambda>x. x\<lparr>source := None, errors := [], warnings := []\<rparr>) h)"
  by (simp add: forgetTranspilation_def Let_def nth_upd)

lemma edge_symmetry_forgetTranspilation:
  assumes g: "edge_symmetry h" and n: "n < length h" and off: "hmrEnabled (h ! n) = HmrOff"
  shows "edge_symmetry (forgetTranspilation n h)"
  by (rule edge_symmetry_clear[OF g n])
     (use n off in \<open>auto simp: forgetTranspilation_def Let_def nth_upd fold_delete_initiator\<close>)

lemma refs_ok_forgetTranspilation:
  assumes r: "refs_ok h"
  shows "refs_ok (forgetTranspilation n h)"
proof -
  let ?h2 = "upd n (\<lambda>x. x\<lparr>source := None, errors := [], warnings := []\<rparr>) h"
  let ?h3 = "if hmrEnabled (?h2 ! n) = HmrOff
             then fold (delete_initiator n) (dependencies (?h2 ! n)) ?h2 else ?h2"
  have r2: "refs_ok ?h2"
    by (rule refs_ok_upd[OF r]) (use refs_okD[OF r, of n] in \<open>simp add: node_refs_ok_cleared\<close>)
  have r3: "refs_ok ?h3" using r2 by (simp add: refs_ok_fold_delete)
  have "refs_ok (upd n (\<lambda>x. x\<lparr>dependencies := [], asyncDependencies := []\<rparr>) ?h3)"
    by (rule refs_ok_upd[OF r3]) (use refs_okD[OF r3, of n] in \<open>simp add: node_refs_ok_cleared\<close>)
  then show ?thesis by (simp add: forgetTranspilation_def Let_def)
qed

lemma resetTranspilation_frame:
  "resetTranspilation k n h = Some h' \<Longrightarrow> tr_frame h h' \<and> length h' = length h"
proof (induction k arbitrary: n h h')
  case 0
  then show ?case by simp
next
  case (Suc k)
  let ?xs = "filter (\<lambda>t. source (h ! t) \<noteq> None) (transpilationInitiators (h ! n))"
  obtain h1 where h1: "(if hmrEnabled (h ! n) = HmrOff then forEachM (resetTranspilation k) ?xs h else Some h) = Some h1"
    and h': "h' = forgetTranspilation n h1"
    using Suc.prems by (auto split: option.splits)
  have "tr_frame h h1 \<and> length h1 = length h"
  proof (cases "hmrEnabled (h ! n) = HmrOff")
    case True
    then have fe: "forEachM (resetTranspilation k) ?xs h = Some h1" using h1 by simp
    show ?thesis
      by (rule forEachM_inv[OF fe, where I = "\<lambda>s. tr_frame h s \<and> length s = length h"])
         (auto simp: tr_frame_refl dest!: Suc.IH intro: tr_frame_trans)
  next
    case False
    then show ?thesis using h1 by (simp add: tr_frame_refl)
  qed
  then show ?case using tr_frame_forgetTranspilation[of h1 n] by (auto simp: h' intro: tr_frame_trans)
qed

lemma resetTranspilation_node:
  assumes "resetTranspilation k n h = Some h'" "n < length h"
  shows "source (h' ! n) = None \<and> errors (h' ! n) = [] \<and> warnings (h' ! n) = []
    \<and> dependencies (h' ! n) = [] \<and> asyncDependencies (h' ! n) = []"
proof -
  obtain j where k: "k = Suc j" using assms(1) by (cases k) auto
  let ?xs = "filter (\<lambda>t. source (h ! t) \<noteq> None) (transpilationInitiators (h ! n))"
  obtain h1 where h1: "(if hmrEnabled (h ! n) = HmrOff then forEachM (resetTranspilation j) ?xs h else Some h) = Some h1"
    and h': "h' = forgetTranspilation n h1"
    using assms(1) k by (auto split: option.splits)
  have "length h1 = length h"
  proof (cases "hmrEnabled (h ! n) = HmrOff")
    case True
    then have fe: "forEachM (resetTranspilation j) ?xs h = Some h1" using h1 by simp
    show ?thesis
      by (rule forEachM_inv[OF fe, where I = "\<lambda>s. length s = length h"])
         (auto dest!: resetTranspilation_frame)
  next
    case False
    then show ?thesis using h1 by simp
  qed
  then show ?thesis using forgetTranspilation_node[of n h1] assms(2) by (simp add: h')
qed

lemma resetTranspilation_refs:
  "resetTranspilation k n h = Some h' \<Longrightarrow> refs_ok h \<Longrightarrow> refs_ok h'"
proof (induction k arbitrary: n h h')
  case 0
  then show ?case by simp
next
  case (Suc k)
  let ?xs = "filter (\<lambda>t. source (h ! t) \<noteq> None) (transpilationInitiators (h ! n))"
  obtain h1 where h1: "(if hmrEnabled (h ! n) = HmrOff then forEachM (resetTranspilation k) ?xs h else Some h) = Some h1"
    and h': "h' = forgetTranspilation n h1"
    using Suc.prems(1) by (auto split: option.splits)
  have "refs_ok h1"
  proof (cases "hmrEnabled (h ! n) = HmrOff")
    case True
    then have fe: "forEachM (resetTranspilation k) ?xs h = Some h1" using h1 by simp
    show ?thesis
      by (rule forEachM_inv[OF fe, where I = refs_ok]) (auto simp: Suc.prems(2) intro: Suc.IH)
  next
    case False
    then show ?thesis using h1 Suc.prems(2) by simp
  qed
  then show ?case by (simp add: h' refs_ok_forgetTranspilation)
qed

lemma resetTranspilation_graph:
  "resetTranspilation k n h = Some h' \<Longrightarrow> graph_ok h \<Longrightarrow> noHmr h \<Longrightarrow> n < length h \<Longrightarrow> graph_ok h'"
proof (induction k arbitrary: n h h')
  case 0
  then show ?case by simp
next
  case (Suc k)
  let ?xs = "filter (\<lambda>t. source (h ! t) \<noteq> None) (transpilationInitiators (h ! n))"
  have off: "hmrEnabled (h ! n) = HmrOff" using Suc.prems(3,4) by (simp add: noHmr_def)
  obtain h1 where fe: "forEachM (resetTranspilation k) ?xs h = Some h1"
    and h': "h' = forgetTranspilation n h1"
    using Suc.prems(1) off by (auto split: option.splits)
  have valid: "\<And>x. x \<in> set ?xs \<Longrightarrow> x < length h"
    using Suc.prems(2,4) pair_symD2[of transpilationDependencies transpilationInitiators h n]
    by (auto simp: graph_ok_def edge_symmetry_def)
  have I: "graph_ok h1 \<and> noHmr h1 \<and> length h1 = length h"
  proof (rule forEachM_inv[OF fe, where I = "\<lambda>s. graph_ok s \<and> noHmr s \<and> length s = length h"])
    show "graph_ok h \<and> noHmr h \<and> length h = length h" using Suc.prems by simp
  next
    fix x s s' assume x: "x \<in> set ?xs" and s: "graph_ok s \<and> noHmr s \<and> length s = length h"
      and r: "resetTranspilation k x s = Some s'"
    have "x < length s" using valid[OF x] s by simp
    then have "graph_ok s'" using Suc.IH[OF r] s by simp
    moreover have "noHmr s' \<and> length s' = length h"
      using resetTranspilation_frame[OF r] s by (auto intro: noHmr_frame)
    ultimately show "graph_ok s' \<and> noHmr s' \<and> length s' = length h" by simp
  qed
  then have "hmrEnabled (h1 ! n) = HmrOff" using Suc.prems(4) by (simp add: noHmr_def)
  then show ?case using I Suc.prems(4)
    by (simp add: h' graph_ok_def edge_symmetry_forgetTranspilation refs_ok_forgetTranspilation)
qed

lemma resetTranspilation_any:
  "resetTranspilation k n h = Some h' \<Longrightarrow> n < length h \<Longrightarrow> tr_any h h'"
  unfolding tr_any_def
  by (blast intro: resetTranspilation_refs resetTranspilation_graph dest: resetTranspilation_frame)

lemma edge_symmetry_upd_other:
  assumes "edge_symmetry h"
    and "n < length h \<Longrightarrow> dependencies (f (h ! n)) = dependencies (h ! n)
          \<and> initiators (f (h ! n)) = initiators (h ! n)
          \<and> transpilationDependencies (f (h ! n)) = transpilationDependencies (h ! n)
          \<and> transpilationInitiators (f (h ! n)) = transpilationInitiators (h ! n)"
  shows "edge_symmetry (upd n f h)"
proof -
  have "pair_sym dependencies initiators (upd n f h)"
    by (rule pair_sym_same[of _ _ h]) (use assms in \<open>auto simp: edge_symmetry_def nth_upd\<close>)
  moreover have "pair_sym transpilationDependencies transpilationInitiators (upd n f h)"
    by (rule pair_sym_same[of _ _ h]) (use assms in \<open>auto simp: edge_symmetry_def nth_upd\<close>)
  ultimately show ?thesis by (simp add: edge_symmetry_def)
qed

lemma tr_ok_push_child:
  assumes t: "t < length h"
  shows "tr_ok h (upd n (\<lambda>x. x\<lparr>childModules := childModules x @ [t]\<rparr>) h)"
proof (rule tr_okI)
  show "ok_frame h (upd n (\<lambda>x. x\<lparr>childModules := childModules x @ [t]\<rparr>) h)"
    by (rule ok_frame_upd) (simp add: ok_node_def keep_node_def src_node_def)
next
  assume r: "refs_ok h"
  show "refs_ok (upd n (\<lambda>x. x\<lparr>childModules := childModules x @ [t]\<rparr>) h)"
    by (rule refs_ok_upd[OF r])
       (use refs_okD[OF r, of n] t node_refs_okD(5)[of h "h ! n"] in \<open>simp add: node_refs_ok_edges\<close>)
next
  assume "graph_ok h"
  then show "edge_symmetry (upd n (\<lambda>x. x\<lparr>childModules := childModules x @ [t]\<rparr>) h)"
    by (intro edge_symmetry_upd_other) (simp_all add: graph_ok_def)
qed

lemma tr_ok_push_async:
  assumes p: "promise_ok h p"
  shows "tr_ok h (upd n (\<lambda>x. x\<lparr>asyncDependencies := asyncDependencies x @ [p]\<rparr>) h)"
proof (rule tr_okI)
  show "ok_frame h (upd n (\<lambda>x. x\<lparr>asyncDependencies := asyncDependencies x @ [p]\<rparr>) h)"
    by (rule ok_frame_upd) (simp add: ok_node_def keep_node_def src_node_def)
next
  assume r: "refs_ok h"
  show "refs_ok (upd n (\<lambda>x. x\<lparr>asyncDependencies := asyncDependencies x @ [p]\<rparr>) h)"
    by (rule refs_ok_upd[OF r])
       (use refs_okD[OF r, of n] p node_refs_okD(6)[of h "h ! n"] in \<open>simp add: node_refs_ok_async\<close>)
next
  assume "graph_ok h"
  then show "edge_symmetry (upd n (\<lambda>x. x\<lparr>asyncDependencies := asyncDependencies x @ [p]\<rparr>) h)"
    by (intro edge_symmetry_upd_other) (simp_all add: graph_ok_def)
qed

lemma tr_ok_resolve:
  assumes "resolveTranspiledModule e spec from h = (r, h')"
  shows "tr_ok h h' \<and> (\<forall>t. r = Inr t \<longrightarrow> t < length h')"
proof (cases "resolveModule e spec from")
  case (Inl err)
  then show ?thesis using assms by (auto simp: resolveTranspiledModule_def tr_ok_refl)
next
  case (Inr mq)
  obtain m q where mq: "mq = (m, q)" by (cases mq)
  obtain t h1 where a: "addTranspiledModule m q h = (t, h1)" by (cases "addTranspiledModule m q h")
  from tr_ok_alloc[OF a] show ?thesis using assms Inr mq a by (auto simp: resolveTranspiledModule_def)
qed

lemma tr_ok_download:
  assumes "downloadDependency e p from h = (pr, h')"
  shows "tr_ok h h' \<and> promise_ok h' pr"
proof (cases "download e p from")
  case None
  then show ?thesis using assms by (auto simp: downloadDependency_def tr_ok_refl promise_ok_def)
next
  case (Some d)
  show ?thesis
  proof (cases d)
    case (Inl err)
    then show ?thesis using assms Some by (auto simp: downloadDependency_def tr_ok_refl promise_ok_def)
  next
    case (Inr mq)
    obtain m q where mq: "mq = (m, q)" by (cases mq)
    obtain t h1 where a: "addTranspiledModule m q h = (t, h1)" by (cases "addTranspiledModule m q h")
    from tr_ok_alloc[OF a] show ?thesis using assms Some Inr mq a
      by (auto simp: downloadDependency_def promise_ok_def)
  qed
qed

lemma tr_ok_emitModule:
  assumes "emitModule e n p c d h = (t, h')" "n < length h"
  shows "tr_ok h h'"
proof -
  let ?dir = "case d of None \<Rightarrow> dirname e (path (module (h ! n))) | Some d \<Rightarrow> d"
  let ?m = "(module (h ! n))\<lparr>path := joinPath e ?dir (snd (splitQuery p)), code := c\<rparr>"
  obtain t1 h1 where a: "addTranspiledModule ?m (fst (splitQuery p)) h = (t1, h1)"
    by (cases "addTranspiledModule ?m (fst (splitQuery p)) h")
  let ?h2 = "upd n (\<lambda>x. x\<lparr>childModules := childModules x @ [t1]\<rparr>) h1"
  have h': "h' = add_dependency n t1 ?h2"
    using assms(1) a by (auto simp: emitModule_def Let_def)
  have s1: "tr_ok h h1" and t1: "t1 < length h1" using tr_ok_alloc[OF a] by simp_all
  have n1: "n < length h1" using tr_ok_length[OF s1] assms(2) by simp
  have s2: "tr_ok h1 ?h2" using t1 by (rule tr_ok_push_child)
  have s3: "tr_ok ?h2 (add_dependency n t1 ?h2)" using n1 t1 by (intro tr_ok_add_dependency) simp_all
  show ?thesis unfolding h' using s1 s2 s3 by (blast intro: tr_ok_trans)
qed

lemma tr_ok_emitFile:
  assumes "emitFile n name content sm h = (r, h')"
  shows "tr_ok h h'"
proof (cases "assets (h ! n)")
  case None
  then show ?thesis using assms by (auto simp: emitFile_def tr_ok_refl)
next
  case (Some a)
  then have "h' = upd n (\<lambda>x. x\<lparr>assets := Some (AList.update name
                   \<lparr>fileName = name, compiledCode = content, sourceMap = sm\<rparr> a)\<rparr>) h"
    using assms by (auto simp: emitFile_def)
  then show ?thesis
    by (auto intro!: tr_ok_upd simp: ok_node_def keep_node_def src_node_def same_links_def)
qed

lemma tr_ok_addTranspilationDependency:
  assumes "addTranspilationDependency e n p a h = (r, h')" "n < length h"
  shows "tr_ok h h'"
proof -
  obtain r1 h1 where res: "resolveTranspiledModule e p (if a then ''/'' else path (module (h ! n))) h = (r1, h1)"
    by (cases "resolveTranspiledModule e p (if a then ''/'' else path (module (h ! n))) h")
  note s1 = tr_ok_resolve[OF res]
  show ?thesis
  proof (cases r1)
    case (Inl err)
    then show ?thesis using assms(1) res s1 by (auto simp: addTranspilationDependency_def)
  next
    case (Inr t)
    have "n < length h1" using tr_ok_length[of h h1] s1 assms(2) by simp
    then have "tr_ok h1 (add_transpilation_dependency n t h1)"
      using s1 Inr by (intro tr_ok_add_transpilation_dependency) simp_all
    then show ?thesis using assms(1) res s1 Inr
      by (auto simp: addTranspilationDependency_def intro: tr_ok_trans)
  qed
qed

lemma tr_ok_addDependency:
  assumes "addDependency e n p a h = (r, h')" "n < length h"
  shows "tr_ok h h'"
proof (cases "startsWith ''babel-runtime'' p \<or> startsWith ''codesandbox-api'' p")
  case True
  then show ?thesis using assms(1) by (auto simp: addDependency_def tr_ok_refl)
next
  case False
  obtain r1 h1 where res: "resolveTranspiledModule e p (if a then ''/'' else path (module (h ! n))) h = (r1, h1)"
    by (cases "resolveTranspiledModule e p (if a then ''/'' else path (module (h ! n))) h")
  note s1 = tr_ok_resolve[OF res]
  have n1: "n < length h1" using tr_ok_length[of h h1] s1 assms(2) by simp
  show ?thesis
  proof (cases r1)
    case (Inr t)
    have "tr_ok h1 (add_dependency n t h1)"
      using s1 Inr n1 by (intro tr_ok_add_dependency) simp_all
    then show ?thesis using assms(1) res s1 Inr False
      by (auto simp: addDependency_def intro: tr_ok_trans)
  next
    case (Inl err)
    show ?thesis
    proof (cases "errType err = ''module-not-found'' \<and> isDependency err")
      case nf: False
      then show ?thesis using assms(1) res s1 Inl False by (auto simp: addDependency_def)
    next
      case True
      obtain pr h2 where dl: "downloadDependency e (errPath err) (path (module (h1 ! n))) h1 = (pr, h2)"
        by (cases "downloadDependency e (errPath err) (path (module (h1 ! n))) h1")
      note s2 = tr_ok_download[OF dl]
      have "tr_ok h2 (upd n (\<lambda>x. x\<lparr>asyncDependencies := asyncDependencies x @ [pr]\<rparr>) h2)"
        using s2 by (intro tr_ok_push_async) simp
      moreover have "h' = upd n (\<lambda>x. x\<lparr>asyncDependencies := asyncDependencies x @ [pr]\<rparr>) h2"
        using assms(1) res Inl False True dl by (simp add: addDependency_def)
      ultimately show ?thesis using s1 s2 by (blast intro: tr_ok_trans)
    qed
  qed
qed

lemma tr_ok_addAll:
  "addAll ms h = (rs, h') \<Longrightarrow> tr_ok h h' \<and> (\<forall>r\<in>set rs. r < length h')"
proof (induction ms arbitrary: h rs h')
  case Nil
  then show ?case by (simp add: tr_ok_refl)
next
  case (Cons mq ms)
  obtain m q where mq: "mq = (m, q)" by (cases mq)
  obtain t h1 where a: "addTranspiledModule m q h = (t, h1)" by (cases "addTranspiledModule m q h")
  obtain ts h2 where b: "addAll ms h1 = (ts, h2)" by (cases "addAll ms h1")
  have rs: "rs = t # ts" "h' = h2" using Cons.prems mq a b by simp_all
  note s1 = tr_ok_alloc[OF a] and s2 = Cons.IH[OF b]
  have "t < length h2" using s1 tr_ok_length[of h1 h2] s2 by simp
  then show ?case using s1 s2 rs by (auto intro: tr_ok_trans)
qed

lemma tr_ok_fold_add_dependency:
  "n < length h \<Longrightarrow> \<forall>t\<in>set ts. t < length h \<Longrightarrow> tr_ok h (fold (add_dependency n) ts h)"
proof (induction ts arbitrary: h)
  case Nil
  then show ?case by (simp add: tr_ok_refl)
next
  case (Cons t ts)
  have s1: "tr_ok h (add_dependency n t h)" using Cons.prems by (intro tr_ok_add_dependency) simp_all
  have len: "length (add_dependency n t h) = length h" by (simp add: add_dependency_def)
  have "tr_ok (add_dependency n t h) (fold (add_dependency n) ts (add_dependency n t h))"
    using Cons.prems by (intro Cons.IH) (simp_all add: len)
  then show ?case using s1 by (auto intro: tr_ok_trans)
qed

lemma tr_ok_addDependenciesInDirectory:
  assumes "addDependenciesInDirectory e n p a h = (ts, h')" "n < length h"
  shows "tr_ok h h'"
proof -
  obtain rs h1 where a: "addAll (modulesInDirectory e p (if a then ''/'' else path (module (h ! n)))) h = (rs, h1)"
    by (cases "addAll (modulesInDirectory e p (if a then ''/'' else path (module (h ! n)))) h")
  note s1 = tr_ok_addAll[OF a]
  have "n < length h1" using s1 tr_ok_length[of h h1] assms(2) by simp
  then have "tr_ok h1 (fold (add_dependency n) rs h1)" using s1 by (intro tr_ok_fold_add_dependency) simp_all
  moreover have "h' = fold (add_dependency n) rs h1"
    using assms(1) a by (auto simp: addDependenciesInDirectory_def resolveTranspiledModulesInDirectory_def)
  ultimately show ?thesis using s1 by (blast intro: tr_ok_trans)
qed

lemma tr_ok_loaderCall:
  assumes "loaderCall e n c h = (r, h')" "n < length h"
  shows "tr_ok h h'"
proof (cases c)
  case (EmitWarning w)
  then show ?thesis using assms
    by (auto intro!: tr_ok_upd simp: ok_node_def keep_node_def src_node_def same_links_def)
next
  case (EmitError err)
  then show ?thesis using assms
    by (auto intro!: tr_ok_upd simp: ok_node_def keep_node_def src_node_def same_links_def)
next
  case (EmitModule p c d)
  then show ?thesis using assms tr_ok_emitModule[of e n p c d h]
    by (cases "emitModule e n p c d h") auto
next
  case (EmitFile name content sm)
  then show ?thesis using assms tr_ok_emitFile by auto
next
  case (AddTranspilationDependency p a)
  then show ?thesis using assms tr_ok_addTranspilationDependency[of e n p a h]
    by (cases "addTranspilationDependency e n p a h") (auto split: sum.splits)
next
  case (AddDependency p a)
  then show ?thesis using assms tr_ok_addDependency[of e n p a h]
    by (cases "addDependency e n p a h") auto
next
  case (AddDependenciesInDirectory p a)
  then show ?thesis using assms tr_ok_addDependenciesInDirectory[of e n p a h]
    by (cases "addDependenciesInDirectory e n p a h") auto
qed

lemma tr_ok_runCalls:
  "runCalls e n cs h = (r, h') \<Longrightarrow> n < length h \<Longrightarrow> tr_ok h h'"
proof (induction cs arbitrary: h)
  case Nil
  then show ?case by (simp add: tr_ok_refl)
next
  case (Cons c cs)
  obtain r1 h1 where a: "loaderCall e n c h = (r1, h1)" by (cases "loaderCall e n c h")
  note s1 = tr_ok_loaderCall[OF a Cons.prems(2)]
  have n1: "n < length h1" using tr_ok_length[OF s1] Cons.prems(2) by simp
  show ?case
  proof (cases r1)
    case None
    then show ?thesis using Cons.IH[OF _ n1] Cons.prems(1) a s1 by (auto intro: tr_ok_trans)
  next
    case (Some err)
    then show ?thesis using Cons.prems(1) a s1 by simp
  qed
qed

lemma tr_any_node:
  assumes "tr_any h h'" "n < length h"
  shows "module (h' ! n) = module (h ! n)" "compilation (h' ! n) = compilation (h ! n)"
    "hmrEnabled (h' ! n) = hmrEnabled (h ! n)" "n < length h'"
proof -
  have f: "frame keep_node keep_new h h'" using assms(1) by (simp add: tr_any_def tr_frame_def)
  show "module (h' ! n) = module (h ! n)" "compilation (h' ! n) = compilation (h ! n)"
    "hmrEnabled (h' ! n) = hmrEnabled (h ! n)" "n < length h'"
    using frameD(1)[OF f] frameD(2)[OF f, of n] assms(2) by (simp_all add: keep_node_def)
qed

lemma tr_ok_node:
  assumes "tr_ok h h'" "n < length h"
  shows "module (h' ! n) = module (h ! n)" "source (h ! n) \<noteq> None \<Longrightarrow> source (h' ! n) \<noteq> None"
    "n < length h'"
proof -
  have f: "frame ok_node keep_new h h'" using assms(1) by (simp add: tr_ok_def ok_frame_def)
  show "module (h' ! n) = module (h ! n)" "source (h ! n) \<noteq> None \<Longrightarrow> source (h' ! n) \<noteq> None"
    "n < length h'"
    using frameD(1)[OF f] frameD(2)[OF f, of n] assms(2)
    by (simp_all add: ok_node_def keep_node_def src_node_def)
qed

lemma tr_ok_refs: "tr_ok h h' \<Longrightarrow> refs_ok h \<Longrightarrow> refs_ok h'" by (simp add: tr_ok_def)
lemma tr_any_refs: "tr_any h h' \<Longrightarrow> refs_ok h \<Longrightarrow> refs_ok h'" by (simp add: tr_any_def)

lemma failTranspile_rel:
  assumes "failTranspile k n err st = Some (r, st')" "n < length (heap st)"
  shows "tr_any (heap st) (heap st') \<and> (\<exists>e. r = Inl e \<and> failed_at n (path (module (heap st ! n))) e (heap st'))"
proof -
  obtain h1 where rt: "resetTranspilation k n (heap st) = Some h1"
    and r: "r = Inl (err\<lparr>err_fileName := Some (path (module (heap st ! n))), err_tModule := Some n\<rparr>)"
    and st': "st' = st\<lparr>heap := h1\<rparr>"
    using assms(1) by (auto simp: failTranspile_def split: option.splits)
  show ?thesis
    using resetTranspilation_any[OF rt assms(2)] resetTranspilation_node[OF rt assms(2)]
    by (simp add: r st' failed_at_def)
qed

lemma tr_ok_fold_addDependency:
  "n < length h \<Longrightarrow> tr_ok h (fold (\<lambda>d h. snd (addDependency e n d False h)) ds h)"
proof (induction ds arbitrary: h)
  case Nil
  then show ?case by (simp add: tr_ok_refl)
next
  case (Cons d ds)
  obtain r1 h1 where a: "addDependency e n d False h = (r1, h1)" by (cases "addDependency e n d False h")
  note s1 = tr_ok_addDependency[OF a Cons.prems]
  have "n < length h1" using tr_ok_length[OF s1] Cons.prems by simp
  from Cons.IH[OF this] show ?case using s1 a by (auto intro: tr_ok_trans)
qed

lemma linkDownload_rel: "n < length h \<Longrightarrow> promise_ok h p \<Longrightarrow> tr_ok h (linkDownload n p h)"
  by (cases p) (simp_all add: linkDownload_def promise_ok_def tr_ok_add_dependency tr_ok_refl)

lemma settledFirst_set: "settledFirst ps = Some (q, qs) \<Longrightarrow> q \<in> set ps \<and> set qs \<subseteq> set ps"
proof (induction ps arbitrary: q qs)
  case Nil
  then show ?case by simp
next
  case (Cons p ps)
  show ?case
  proof (cases p)
    case Pending
    then show ?thesis using Cons by (auto split: option.splits)
  next
    case (Resolved t)
    then show ?thesis using Cons.prems by auto
  next
    case (Rejected err)
    then show ?thesis using Cons.prems by auto
  qed
qed

section \<open>Resets and the invariants\<close>

lemma rc_frame_refl: "rc_frame h h"
  by (simp add: rc_frame_def rc_node_def same_links_def)

lemma rc_frame_trans: "rc_frame h1 h2 \<Longrightarrow> rc_frame h2 h3 \<Longrightarrow> rc_frame h1 h3"
  by (auto simp: rc_frame_def rc_node_def same_links_def)

lemma rc_frame_upd:
  "(n < length h \<Longrightarrow> rc_node (h ! n) (f (h ! n))) \<Longrightarrow> rc_frame h (upd n f h)"
  by (simp add: rc_frame_def nth_upd rc_node_def same_links_def)

lemma resetCompilation_Suc:
  "resetCompilation (Suc k) n h =
     (case (if compilation (h ! n) \<noteq> None
           then (if hmrEnabled (h ! n) = HmrOff
                 then forEachM (resetCompilation k)
                        (filter (\<lambda>t. compilation (upd n (\<lambda>x. x\<lparr>compilation := None\<rparr>) h ! t) \<noteq> None)
                           (initiators (upd n (\<lambda>x. x\<lparr>compilation := None\<rparr>) h ! n)))
                        (upd n (\<lambda>x. x\<lparr>compilation := None\<rparr>) h)
                 else Some (upd n (\<lambda>x. x\<lparr>changed := True\<rparr>) h))
           else Some h) of
       None \<Rightarrow> None
     | Some h1 \<Rightarrow>
         if hmrEnabled (h1 ! n) = HmrOff
         then forEachM (resetCompilation k)
                (filter (\<lambda>t. compilation (h1 ! t) \<noteq> None) (transpilationInitiators (h1 ! n))) h1
         else Some h1)"
  by (simp add: Let_def)

lemma resetCompilation_frame:
  "resetCompilation k n h = Some h' \<Longrightarrow> rc_frame h h'"
proof (induction k arbitrary: n h h')
  case 0
  then show ?case by simp
next
  case (Suc k)
  have loop: "rc_frame s s'" if "forEachM (resetCompilation k) xs s = Some s'" for xs s s'
    by (rule forEachM_inv[OF that, where I = "\<lambda>x. rc_frame s x"])
       (auto simp: rc_frame_refl dest!: Suc.IH intro: rc_frame_trans)
  let ?hc = "upd n (\<lambda>x. x\<lparr>compilation := None\<rparr>) h"
  let ?first = "if compilation (h ! n) \<noteq> None
           then (if hmrEnabled (h ! n) = HmrOff
                 then forEachM (resetCompilation k)
                        (filter (\<lambda>t. compilation (?hc ! t) \<noteq> None) (initiators (?hc ! n))) ?hc
                 else Some (upd n (\<lambda>x. x\<lparr>changed := True\<rparr>) h))
           else Some h"
  obtain h1 where h1: "?first = Some h1"
    and rest: "(if hmrEnabled (h1 ! n) = HmrOff
         then forEachM (resetCompilation k)
                (filter (\<lambda>t. compilation (h1 ! t) \<noteq> None) (transpilationInitiators (h1 ! n))) h1
         else Some h1) = Some h'"
    using Suc.prems unfolding resetCompilation_Suc by (auto split: option.splits)
  have a: "rc_frame h ?hc" by (rule rc_frame_upd) (simp add: rc_node_def same_links_def)
  have b: "rc_frame h (upd n (\<lambda>x. x\<lparr>changed := True\<rparr>) h)"
    by (rule rc_frame_upd) (simp add: rc_node_def same_links_def)
  have f1: "rc_frame h h1"
    using h1 a b loop by (auto simp: rc_frame_refl split: if_splits intro: rc_frame_trans)
  have "rc_frame h1 h'"
    using rest loop by (auto simp: rc_frame_refl split: if_splits)
  with f1 show ?case by (rule rc_frame_trans)
qed

lemma rc_frame_lk: "rc_frame h h' \<Longrightarrow> lk_frame h h'"
  by (simp add: rc_frame_def lk_frame_def frame_def rc_node_def)

lemma rc_frame_graph: "rc_frame h h' \<Longrightarrow> graph_ok h \<Longrightarrow> graph_ok h'"
  by (blast intro: graph_ok_lk_frame rc_frame_lk)

lemma rc_frame_refs: "rc_frame h h' \<Longrightarrow> refs_ok h \<Longrightarrow> refs_ok h'"
  by (blast intro: refs_ok_lk_frame rc_frame_lk)

lemma rc_frame_source_inv:
  assumes "rc_frame h h'" "source_inv h"
  shows "source_inv h'"
  using assms by (auto simp: source_inv_def rc_frame_def rc_node_def)

lemma rc_frame_hmr: "rc_frame h h' \<Longrightarrow> hmr_same h h'"
  by (simp add: rc_frame_def hmr_same_def rc_node_def)

lemma resetCompilation_node:
  assumes "resetCompilation k n h = Some h'" "n < length h" "hmrEnabled (h ! n) = HmrOff"
  shows "compilation (h' ! n) = None"
proof -
  obtain j where k: "k = Suc j" using assms(1) by (cases k) auto
  let ?hc = "upd n (\<lambda>x. x\<lparr>compilation := None\<rparr>) h"
  let ?first = "if compilation (h ! n) \<noteq> None
           then forEachM (resetCompilation j)
                  (filter (\<lambda>t. compilation (?hc ! t) \<noteq> None) (initiators (?hc ! n))) ?hc
           else Some h"
  obtain h1 where h1: "?first = Some h1"
    and rest: "forEachM (resetCompilation j)
                (filter (\<lambda>t. compilation (h1 ! t) \<noteq> None) (transpilationInitiators (h1 ! n))) h1 = Some h'
               \<or> h' = h1"
    using assms(1,3) unfolding k resetCompilation_Suc by (auto split: option.splits if_splits)
  have loop: "rc_frame s s'" if "forEachM (resetCompilation j) xs s = Some s'" for xs s s'
    by (rule forEachM_inv[OF that, where I = "\<lambda>x. rc_frame s x"])
       (auto simp: rc_frame_refl dest!: resetCompilation_frame intro: rc_frame_trans)
  have c1: "compilation (h1 ! n) = None \<and> length h1 = length h"
  proof (cases "compilation (h ! n) \<noteq> None")
    case True
    then have "rc_frame ?hc h1" using h1 loop by simp
    moreover have "compilation (?hc ! n) = None" using assms(2) by (simp add: nth_upd)
    ultimately show ?thesis using assms(2) by (auto simp: rc_frame_def rc_node_def)
  next
    case False
    then show ?thesis using h1 by simp
  qed
  have "rc_frame h1 h'" using rest loop by (auto simp: rc_frame_refl)
  then show ?thesis using c1 assms(2) by (auto simp: rc_frame_def rc_node_def)
qed

lemma hmr_same_refl: "hmr_same h h" by (simp add: hmr_same_def)
lemma hmr_same_trans: "hmr_same h1 h2 \<Longrightarrow> hmr_same h2 h3 \<Longrightarrow> hmr_same h1 h3"
  by (simp add: hmr_same_def)

lemma hmr_same_noHmr: "hmr_same h h' \<Longrightarrow> noHmr h \<Longrightarrow> noHmr h'"
  by (simp add: hmr_same_def noHmr_def)

lemma resetTranspilation_hmr: "resetTranspilation k n h = Some h' \<Longrightarrow> hmr_same h h'"
proof -
  assume a: "resetTranspilation k n h = Some h'"
  have f: "frame keep_node keep_new h h'" and l: "length h' = length h"
    using resetTranspilation_frame[OF a] by (simp_all add: tr_frame_def)
  show ?thesis unfolding hmr_same_def using l frameD(2)[OF f] by (simp add: keep_node_def)
qed

lemma hmr_same_upd: "(n < length h \<Longrightarrow> hmrEnabled (f (h ! n)) = hmrEnabled (h ! n)) \<Longrightarrow> hmr_same h (upd n f h)"
  by (simp add: hmr_same_def nth_upd)

lemma reset_hmr: "reset k n h = Some h' \<Longrightarrow> hmr_same h h'"
proof (induction k arbitrary: n h h')
  case 0
  then show ?case by simp
next
  case (Suc k)
  let ?f = "\<lambda>x. x\<lparr>childModules := [], emittedAssets := Some []\<rparr>"
  obtain h1 h2 h3 where s: "forEachM (reset k) (childModules (h ! n)) h = Some h1"
    "resetCompilation k n (upd n ?f h1) = Some h2" "resetTranspilation k n h2 = Some h3"
    "h' = setIsEntry False n h3"
    using Suc.prems by (auto split: option.splits)
  have a: "hmr_same h h1"
    by (rule forEachM_inv[OF s(1), where I = "\<lambda>x. hmr_same h x"])
       (auto simp: hmr_same_refl dest!: Suc.IH intro: hmr_same_trans)
  have b: "hmr_same h1 (upd n ?f h1)" by (rule hmr_same_upd) simp
  have c: "hmr_same (upd n ?f h1) h2" using resetCompilation_frame[OF s(2)] by (rule rc_frame_hmr)
  have d: "hmr_same h2 h3" using s(3) by (rule resetTranspilation_hmr)
  have e: "hmr_same h3 h'" unfolding s(4) setIsEntry_def by (rule hmr_same_upd) simp
  show ?case using a b c d e by (blast intro: hmr_same_trans)
qed

lemma reset_node:
  assumes "reset k n h = Some h'" "n < length h" "hmrEnabled (h ! n) = HmrOff"
  shows "source (h' ! n) = None \<and> compilation (h' ! n) = None \<and> \<not> isEntry (h' ! n)
         \<and> dependencies (h' ! n) = []"
proof -
  obtain j where k: "k = Suc j" using assms(1) by (cases k) auto
  let ?f = "\<lambda>x. x\<lparr>childModules := [], emittedAssets := Some []\<rparr>"
  obtain h1 h2 h3 where s: "forEachM (reset j) (childModules (h ! n)) h = Some h1"
    "resetCompilation j n (upd n ?f h1) = Some h2" "resetTranspilation j n h2 = Some h3"
    "h' = setIsEntry False n h3"
    using assms(1) k by (auto split: option.splits)
  have a: "hmr_same h h1"
    by (rule forEachM_inv[OF s(1), where I = "\<lambda>x. hmr_same h x"])
       (auto simp: hmr_same_refl dest!: reset_hmr intro: hmr_same_trans)
  let ?h1 = "upd n ?f h1"
  have n1: "n < length ?h1" "hmrEnabled (?h1 ! n) = HmrOff" "childModules (?h1 ! n) = []"
    using a assms(2,3) by (simp_all add: hmr_same_def nth_upd)
  have c2: "compilation (h2 ! n) = None" using resetCompilation_node[OF s(2) n1(1,2)] .
  have f2: "rc_frame ?h1 h2" using resetCompilation_frame[OF s(2)] .
  have n2: "n < length h2" "childModules (h2 ! n) = []"
    using f2 n1 by (auto simp: rc_frame_def rc_node_def same_links_def)
  have f3: "frame keep_node keep_new h2 h3" and l3: "length h3 = length h2"
    using resetTranspilation_frame[OF s(3)] by (simp_all add: tr_frame_def)
  have c3: "compilation (h3 ! n) = None" using frameD(2)[OF f3 n2(1)] c2 by (simp add: keep_node_def)
  have s3: "source (h3 ! n) = None" "dependencies (h3 ! n) = []"
    using resetTranspilation_node[OF s(3) n2(1)] by simp_all
  show ?thesis using c3 s3 n2 l3 by (simp add: s(4) setIsEntry_def nth_upd)
qed

lemma graph_ok_upd_plain:
  assumes g: "graph_ok h"
    and f: "n < length h \<Longrightarrow> dependencies (f (h ! n)) = dependencies (h ! n)
          \<and> initiators (f (h ! n)) = initiators (h ! n)
          \<and> transpilationDependencies (f (h ! n)) = transpilationDependencies (h ! n)
          \<and> transpilationInitiators (f (h ! n)) = transpilationInitiators (h ! n)
          \<and> set (childModules (f (h ! n))) \<subseteq> set (childModules (h ! n))
          \<and> asyncDependencies (f (h ! n)) = asyncDependencies (h ! n)"
  shows "graph_ok (upd n f h)"
proof -
  from g have r: "refs_ok h" and s: "edge_symmetry h" by (simp_all add: graph_ok_def)
  have "refs_ok (upd n f h)"
    by (rule refs_ok_upd[OF r]) (use refs_okD[OF r, of n] f in \<open>auto simp: node_refs_ok_def\<close>)
  moreover have "edge_symmetry (upd n f h)"
    by (rule edge_symmetry_upd_other[OF s]) (use f in simp)
  ultimately show ?thesis by (simp add: graph_ok_def)
qed

lemma reset_graph:
  "reset k n h = Some h' \<Longrightarrow> graph_ok h \<Longrightarrow> noHmr h \<Longrightarrow> n < length h \<Longrightarrow> graph_ok h'"
proof (induction k arbitrary: n h h')
  case 0
  then show ?case by simp
next
  case (Suc k)
  let ?f = "\<lambda>x. x\<lparr>childModules := [], emittedAssets := Some []\<rparr>"
  obtain h1 h2 h3 where s: "forEachM (reset k) (childModules (h ! n)) h = Some h1"
    "resetCompilation k n (upd n ?f h1) = Some h2" "resetTranspilation k n h2 = Some h3"
    "h' = setIsEntry False n h3"
    using Suc.prems(1) by (auto split: option.splits)
  have valid: "\<And>c. c \<in> set (childModules (h ! n)) \<Longrightarrow> c < length h"
    using Suc.prems(2,4) node_refs_okD(5)[OF refs_okD[of h n]] by (auto simp: graph_ok_def)
  have I: "graph_ok h1 \<and> noHmr h1 \<and> length h1 = length h"
  proof (rule forEachM_inv[OF s(1), where I = "\<lambda>s. graph_ok s \<and> noHmr s \<and> length s = length h"])
    show "graph_ok h \<and> noHmr h \<and> length h = length h" using Suc.prems by simp
  next
    fix c s s' assume c: "c \<in> set (childModules (h ! n))"
      and i: "graph_ok s \<and> noHmr s \<and> length s = length h" and r: "reset k c s = Some s'"
    have "c < length s" using valid[OF c] i by simp
    then have "graph_ok s'" using Suc.IH[OF r] i by simp
    moreover have "noHmr s' \<and> length s' = length h"
      using reset_hmr[OF r] i by (auto simp: hmr_same_def noHmr_def)
    ultimately show "graph_ok s' \<and> noHmr s' \<and> length s' = length h" by simp
  qed
  let ?h1 = "upd n ?f h1"
  have g1: "graph_ok ?h1" using I by (intro graph_ok_upd_plain) simp_all
  have m1: "noHmr ?h1" using I by (simp add: noHmr_def nth_upd)
  note f2 = resetCompilation_frame[OF s(2)]
  have g2: "graph_ok h2" using f2 g1 by (rule rc_frame_graph)
  have m2: "noHmr h2" using rc_frame_hmr[OF f2] m1 by (rule hmr_same_noHmr)
  have n2: "n < length h2" using f2 I Suc.prems(4) by (simp add: rc_frame_def)
  have g3: "graph_ok h3" using s(3) g2 m2 n2 by (rule resetTranspilation_graph)
  show ?case unfolding s(4) setIsEntry_def using g3 by (intro graph_ok_upd_plain) simp_all
qed

lemma update_graph:
  assumes "update k n m h = Some h'" "graph_ok h" "noHmr h" "n < length h"
  shows "graph_ok h'"
proof -
  let ?h0 = "upd n (\<lambda>x. x\<lparr>module := m\<rparr>) h"
  have "graph_ok ?h0" using assms(2) by (intro graph_ok_upd_plain) simp_all
  moreover have "noHmr ?h0" using assms(3) by (simp add: noHmr_def nth_upd)
  moreover have "n < length ?h0" using assms(4) by simp
  ultimately show ?thesis using assms(1) reset_graph[of k n ?h0 h'] by (simp add: update_def)
qed

lemma update_node:
  assumes "update k n m h = Some h'" "n < length h" "hmrEnabled (h ! n) = HmrOff"
  shows "source (h' ! n) = None \<and> compilation (h' ! n) = None"
proof -
  let ?h0 = "upd n (\<lambda>x. x\<lparr>module := m\<rparr>) h"
  have "n < length ?h0" "hmrEnabled (?h0 ! n) = HmrOff" using assms(2,3) by (simp_all add: nth_upd)
  then show ?thesis using assms(1) reset_node[of k n ?h0 h'] by (simp add: update_def)
qed

lemma ev_frame_lk: "ev_frame h h' \<Longrightarrow> lk_frame h h'"
  unfolding ev_frame_def lk_frame_def by (erule frame_mono) (simp_all add: ev_node_def ev_new_def)

lemma evaluate_graph:
  assumes "evaluate k e n ps st = Some (r, st')" "n < length (heap st)" "graph_ok (heap st)"
  shows "graph_ok (heap st')"
  using ev_relD(1)[OF ev_rel_evaluate[OF assms(1,2)]] assms(3)
  by (blast intro: graph_ok_lk_frame ev_frame_lk)

lemma ev_frame_source_inv:
  assumes "ev_frame h h'" "source_inv h"
  shows "source_inv h'"
  unfolding source_inv_def
proof (intro allI impI)
  fix m assume m: "m < length h'" "source (h' ! m) = None"
  show "compilation (h' ! m) = None"
  proof (cases "m < length h")
    case True
    then show ?thesis using ev_frameD(2)[OF assms(1), of m] assms(2) m(2)
      by (auto simp: ev_node_def source_inv_def)
  next
    case False
    then show ?thesis using ev_frameD(3)[OF assms(1), of m] m(1) by (simp add: ev_new_def)
  qed
qed

lemma evaluate_source_inv:
  assumes "evaluate k e n ps st = Some (r, st')" "n < length (heap st)" "source_inv (heap st)"
  shows "source_inv (heap st')"
  using ev_relD(1)[OF ev_rel_evaluate[OF assms(1,2)]] assms(3) by (rule ev_frame_source_inv)

lemma ok_frame_source_inv:
  assumes "ok_frame h h'" "source_inv h"
  shows "source_inv h'"
  unfolding source_inv_def
proof (intro allI impI)
  fix m assume m: "m < length h'" "source (h' ! m) = None"
  note f = frameD[OF assms(1)[unfolded ok_frame_def]]
  show "compilation (h' ! m) = None"
  proof (cases "m < length h")
    case True
    then show ?thesis using f(2)[of m] assms(2) m(2)
      by (auto simp: ok_node_def keep_node_def src_node_def source_inv_def)
  next
    case False
    then show ?thesis using f(3)[of m] m(1) by (simp add: keep_new_def)
  qed
qed

lemma tr_frame_compilation:
  "tr_frame h h' \<Longrightarrow> m < length h \<Longrightarrow> compilation (h' ! m) = compilation (h ! m)"
  using frameD(2)[of keep_node keep_new h h' m] by (simp add: tr_frame_def keep_node_def)


section \<open>Properties of the walk\<close>

lemma settleLoader_rel:
  assumes sl: "settleLoader k e n t c st = Some (r, st')" and n: "n < length (heap st)"
  shows "tr_any (heap st) (heap st')
     \<and> (case r of Inl err \<Rightarrow> failed_at n (path (module (heap st ! n))) err (heap st')
                 | Inr x \<Rightarrow> tr_ok (heap st) (heap st'))"
proof -
  obtain thrown h1 where rc: "runCalls e n (fst (transpiler t c)) (heap st) = (thrown, h1)"
    by (cases "runCalls e n (fst (transpiler t c)) (heap st)")
  have s1: "tr_ok (heap st) h1" using tr_ok_runCalls[OF rc n] .
  note n1 = tr_ok_node(1,3)[OF s1 n]
  have fail: "tr_any (heap st) (heap st')
     \<and> (case r of Inl err \<Rightarrow> failed_at n (path (module (heap st ! n))) err (heap st')
                 | Inr x \<Rightarrow> tr_ok (heap st) (heap st'))"
    if "failTranspile k n err s = Some (r, st')" "heap s = h1" for err s
    using failTranspile_rel[OF that(1)] that(2) n1 tr_ok_any[OF s1]
    by (auto intro: tr_any_trans)
  show ?thesis
  proof (cases thrown)
    case (Some err)
    then have "failTranspile k n err (st\<lparr>heap := h1\<rparr>) = Some (r, st')"
      using sl rc by (simp add: settleLoader_def)
    then show ?thesis by (rule fail) simp
  next
    case None
    show ?thesis
    proof (cases "snd (transpiler t c)")
      case (Raised err)
      then have "failTranspile k n err (st\<lparr>heap := h1\<rparr>) = Some (r, st')"
        using sl rc None by (simp add: settleLoader_def)
      then show ?thesis by (rule fail) simp
    next
      case (Transpiled c' sm')
      let ?st1 = "st\<lparr>heap := h1, dispatched := dispatched st @ warnings (h1 ! n)\<rparr>"
      show ?thesis
      proof (cases "errors (h1 ! n)")
        case (Cons err errs)
        then have "failTranspile k n err ?st1 = Some (r, st')"
          using sl rc None Transpiled by (simp add: settleLoader_def Let_def)
        then show ?thesis by (rule fail) simp
      next
        case Nil
        then have "r = Inr (c', sm')" "st' = ?st1"
          using sl rc None Transpiled by (simp_all add: settleLoader_def Let_def)
        then show ?thesis using s1 by (simp add: tr_ok_any)
      qed
    qed
  qed
qed

lemma stored_simps [simp]:
  "\<not> stored (AtLoader ts i c sm)" "stored (AtDownloads ps)" "stored AtFanout" "stored Returned"
  "\<not> stored (Thrown err)"
  by (simp_all add: stored_def)

lemma tr_ok_storeSource: "tr_ok h (storeSource e n c sm h)"
  unfolding storeSource_def Let_def
  by (rule tr_ok_upd) (simp add: ok_node_def keep_node_def src_node_def same_links_def)

lemma storeSource_source: "n < length h \<Longrightarrow> source (storeSource e n c sm h ! n) \<noteq> None"
  by (simp add: storeSource_def Let_def nth_upd)

lemma nextLoader_rel:
  assumes "nextLoader e n ts i c sm st = (ph, st')" "n < length (heap st)"
  shows "tr_ok (heap st) (heap st')" "stored ph \<Longrightarrow> source (heap st' ! n) \<noteq> None"
    "\<And>err. ph \<noteq> Thrown err"
  using assms tr_ok_storeSource[of "heap st" e n c sm] storeSource_source[of n "heap st" e c sm]
  by (auto simp: nextLoader_def Let_def tr_ok_refl split: list.splits)

lemma transpileStart_rel:
  assumes ts: "transpileStart e n st = (ph, st')" and n: "n < length (heap st)"
  shows "tr_ok (heap st) (heap st')" "stored ph \<Longrightarrow> source (heap st' ! n) \<noteq> None"
    "\<And>err. ph \<noteq> Thrown err"
proof -
  have "tr_ok (heap st) (heap st') \<and> (stored ph \<longrightarrow> source (heap st' ! n) \<noteq> None)
        \<and> (\<forall>err. ph \<noteq> Thrown err)"
  proof (cases "source (heap st ! n) \<noteq> None")
    case True
    then show ?thesis using ts by (auto simp: transpileStart_def tr_ok_refl)
  next
    case False
    let ?h0 = "clearDependencies n (heap st)"
    have s0: "tr_ok (heap st) ?h0" using n by (simp add: tr_ok_clearDependencies)
    have n0: "n < length ?h0" using n by simp
    show ?thesis
    proof (cases "requires (module (?h0 ! n))")
      case None
      then have nl: "nextLoader e n (getLoaders e (module (?h0 ! n)) (query (?h0 ! n))) 0
                   (code (module (?h0 ! n))) None (st\<lparr>heap := ?h0\<rparr>) = (ph, st')"
        using ts False by (simp add: transpileStart_def Let_def)
      have n0': "n < length (heap (st\<lparr>heap := ?h0\<rparr>))" using n0 by simp
      from nextLoader_rel[OF nl n0'] s0 show ?thesis by (auto intro: tr_ok_trans)
    next
      case (Some reqs)
      let ?h1 = "fold (\<lambda>d h. snd (addDependency e n d False h)) reqs ?h0"
      have nl: "nextLoader e n [] 0 (code (module (?h0 ! n))) None (st\<lparr>heap := ?h1\<rparr>) = (ph, st')"
        using ts False Some by (simp add: transpileStart_def Let_def)
      have s1: "tr_ok ?h0 ?h1" using n0 by (rule tr_ok_fold_addDependency)
      have n1: "n < length (heap (st\<lparr>heap := ?h1\<rparr>))" using tr_ok_node(3)[OF s1 n0] by simp
      from nextLoader_rel[OF nl n1] s0 s1 show ?thesis by (auto intro: tr_ok_trans)
    qed
  qed
  then show "tr_ok (heap st) (heap st')" "stored ph \<Longrightarrow> source (heap st' ! n) \<noteq> None"
    "\<And>err. ph \<noteq> Thrown err" by auto
qed

lemma phase_ok_mono: "phase_ok h ph \<Longrightarrow> length h \<le> length h' \<Longrightarrow> phase_ok h' ph"
  by (auto simp: phase_ok_def split: phase.splits intro: promise_ok_mono)

lemma walk_okD:
  assumes "walk_ok w" "i < length (calls w)"
  shows "c_node (calls w ! i) < length (heap (w_state w))"
    "phase_ok (heap (w_state w)) (c_phase (calls w ! i))" "refs_ok (heap (w_state w))"
  using assms by (simp_all add: walk_ok_def)

lemma walk_rel_refl: "walk_ok w \<Longrightarrow> walk_rel w w"
  by (simp add: walk_rel_def tr_any_refl tr_ok_refl)

lemma walk_rel_trans:
  assumes a: "walk_rel w w1" and b: "walk_rel w1 w2"
  shows "walk_rel w w2"
proof -
  obtain xs where xs: "rejections w1 = rejections w @ xs" using a by (auto simp: walk_rel_def)
  obtain ys where ys: "rejections w2 = rejections w1 @ ys" using b by (auto simp: walk_rel_def)
  have "tr_any (heap (w_state w)) (heap (w_state w2))"
    using a b by (auto simp: walk_rel_def intro: tr_any_trans)
  moreover have "\<exists>zs. rejections w2 = rejections w @ zs" using xs ys by simp
  moreover have "length (calls w) \<le> length (calls w2)" using a b by (simp add: walk_rel_def)
  moreover have "walk_ok w2" using b by (simp add: walk_rel_def)
  moreover have "tr_ok (heap (w_state w)) (heap (w_state w2)) \<and> (sources_ok w \<longrightarrow> sources_ok w2)"
    if "rejections w2 = rejections w"
  proof -
    from that xs ys have "xs = []" "ys = []" by simp_all
    then have "rejections w1 = rejections w" "rejections w2 = rejections w1" using xs ys by simp_all
    then show ?thesis using a b by (auto simp: walk_rel_def intro: tr_ok_trans)
  qed
  ultimately show ?thesis by (simp add: walk_rel_def)
qed

lemma walk_relD:
  assumes "walk_rel w w'"
  shows "tr_any (heap (w_state w)) (heap (w_state w'))" "walk_ok w'"
    "length (calls w) \<le> length (calls w')"
    "rejections w' = rejections w \<Longrightarrow> tr_ok (heap (w_state w)) (heap (w_state w'))"
    "rejections w' = rejections w \<Longrightarrow> sources_ok w \<Longrightarrow> sources_ok w'"
  using assms by (simp_all add: walk_rel_def)

text \<open>A move that throws nothing: the calls before it keep their node and, unless named, their phase.\<close>

lemma walk_rel_okI:
  assumes ok: "walk_ok w"
    and tr: "tr_ok (heap (w_state w)) (heap (w_state w'))"
    and rej: "rejections w' = rejections w"
    and len: "length (calls w) \<le> length (calls w')"
    and old: "\<And>j. j < length (calls w) \<Longrightarrow> c_node (calls w' ! j) = c_node (calls w ! j)
                \<and> (c_phase (calls w' ! j) = c_phase (calls w ! j)
                    \<or> phase_ok (heap (w_state w')) (c_phase (calls w' ! j))
                      \<and> (stored (c_phase (calls w' ! j))
                           \<longrightarrow> stored (c_phase (calls w ! j))
                               \<or> source (heap (w_state w') ! c_node (calls w ! j)) \<noteq> None))"
    and new: "\<And>j. length (calls w) \<le> j \<Longrightarrow> j < length (calls w') \<Longrightarrow>
                c_node (calls w' ! j) < length (heap (w_state w'))
                \<and> phase_ok (heap (w_state w')) (c_phase (calls w' ! j))
                \<and> (stored (c_phase (calls w' ! j))
                      \<longrightarrow> source (heap (w_state w') ! c_node (calls w' ! j)) \<noteq> None)"
  shows "walk_rel w w'"
proof -
  let ?h = "heap (w_state w)" and ?h' = "heap (w_state w')"
  have le: "length ?h \<le> length ?h'" using tr by (rule tr_ok_length)
  have refs: "refs_ok ?h'" using tr_ok_refs[OF tr] ok by (simp add: walk_ok_def)
  have wok: "walk_ok w'"
    unfolding walk_ok_def
  proof (intro conjI allI impI refs)
    fix j assume j: "j < length (calls w')"
    show "c_node (calls w' ! j) < length ?h'"
    proof (cases "j < length (calls w)")
      case True
      then show ?thesis using old[OF True] walk_okD(1)[OF ok True] le by simp
    next
      case False
      then show ?thesis using new[of j] j by simp
    qed
    show "phase_ok ?h' (c_phase (calls w' ! j))"
    proof (cases "j < length (calls w)")
      case True
      then show ?thesis using old[OF True] phase_ok_mono[OF walk_okD(2)[OF ok True] le] by auto
    next
      case False
      then show ?thesis using new[of j] j by simp
    qed
  qed
  have src: "sources_ok w'" if so: "sources_ok w"
    unfolding sources_ok_def
  proof (intro allI impI)
    fix j assume j: "j < length (calls w')" and st: "stored (c_phase (calls w' ! j))"
    show "source (?h' ! c_node (calls w' ! j)) \<noteq> None"
    proof (cases "j < length (calls w)")
      case True
      note o = old[OF True]
      have keep: "source (?h' ! c_node (calls w ! j)) \<noteq> None" if "stored (c_phase (calls w ! j))"
        using tr_ok_node(2)[OF tr walk_okD(1)[OF ok True]] so that True by (simp add: sources_ok_def)
      show ?thesis using o st keep by auto
    next
      case False
      then show ?thesis using new[of j] j st by simp
    qed
  qed
  show ?thesis using tr rej len wok src by (simp add: walk_rel_def tr_ok_any)
qed

lemma transpile_walk_rel:
  assumes t: "transpile e n w = (i, w')" and ok: "walk_ok w" and n: "n < length (heap (w_state w))"
  shows "walk_rel w w'" "rejections w' = rejections w" "i = length (calls w)"
    "length (calls w') = Suc (length (calls w))"
proof -
  obtain ph st' where ts: "transpileStart e n (w_state w) = (ph, st')"
    by (cases "transpileStart e n (w_state w)")
  have w': "w' = w\<lparr>w_state := st', calls := calls w @ [\<lparr>c_node = n, c_phase = ph, c_children = []\<rparr>]\<rparr>"
    and i: "i = length (calls w)"
    using t ts by (simp_all add: transpile_def)
  note r = transpileStart_rel[OF ts n]
  have n': "n < length (heap st')" using tr_ok_node(3)[OF r(1) n] .
  have refs': "refs_ok (heap st')" using tr_ok_refs[OF r(1)] ok by (simp add: walk_ok_def)
  have po: "phase_ok (heap st') ph"
  proof (cases ph)
    case (AtDownloads ps)
    have "ps = asyncDependencies (heap st' ! n)"
      using ts AtDownloads by (auto simp: transpileStart_def nextLoader_def Let_def split: if_splits option.splits list.splits)
    then show ?thesis using AtDownloads node_refs_okD(6)[OF refs_okD[OF refs' n']]
      by (simp add: phase_ok_def)
  qed (simp_all add: phase_ok_def)
  show "walk_rel w w'"
  proof (rule walk_rel_okI[OF ok])
    show "tr_ok (heap (w_state w)) (heap (w_state w'))" using r(1) by (simp add: w')
    show "rejections w' = rejections w" by (simp add: w')
    show "length (calls w) \<le> length (calls w')" by (simp add: w')
  next
    fix j assume "j < length (calls w)"
    then show "c_node (calls w' ! j) = c_node (calls w ! j)
                \<and> (c_phase (calls w' ! j) = c_phase (calls w ! j)
                    \<or> phase_ok (heap (w_state w')) (c_phase (calls w' ! j))
                      \<and> (stored (c_phase (calls w' ! j))
                           \<longrightarrow> stored (c_phase (calls w ! j))
                               \<or> source (heap (w_state w') ! c_node (calls w ! j)) \<noteq> None))"
      by (simp add: w' nth_append)
  next
    fix j assume "length (calls w) \<le> j" "j < length (calls w')"
    then have "j = length (calls w)" by (simp add: w')
    then show "c_node (calls w' ! j) < length (heap (w_state w'))
                \<and> phase_ok (heap (w_state w')) (c_phase (calls w' ! j))
                \<and> (stored (c_phase (calls w' ! j))
                      \<longrightarrow> source (heap (w_state w') ! c_node (calls w' ! j)) \<noteq> None)"
      using n' po r(2) by (simp add: w')
  qed
  show "rejections w' = rejections w" by (simp add: w')
  show "i = length (calls w)" by (rule i)
  show "length (calls w') = Suc (length (calls w))" by (simp add: w')
qed

lemma transpileEach_walk_rel:
  "transpileEach e ts w = (js, w') \<Longrightarrow> walk_ok w \<Longrightarrow> \<forall>t\<in>set ts. t < length (heap (w_state w))
     \<Longrightarrow> walk_rel w w' \<and> rejections w' = rejections w
         \<and> (\<forall>j<length (calls w). calls w' ! j = calls w ! j)"
proof (induction ts arbitrary: w js w')
  case Nil
  then show ?case by (simp add: walk_rel_refl)
next
  case (Cons t ts)
  obtain i w1 where t1: "transpile e t w = (i, w1)" by (cases "transpile e t w")
  obtain js' w2 where t2: "transpileEach e ts w1 = (js', w2)" by (cases "transpileEach e ts w1")
  have w': "w' = w2" using Cons.prems(1) t1 t2 by simp
  have tl: "t < length (heap (w_state w))" using Cons.prems(3) by simp
  note r1 = transpile_walk_rel[OF t1 Cons.prems(2) tl]
  have ok1: "walk_ok w1" using walk_relD(2)[OF r1(1)] .
  have le: "length (heap (w_state w)) \<le> length (heap (w_state w1))"
    using tr_any_length[OF walk_relD(1)[OF r1(1)]] .
  have v: "\<forall>t\<in>set ts. t < length (heap (w_state w1))" using Cons.prems(3) le by auto
  note r2 = Cons.IH[OF t2 ok1 v]
  have same1: "\<forall>j<length (calls w). calls w1 ! j = calls w ! j"
    using t1 by (auto simp: transpile_def nth_append split: prod.splits)
  show ?case using r1 r2 same1 walk_rel_trans[of w w1 w2] by (auto simp: w')
qed

lemma walk_rel_reject:
  assumes ok: "walk_ok w" and tr: "tr_any (heap (w_state w)) (heap st')" and i: "i < length (calls w)"
  shows "walk_rel w (reject i err (w\<lparr>w_state := st'\<rparr>))"
proof -
  let ?w' = "reject i err (w\<lparr>w_state := st'\<rparr>)"
  have le: "length (heap (w_state w)) \<le> length (heap st')" using tr by (rule tr_any_length)
  have h': "heap (w_state ?w') = heap st'" by (simp add: reject_def setPhase_def)
  have len: "length (calls ?w') = length (calls w)" by (simp add: reject_def setPhase_def)
  have nd: "c_node (calls ?w' ! j) = c_node (calls w ! j)" if "j < length (calls w)" for j
    using that by (cases "j = i") (simp_all add: reject_def setPhase_def)
  have ph: "phase_ok (heap st') (c_phase (calls ?w' ! j))" if j: "j < length (calls w)" for j
  proof (cases "j = i")
    case True
    then show ?thesis using j by (simp add: reject_def setPhase_def phase_ok_def)
  next
    case False
    then show ?thesis using phase_ok_mono[OF walk_okD(2)[OF ok j] le]
      by (simp add: reject_def setPhase_def)
  qed
  have "walk_ok ?w'"
    unfolding walk_ok_def h' len
  proof (intro conjI allI impI)
    show "refs_ok (heap st')" using tr_any_refs[OF tr walk_okD(3)[OF ok i]] .
    fix j assume j: "j < length (calls w)"
    show "c_node (calls ?w' ! j) < length (heap st')"
      using nd[OF j] walk_okD(1)[OF ok j] le by simp
    show "phase_ok (heap st') (c_phase (calls ?w' ! j))" using ph[OF j] .
  qed
  moreover have "rejections ?w' = rejections w @ [i]" by (simp add: reject_def setPhase_def)
  ultimately show ?thesis using tr len by (simp add: walk_rel_def h')
qed

lemma walk_rel_setPhase:
  assumes ok: "walk_ok w" and tr: "tr_ok (heap (w_state w)) (heap st')" and i: "i < length (calls w)"
    and po: "phase_ok (heap st') ph"
    and src: "stored ph \<Longrightarrow> stored (c_phase (calls w ! i)) \<or> source (heap st' ! c_node (calls w ! i)) \<noteq> None"
  shows "walk_rel w (setPhase i ph (w\<lparr>w_state := st'\<rparr>))"
proof (rule walk_rel_okI[OF ok])
  let ?w' = "setPhase i ph (w\<lparr>w_state := st'\<rparr>)"
  show "tr_ok (heap (w_state w)) (heap (w_state ?w'))" using tr by (simp add: setPhase_def)
  show "rejections ?w' = rejections w" by (simp add: setPhase_def)
  show "length (calls w) \<le> length (calls ?w')" by (simp add: setPhase_def)
  show "c_node (calls ?w' ! j) = c_node (calls w ! j)
                \<and> (c_phase (calls ?w' ! j) = c_phase (calls w ! j)
                    \<or> phase_ok (heap (w_state ?w')) (c_phase (calls ?w' ! j))
                      \<and> (stored (c_phase (calls ?w' ! j))
                           \<longrightarrow> stored (c_phase (calls w ! j))
                               \<or> source (heap (w_state ?w') ! c_node (calls w ! j)) \<noteq> None))"
    if "j < length (calls w)" for j
    using that po src by (cases "j = i") (auto simp: setPhase_def)
  show "c_node (calls ?w' ! j) < length (heap (w_state ?w'))
                \<and> phase_ok (heap (w_state ?w')) (c_phase (calls ?w' ! j))
                \<and> (stored (c_phase (calls ?w' ! j))
                      \<longrightarrow> source (heap (w_state ?w') ! c_node (calls ?w' ! j)) \<noteq> None)"
    if "length (calls w) \<le> j" "j < length (calls ?w')" for j
    using that by (simp add: setPhase_def)
qed

lemma tr_ok_clearAsync: "tr_ok h (upd n (\<lambda>x. x\<lparr>asyncDependencies := []\<rparr>) h)"
proof (rule tr_okI)
  let ?h' = "upd n (\<lambda>x. x\<lparr>asyncDependencies := []\<rparr>) h"
  show "ok_frame h ?h'" by (rule ok_frame_upd) (simp add: ok_node_def keep_node_def src_node_def)
  show "refs_ok ?h'" if r: "refs_ok h"
    by (rule refs_ok_upd[OF r]) (use refs_okD[OF r, of n] in \<open>simp add: node_refs_ok_async\<close>)
  show "edge_symmetry ?h'" if "graph_ok h"
    using that by (intro edge_symmetry_upd_other) (simp_all add: graph_ok_def)
qed

lemma transpileResume_walk_rel:
  assumes rs: "transpileResume k e i w = Some w'" and i: "i < length (calls w)" and ok: "walk_ok w"
  shows "walk_rel w w'"
proof -
  let ?c = "calls w ! i" and ?st = "w_state w"
  let ?n = "c_node ?c"
  note n = walk_okD(1)[OF ok i]
  note refs = walk_okD(3)[OF ok i]
  show ?thesis
  proof (cases "c_phase ?c")
    case (AtLoader ts j inp sm)
    show ?thesis
    proof (cases ts)
      case Nil
      then show ?thesis using rs AtLoader ok by (simp add: transpileResume_def walk_rel_refl)
    next
      case (Cons t ts')
      obtain r st1 where sl: "settleLoader k e ?n t inp ?st = Some (r, st1)"
        using rs AtLoader Cons by (auto simp: transpileResume_def Let_def split: option.splits)
      note s1 = settleLoader_rel[OF sl n]
      show ?thesis
      proof (cases r)
        case (Inl err)
        then have "w' = reject i err (w\<lparr>w_state := st1\<rparr>)"
          using rs AtLoader Cons sl by (simp add: transpileResume_def Let_def)
        then show ?thesis using walk_rel_reject[OF ok _ i, of st1 err] s1 by simp
      next
        case (Inr cs)
        obtain c' sm' where cs: "cs = (c', sm')" by (cases cs)
        obtain ph st2 where nl: "nextLoader e ?n ts' (Suc j) c' sm' st1 = (ph, st2)"
          by (cases "nextLoader e ?n ts' (Suc j) c' sm' st1")
        have w': "w' = setPhase i ph (w\<lparr>w_state := st2\<rparr>)"
          using rs AtLoader Cons sl Inr cs nl by (simp add: transpileResume_def Let_def)
        have t1: "tr_ok (heap ?st) (heap st1)" using s1 Inr by simp
        have n1: "?n < length (heap st1)" using tr_ok_node(3)[OF t1 n] .
        note r2 = nextLoader_rel[OF nl n1]
        have t2: "tr_ok (heap ?st) (heap st2)" using t1 r2(1) by (rule tr_ok_trans)
        have n2: "?n < length (heap st2)" using tr_ok_node(3)[OF t2 n] .
        have refs2: "refs_ok (heap st2)" using tr_ok_refs[OF t2 refs] .
        have po: "phase_ok (heap st2) ph"
        proof (cases ph)
          case (AtDownloads ps)
          have "ps = asyncDependencies (heap st2 ! ?n)"
            using nl AtDownloads by (auto simp: nextLoader_def Let_def split: list.splits)
          then show ?thesis using AtDownloads node_refs_okD(6)[OF refs_okD[OF refs2 n2]]
            by (simp add: phase_ok_def)
        qed (simp_all add: phase_ok_def)
        show ?thesis unfolding w'
          by (rule walk_rel_setPhase[OF ok t2 i po]) (use r2(2) in simp)
      qed
    qed
  next
    case (AtDownloads ps)
    have pr: "\<forall>p\<in>set ps. promise_ok (heap ?st) p"
      using walk_okD(2)[OF ok i] AtDownloads by (simp add: phase_ok_def)
    show ?thesis
    proof (cases ps)
      case (Cons p ps')
      show ?thesis
      proof (cases "settledFirst ps")
        case None
        then show ?thesis using rs AtDownloads Cons ok by (simp add: transpileResume_def walk_rel_refl)
      next
        case (Some qqs)
        obtain q qs where qqs: "qqs = (q, qs)" by (cases qqs)
        let ?st1 = "?st\<lparr>heap := linkDownload ?n q (heap ?st)\<rparr>"
        have w': "w' = setPhase i (AtDownloads qs) (w\<lparr>w_state := ?st1\<rparr>)"
          using rs AtDownloads Cons Some qqs by (simp add: transpileResume_def Let_def)
        note sf = settledFirst_set[OF Some[unfolded qqs]]
        have t1: "tr_ok (heap ?st) (heap ?st1)" using linkDownload_rel[OF n, of q] pr sf by simp
        have po: "phase_ok (heap ?st1) (AtDownloads qs)"
          unfolding phase_ok_def using pr sf promise_ok_mono[OF _ tr_ok_length[OF t1]] by auto
        show ?thesis unfolding w'
          by (rule walk_rel_setPhase[OF ok t1 i po]) (simp add: AtDownloads)
      qed
    next
      case Nil
      let ?h3 = "upd ?n (\<lambda>x. x\<lparr>asyncDependencies := []\<rparr>) (heap ?st)"
      let ?w1 = "w\<lparr>w_state := ?st\<lparr>heap := ?h3\<rparr>\<rparr>"
      have t3: "tr_ok (heap ?st) ?h3" by (rule tr_ok_clearAsync)
      have r1: "walk_rel w ?w1"
      proof (rule walk_rel_okI[OF ok])
        show "tr_ok (heap ?st) (heap (w_state ?w1))" using t3 by simp
      qed simp_all
      have ok1: "walk_ok ?w1" using walk_relD(2)[OF r1] .
      have refs1: "refs_ok (heap (w_state ?w1))" using ok1 by (simp add: walk_ok_def)
      have n1: "?n < length (heap (w_state ?w1))" using tr_ok_node(3)[OF t3 n] by simp
      obtain js1 w2 where e1: "transpileEach e (transpilationInitiators (heap (w_state ?w1) ! ?n)) ?w1 = (js1, w2)"
        by (cases "transpileEach e (transpilationInitiators (heap (w_state ?w1) ! ?n)) ?w1")
      have v1: "\<forall>t\<in>set (transpilationInitiators (heap (w_state ?w1) ! ?n)). t < length (heap (w_state ?w1))"
        using node_refs_okD(4)[OF refs_okD[OF refs1 n1]] by auto
      note r2' = transpileEach_walk_rel[OF e1 ok1 v1]
      have r2: "walk_rel ?w1 w2" using r2' by simp
      have ok2: "walk_ok w2" using walk_relD(2)[OF r2] .
      have refs2: "refs_ok (heap (w_state w2))" using ok2 by (simp add: walk_ok_def)
      have n2: "?n < length (heap (w_state w2))"
        using tr_any_length[OF walk_relD(1)[OF r2]] n1 by simp
      have i2: "i < length (calls w2)" using walk_relD(3)[OF r2] i by simp
      obtain js2 w3 where e2: "transpileEach e (dependencies (heap (w_state w2) ! ?n)) w2 = (js2, w3)"
        by (cases "transpileEach e (dependencies (heap (w_state w2) ! ?n)) w2")
      have v2: "\<forall>t\<in>set (dependencies (heap (w_state w2) ! ?n)). t < length (heap (w_state w2))"
        using node_refs_okD(1)[OF refs_okD[OF refs2 n2]] by auto
      note r3' = transpileEach_walk_rel[OF e2 ok2 v2]
      have r3: "walk_rel w2 w3" using r3' by simp
      have ok3: "walk_ok w3" using walk_relD(2)[OF r3] .
      have i3: "i < length (calls w3)" using walk_relD(3)[OF r3] i2 by simp
      have c2: "calls w2 ! i = ?c" using r2' i by simp
      have c3: "calls w3 ! i = ?c" using r3' i2 c2 by simp
      let ?w4 = "w3\<lparr>calls := (calls w3)[i := ?c\<lparr>c_phase := AtFanout, c_children := js1 @ js2\<rparr>]\<rparr>"
      have w': "w' = ?w4"
        using rs AtDownloads Nil e1 e2 by (simp add: transpileResume_def Let_def)
      have r4: "walk_rel w3 ?w4"
      proof (rule walk_rel_okI[OF ok3])
        show "tr_ok (heap (w_state w3)) (heap (w_state ?w4))" by (simp add: tr_ok_refl)
        show "rejections ?w4 = rejections w3" by simp
        show "length (calls w3) \<le> length (calls ?w4)" by simp
        show "c_node (calls ?w4 ! j) = c_node (calls w3 ! j)
                \<and> (c_phase (calls ?w4 ! j) = c_phase (calls w3 ! j)
                    \<or> phase_ok (heap (w_state ?w4)) (c_phase (calls ?w4 ! j))
                      \<and> (stored (c_phase (calls ?w4 ! j))
                           \<longrightarrow> stored (c_phase (calls w3 ! j))
                               \<or> source (heap (w_state ?w4) ! c_node (calls w3 ! j)) \<noteq> None))"
          if "j < length (calls w3)" for j
          using that c3 AtDownloads by (cases "j = i") (auto simp: phase_ok_def)
        show "c_node (calls ?w4 ! j) < length (heap (w_state ?w4))
                \<and> phase_ok (heap (w_state ?w4)) (c_phase (calls ?w4 ! j))
                \<and> (stored (c_phase (calls ?w4 ! j))
                      \<longrightarrow> source (heap (w_state ?w4) ! c_node (calls ?w4 ! j)) \<noteq> None)"
          if "length (calls w3) \<le> j" "j < length (calls ?w4)" for j
          using that by simp
      qed
      show ?thesis unfolding w'
        by (rule walk_rel_trans[OF walk_rel_trans[OF walk_rel_trans[OF r1 r2] r3] r4])
    qed
  next
    case AtFanout
    show ?thesis
    proof (cases "firstRejection w (c_children ?c)")
      case (Some err)
      then have "w' = reject i err w" using rs AtFanout by (simp add: transpileResume_def Let_def)
      then show ?thesis using walk_rel_reject[OF ok _ i, of "w_state w" err] by (simp add: tr_any_refl)
    next
      case None
      show ?thesis
      proof (cases "list_all (\<lambda>j. isReturned (c_phase (calls w ! j))) (c_children ?c)")
        case True
        then have "w' = setPhase i Returned w"
          using rs AtFanout None by (simp add: transpileResume_def Let_def)
        then show ?thesis
          using walk_rel_setPhase[OF ok _ i, of "w_state w" Returned] AtFanout
          by (simp add: tr_ok_refl phase_ok_def)
      next
        case False
        then show ?thesis using rs AtFanout None ok by (simp add: transpileResume_def Let_def walk_rel_refl)
      qed
    qed
  next
    case Returned
    then show ?thesis using rs ok by (simp add: transpileResume_def walk_rel_refl)
  next
    case (Thrown err)
    then show ?thesis using rs ok by (simp add: transpileResume_def walk_rel_refl)
  qed
qed

lemma wstep_walk_rel:
  assumes "wstep k e mv w = Some w'" "walk_ok w"
  shows "walk_rel w w'"
proof (cases mv)
  case (Call n)
  show ?thesis
  proof (cases "n < length (heap (w_state w))")
    case True
    obtain i w1 where t: "transpile e n w = (i, w1)" by (cases "transpile e n w")
    have "w' = w1" using assms(1) Call t True by (simp add: wstep_def)
    then show ?thesis using transpile_walk_rel(1)[OF t assms(2) True] by simp
  next
    case False
    then show ?thesis using assms Call by (simp add: wstep_def walk_rel_refl)
  qed
next
  case (Resume i)
  show ?thesis
  proof (cases "i < length (calls w)")
    case True
    then show ?thesis using assms(1,2) Resume transpileResume_walk_rel by (simp add: wstep_def)
  next
    case False
    then show ?thesis using assms(1,2) Resume by (simp add: wstep_def walk_rel_refl)
  qed
qed

lemma wrun_Cons:
  "wrun k e (mv # mvs) w = (case wstep k e mv w of None \<Rightarrow> None | Some w1 \<Rightarrow> wrun k e mvs w1)"
  unfolding wrun_def by simp

lemma wrun_Nil: "wrun k e [] w = Some w"
  by (simp add: wrun_def)

lemma wrun_walk_rel:
  "wrun k e mvs w = Some w' \<Longrightarrow> walk_ok w \<Longrightarrow> walk_rel w w'"
proof (induction mvs arbitrary: w)
  case Nil
  then show ?case by (simp add: wrun_Nil walk_rel_refl)
next
  case (Cons mv mvs)
  obtain w1 where s1: "wstep k e mv w = Some w1"
    using Cons.prems(1) by (cases "wstep k e mv w") (simp_all add: wrun_Cons)
  have rest: "wrun k e mvs w1 = Some w'" using Cons.prems(1) s1 by (simp add: wrun_Cons)
  note r1 = wstep_walk_rel[OF s1 Cons.prems(2)]
  have r2: "walk_rel w1 w'" using Cons.IH[OF rest walk_relD(2)[OF r1]] .
  show ?case using r1 r2 by (rule walk_rel_trans)
qed

lemma walk_ok_newWalk: "refs_ok (heap st) \<Longrightarrow> walk_ok (newWalk st)"
  by (simp add: walk_ok_def newWalk_def)

lemma sources_ok_newWalk: "sources_ok (newWalk st)"
  by (simp add: sources_ok_def newWalk_def)

lemma transpile_stored:
  "source (heap (w_state w) ! n) \<noteq> None
   \<Longrightarrow> transpile e n w
       = (length (calls w), w\<lparr>calls := calls w @ [\<lparr>c_node = n, c_phase = Returned, c_children = []\<rparr>]\<rparr>)"
  by (simp add: transpile_def transpileStart_def)

lemma transformerFailure_settle:
  assumes f: "transformerFailure e n t c (heap st) = Some (err0, h1, ws)"
  shows "settleLoader k e n t c st
           = failTranspile k n err0 (st\<lparr>heap := h1, dispatched := dispatched st @ ws\<rparr>)"
proof -
  obtain thrown h' where rc: "runCalls e n (fst (transpiler t c)) (heap st) = (thrown, h')"
    by (cases "runCalls e n (fst (transpiler t c)) (heap st)")
  show ?thesis
  proof (cases thrown)
    case (Some err)
    then show ?thesis using f rc by (auto simp: transformerFailure_def settleLoader_def)
  next
    case None
    show ?thesis
    proof (cases "snd (transpiler t c)")
      case (Raised err)
      then show ?thesis using f rc None by (auto simp: transformerFailure_def settleLoader_def)
    next
      case (Transpiled c' sm')
      then show ?thesis using f rc None
        by (cases "errors (h' ! n)") (auto simp: transformerFailure_def settleLoader_def Let_def)
    qed
  qed
qed

lemma transformerFailure_rel:
  assumes "transformerFailure e n t c h = Some (err0, h1, ws)" "n < length h"
  shows "tr_ok h h1"
proof -
  obtain thrown h' where rc: "runCalls e n (fst (transpiler t c)) h = (thrown, h')"
    by (cases "runCalls e n (fst (transpiler t c)) h")
  have "h1 = h'" using assms(1) rc
    by (auto simp: transformerFailure_def split: option.splits outcome.splits list.splits)
  then show ?thesis using tr_ok_runCalls[OF rc assms(2)] by simp
qed

section \<open>Termination and effect of resetTranspilation\<close>

lemma rt_frame_refl: "rt_frame h h"
  by (simp add: rt_frame_def rt_node_def)

lemma rt_frame_trans: "rt_frame h1 h2 \<Longrightarrow> rt_frame h2 h3 \<Longrightarrow> rt_frame h1 h3"
  by (simp add: rt_frame_def rt_node_def)

lemma rt_frame_forgetTranspilation: "rt_frame h (forgetTranspilation n h)"
  by (simp add: rt_frame_def rt_node_def forgetTranspilation_def Let_def nth_upd
      fold_delete_initiator)

lemma resetTranspilation_Suc:
  "resetTranspilation (Suc k) n h =
     (case (if hmrEnabled (h ! n) = HmrOff
            then forEachM (resetTranspilation k)
                   (filter (\<lambda>t. source (h ! t) \<noteq> None) (transpilationInitiators (h ! n))) h
            else Some h) of
        None \<Rightarrow> None
      | Some h1 \<Rightarrow> Some (forgetTranspilation n h1))"
  by simp

lemma resetTranspilation_rt: "resetTranspilation k n h = Some h' \<Longrightarrow> rt_frame h h'"
proof (induction k arbitrary: n h h')
  case 0
  then show ?case by simp
next
  case (Suc k)
  let ?xs = "filter (\<lambda>t. source (h ! t) \<noteq> None) (transpilationInitiators (h ! n))"
  obtain h1 where h1: "(if hmrEnabled (h ! n) = HmrOff then forEachM (resetTranspilation k) ?xs h else Some h) = Some h1"
    and h': "h' = forgetTranspilation n h1"
    using Suc.prems unfolding resetTranspilation_Suc by (auto split: option.splits)
  have "rt_frame h h1"
  proof (cases "hmrEnabled (h ! n) = HmrOff")
    case True
    then have fe: "forEachM (resetTranspilation k) ?xs h = Some h1" using h1 by simp
    show ?thesis
      by (rule forEachM_inv[OF fe, where I = "rt_frame h"])
         (auto intro: rt_frame_refl rt_frame_trans Suc.IH)
  next
    case False
    then show ?thesis using h1 by (simp add: rt_frame_refl)
  qed
  then show ?case unfolding h' using rt_frame_forgetTranspilation by (rule rt_frame_trans)
qed

lemma ranked_rt_frame:
  assumes rk: "ranked rk n h" and f: "rt_frame h h'" and refs: "refs_ok h"
  shows "ranked rk n h'"
  unfolding ranked_def
proof (intro allI impI ballI)
  fix m t
  assume m: "m < length h'" and lo: "m = n \<or> rk m < rk n" and off: "hmrEnabled (h' ! m) = HmrOff"
    and t: "t \<in> set (transpilationInitiators (h' ! m))" and s: "source (h' ! t) \<noteq> None"
  have m0: "m < length h" using m f by (simp add: rt_frame_def)
  have nm: "rt_node (h ! m) (h' ! m)" using f m0 by (simp add: rt_frame_def)
  have t0: "t \<in> set (transpilationInitiators (h ! m))" using t nm by (simp add: rt_node_def)
  have tl: "t < length h" using node_refs_okD(4)[OF refs_okD[OF refs m0]] t0 by auto
  have "rt_node (h ! t) (h' ! t)" using f tl by (simp add: rt_frame_def)
  then have "source (h ! t) \<noteq> None" using s by (auto simp: rt_node_def)
  moreover have "hmrEnabled (h ! m) = HmrOff" using off nm by (simp add: rt_node_def)
  ultimately show "rk t < rk m" using rk m0 t0 lo by (auto simp: ranked_def)
qed

lemma ranked_down: "ranked rk n h \<Longrightarrow> rk t < rk n \<Longrightarrow> ranked rk t h"
  unfolding ranked_def by (metis order_less_trans)

lemma forEachM_mono:
  assumes "forEachM f xs s = Some s'" "\<And>x s s'. f x s = Some s' \<Longrightarrow> g x s = Some s'"
  shows "forEachM g xs s = Some s'"
  using assms(1)
proof (induction xs arbitrary: s)
  case Nil
  then show ?case by simp
next
  case (Cons x xs)
  then obtain s1 where s1: "f x s = Some s1" "forEachM f xs s1 = Some s'"
    by (auto split: option.splits)
  then show ?case using assms(2)[OF s1(1)] Cons.IH[OF s1(2)] by simp
qed

lemma resetTranspilation_mono_Suc:
  "resetTranspilation k n h = Some h' \<Longrightarrow> resetTranspilation (Suc k) n h = Some h'"
proof (induction k arbitrary: n h h')
  case 0
  then show ?case by simp
next
  case (Suc k)
  let ?xs = "filter (\<lambda>t. source (h ! t) \<noteq> None) (transpilationInitiators (h ! n))"
  obtain h1 where h1: "(if hmrEnabled (h ! n) = HmrOff then forEachM (resetTranspilation k) ?xs h else Some h) = Some h1"
    and h': "h' = forgetTranspilation n h1"
    using Suc.prems unfolding resetTranspilation_Suc by (auto split: option.splits)
  have "(if hmrEnabled (h ! n) = HmrOff then forEachM (resetTranspilation (Suc k)) ?xs h else Some h) = Some h1"
  proof (cases "hmrEnabled (h ! n) = HmrOff")
    case True
    then have "forEachM (resetTranspilation k) ?xs h = Some h1" using h1 by simp
    then have "forEachM (resetTranspilation (Suc k)) ?xs h = Some h1"
      by (rule forEachM_mono) (rule Suc.IH)
    then show ?thesis using True by simp
  next
    case False
    then show ?thesis using h1 by simp
  qed
  then show ?case unfolding resetTranspilation_Suc[of "Suc k"] h' by simp
qed

lemma resetTranspilation_mono:
  assumes "resetTranspilation k n h = Some h'" "k \<le> j"
  shows "resetTranspilation j n h = Some h'"
  using assms(2,1)
proof (induction rule: dec_induct)
  case base
  then show ?case .
next
  case (step i)
  from step.IH[OF step.prems] show ?case by (rule resetTranspilation_mono_Suc)
qed

lemma resetTranspilation_each_terminates:
  assumes each: "\<And>t s. t \<in> set ys \<Longrightarrow> refs_ok s \<Longrightarrow> ranked rk n s \<Longrightarrow> length s = l
                   \<Longrightarrow> \<exists>k s'. resetTranspilation k t s = Some s'"
  shows "refs_ok s \<Longrightarrow> ranked rk n s \<Longrightarrow> length s = l
         \<Longrightarrow> \<exists>k s'. forEachM (resetTranspilation k) ys s = Some s'"
  using each
proof (induction ys arbitrary: s)
  case Nil
  then show ?case by simp
next
  case (Cons y ys)
  obtain k1 s1 where r1: "resetTranspilation k1 y s = Some s1"
    using Cons.prems(4)[of y s] Cons.prems(1,2,3) by auto
  have a1: "refs_ok s1" using resetTranspilation_refs[OF r1 Cons.prems(1)] .
  have a2: "ranked rk n s1"
    using ranked_rt_frame[OF Cons.prems(2) resetTranspilation_rt[OF r1] Cons.prems(1)] .
  have a3: "length s1 = l" using resetTranspilation_frame[OF r1] Cons.prems(3) by simp
  obtain k2 s2 where r2: "forEachM (resetTranspilation k2) ys s1 = Some s2"
    using Cons.IH[OF a1 a2 a3] Cons.prems(4) by auto
  let ?k = "max k1 k2"
  have "resetTranspilation ?k y s = Some s1" using r1 by (rule resetTranspilation_mono) simp
  moreover have "forEachM (resetTranspilation ?k) ys s1 = Some s2"
    using r2 by (rule forEachM_mono) (auto intro: resetTranspilation_mono)
  ultimately have "forEachM (resetTranspilation ?k) (y # ys) s = Some s2" by simp
  then show ?case by blast
qed

lemma resetTranspilation_terminates:
  "refs_ok h \<Longrightarrow> ranked rk n h \<Longrightarrow> n < length h \<Longrightarrow> \<exists>k h'. resetTranspilation k n h = Some h'"
proof (induction "rk n" arbitrary: n h rule: less_induct)
  case less
  show ?case
  proof (cases "hmrEnabled (h ! n) = HmrOff")
    case False
    then have "resetTranspilation (Suc 0) n h = Some (forgetTranspilation n h)"
      unfolding resetTranspilation_Suc by simp
    then show ?thesis by blast
  next
    case True
    let ?xs = "filter (\<lambda>t. source (h ! t) \<noteq> None) (transpilationInitiators (h ! n))"
    have el: "rk t < rk n \<and> t < length h" if "t \<in> set ?xs" for t
      using that less.prems True node_refs_okD(4)[OF refs_okD[OF less.prems(1,3)]]
      by (auto simp: ranked_def)
    have "\<exists>k s'. forEachM (resetTranspilation k) ?xs h = Some s'"
    proof (rule resetTranspilation_each_terminates[where l = "length h" and rk = rk and n = n])
      fix t s assume "t \<in> set ?xs" "refs_ok s" "ranked rk n s" "length s = length h"
      then show "\<exists>k s'. resetTranspilation k t s = Some s'"
        using less.hyps[of t s] el[of t] ranked_down[of rk n s t] by simp
    qed (use less.prems in simp_all)
    then obtain k s' where "forEachM (resetTranspilation k) ?xs h = Some s'" by blast
    then have "resetTranspilation (Suc k) n h = Some (forgetTranspilation n s')"
      unfolding resetTranspilation_Suc using True by simp
    then show ?thesis by blast
  qed
qed

lemma forEachM_reset_sources:
  "forEachM (resetTranspilation k) ys s = Some s' \<Longrightarrow> \<forall>y\<in>set ys. y < length s
     \<Longrightarrow> \<forall>y\<in>set ys. source (s' ! y) = None"
proof (induction ys arbitrary: s)
  case Nil
  then show ?case by simp
next
  case (Cons y ys)
  obtain s1 where r1: "resetTranspilation k y s = Some s1" and r2: "forEachM (resetTranspilation k) ys s1 = Some s'"
    using Cons.prems(1) by (auto split: option.splits)
  have yl: "y < length s" using Cons.prems(2) by simp
  have l1: "length s1 = length s" using resetTranspilation_frame[OF r1] by simp
  have "source (s1 ! y) = None" using resetTranspilation_node[OF r1 yl] by simp
  moreover have f: "rt_frame s1 s'"
    by (rule forEachM_inv[OF r2, where I = "rt_frame s1"])
       (auto intro: rt_frame_refl rt_frame_trans resetTranspilation_rt)
  ultimately have "source (s' ! y) = None" using yl l1 by (auto simp: rt_frame_def rt_node_def)
  moreover have "\<forall>y\<in>set ys. source (s' ! y) = None"
    using Cons.IH[OF r2] Cons.prems(2) l1 by simp
  ultimately show ?case by simp
qed

lemma resetTranspilation_initiators:
  assumes rt: "resetTranspilation k n h = Some h'" and refs: "refs_ok h" and n: "n < length h"
    and off: "hmrEnabled (h ! n) = HmrOff"
  shows "\<forall>t\<in>set (transpilationInitiators (h ! n)). source (h' ! t) = None"
proof
  fix t assume t: "t \<in> set (transpilationInitiators (h ! n))"
  obtain j where k: "k = Suc j" using rt by (cases k) auto
  let ?xs = "filter (\<lambda>t. source (h ! t) \<noteq> None) (transpilationInitiators (h ! n))"
  obtain h1 where fe: "forEachM (resetTranspilation j) ?xs h = Some h1"
    and h': "h' = forgetTranspilation n h1"
    using rt off unfolding k resetTranspilation_Suc by (auto split: option.splits)
  have tl: "t < length h" using node_refs_okD(4)[OF refs_okD[OF refs n]] t by auto
  have v: "\<forall>y\<in>set ?xs. y < length h" using node_refs_okD(4)[OF refs_okD[OF refs n]] by auto
  have f1: "rt_frame h h1"
    by (rule forEachM_inv[OF fe, where I = "rt_frame h"])
       (auto intro: rt_frame_refl rt_frame_trans resetTranspilation_rt)
  have "source (h1 ! t) = None"
  proof (cases "source (h ! t) = None")
    case True
    then show ?thesis using f1 tl by (auto simp: rt_frame_def rt_node_def)
  next
    case False
    then have "t \<in> set ?xs" using t by simp
    then show ?thesis using forEachM_reset_sources[OF fe v] by blast
  qed
  moreover have "t < length h1" using f1 tl by (simp add: rt_frame_def)
  ultimately show "source (h' ! t) = None"
    unfolding h' using rt_frame_forgetTranspilation[of h1 n] by (auto simp: rt_frame_def rt_node_def)
qed

lemma no_initiator_left:
  assumes "edge_symmetry h" "dependencies (h ! n) = []" "d < length h"
  shows "n \<notin> set (initiators (h ! d))"
proof
  assume a: "n \<in> set (initiators (h ! d))"
  have ps: "pair_sym dependencies initiators h" using assms(1) by (simp add: edge_symmetry_def)
  from pair_symD2[OF ps assms(3) a] assms(2) show False by simp
qed

lemma resetTranspilation_det:
  assumes "resetTranspilation k n h = Some a" "resetTranspilation j n h = Some b"
  shows "a = b"
proof -
  have "resetTranspilation (max k j) n h = Some a" using assms(1) by (rule resetTranspilation_mono) simp
  moreover have "resetTranspilation (max k j) n h = Some b" using assms(2) by (rule resetTranspilation_mono) simp
  ultimately show ?thesis by simp
qed

section \<open>Properties of the compile-request queue\<close>

lemma run_snoc: "run (evs @ [ev]) = step (run evs) ev"
  by (simp add: run_def)

lemma pipeline_invariant:
  "length (tasks (run evs)) \<le> 1 \<and> length (inFlight (run evs)) \<le> 1 \<and>
   (inFlight (run evs) \<noteq> [] \<longrightarrow> runningTask (run evs)) \<and>
   (\<not> runningTask (run evs) \<longrightarrow> tasks (run evs) = [])"
proof (induction evs rule: rev_induct)
  case Nil
  then show ?case by (simp add: run_def initialPipeline_def)
next
  case (snoc ev evs)
  then show ?case
    by (cases ev; cases "tasks (run evs)"; cases "inFlight (run evs)")
       (auto simp: run_snoc queueTask_def executeTaskIfAvailable_def Let_def split: list.splits if_splits)
qed

section \<open>The example graphs, computed\<close>

lemma ex_refs_fresh: "refs_ok (heap exFresh) \<and> 0 < length (heap exFresh)"
  by (simp add: exFresh_def exState_def refs_ok_def node_refs_ok_def newTranspiledModule_def
      less_Suc_eq)

lemma ex_graph_transpiled:
  "graph_ok (heap exTranspiled) \<and> noHmr (heap exTranspiled) \<and> 0 < length (heap exTranspiled)"
  by (simp add: exTranspiled_def exState_def graph_ok_def refs_ok_def node_refs_ok_def
      edge_symmetry_def pair_sym_def noHmr_def newTranspiledModule_def less_Suc_eq)

lemma ex_graph_fresh:
  "graph_ok (heap exFresh) \<and> noHmr (heap exFresh) \<and> 0 < length (heap exFresh)"
  by (simp add: exFresh_def exState_def graph_ok_def refs_ok_def node_refs_ok_def
      edge_symmetry_def pair_sym_def noHmr_def newTranspiledModule_def less_Suc_eq)

lemma ex_graph_cached:
  "graph_ok (heap exCached) \<and> source_inv (heap exCached) \<and> 0 < length (heap exCached)"
  by (simp add: exCached_def exCachedNode_def exState_def graph_ok_def refs_ok_def node_refs_ok_def
      edge_symmetry_def pair_sym_def source_inv_def newTranspiledModule_def)

lemma ex_resetTranspilation:
  "resetTranspilation (Suc 0) 0 (heap exTranspiled) = Some exReset"
  by (simp add: exTranspiled_def exReset_def exState_def forgetTranspilation_def
      delete_initiator_def set_delete_def upd_def newTranspiledModule_def)

lemma ex_resetCompilation:
  "resetCompilation (Suc 0) 0 (heap exTranspiled) = Some (heap exTranspiled)"
  by (simp add: exTranspiled_def exState_def newTranspiledModule_def)

lemma ex_reset:
  "reset (Suc (Suc 0)) 0 (heap exTranspiled) = Some exResetAll"
  by (simp add: exTranspiled_def exResetAll_def exState_def forgetTranspilation_def
      delete_initiator_def set_delete_def upd_def newTranspiledModule_def setIsEntry_def)

lemma ex_update:
  "update (Suc (Suc 0)) 0 exModuleA (heap exTranspiled) = Some exResetAll"
  by (simp add: update_def exTranspiled_def exResetAll_def exState_def forgetTranspilation_def
      delete_initiator_def set_delete_def upd_def newTranspiledModule_def setIsEntry_def)

lemma ex_evaluate_cached:
  "evaluate (Suc 0) exEnv 0 [] exCached = Some (Inr [(''a'', Num 1)], exCached)"
  by (simp add: evaluateBody_def exCached_def exCachedNode_def exState_def newTranspiledModule_def
      exportsOf_def)

lemma ex_hmr_reset:
  "hmrEnabled (exHmrGraph ! 0) \<noteq> HmrOff
   \<and> upd 0 (\<lambda>x. x\<lparr>dependencies := [], asyncDependencies := []\<rparr>)
       (upd 0 (\<lambda>x. x\<lparr>source := None, errors := [], warnings := []\<rparr>) exHmrGraph) = exHmrReset"
  by (simp add: exHmrGraph_def exHmrReset_def upd_def newTranspiledModule_def)

lemma ex_loader_cached:
  "source_inv (heap exLoaderCached) \<and> refs_ok (heap exLoaderCached)
   \<and> 0 < length (heap exLoaderCached) \<and> 1 < length (heap exLoaderCached)"
  by (simp add: exLoaderCached_def exCachedNode_def exState_def source_inv_def refs_ok_def
      node_refs_ok_def newTranspiledModule_def less_Suc_eq)

lemma ex_source_inv:
  "source_inv (heap exCached) \<and> source_inv (heap exThrowing) \<and> source_inv (heap exFresh)
   \<and> 0 < length (heap exCached) \<and> 0 < length (heap exThrowing)
   \<and> hmrEnabled (heap exCached ! 0) = HmrOff"
  by (simp add: exCached_def exCachedNode_def exThrowing_def exFresh_def exState_def
      source_inv_def newTranspiledModule_def less_Suc_eq)

lemma ex_reset_cached:
  "resetTranspilation (Suc 0) 0 (heap exCached) = Some (heap exStale)
   \<and> reset (Suc (Suc 0)) 0 (heap exCached)
       = Some [(newTranspiledModule exModuleA [])\<lparr>emittedAssets := Some []\<rparr>]
   \<and> update (Suc (Suc 0)) 0 exModuleB (heap exCached)
       = Some [(newTranspiledModule exModuleB [])\<lparr>emittedAssets := Some []\<rparr>]
   \<and> resetCompilation (Suc 0) 0 (heap exCached) = Some [exCachedNode\<lparr>compilation := None\<rparr>]"
  by (simp add: exCached_def exStale_def exCachedNode_def exState_def update_def
      forgetTranspilation_def upd_def newTranspiledModule_def setIsEntry_def)

lemma ex_evaluate_throwing:
  "evaluate (Suc 0) exEnv 0 [] exThrowing
     = Some (Inl ((mkError ''boom'')\<lparr>err_tModule := Some 0\<rparr>), exThrown)"
  by (simp add: evaluateBody_def exThrowing_def exThrown_def exState_def newTranspiledModule_def
        exSource_def exEnv_def exParse_def sourceURL_def initCompilation_def upd_def
        setExport_def tagModule_def mkError_def exModuleC_def)

lemmas walk_simps = wrun_def wstep_def transpile_def transpileStart_def transpileResume_def
  nextLoader_def settleLoader_def storeSource_def clearDependencies_def failTranspile_def
  setPhase_def reject_def firstRejection_def isReturned_def newWalk_def

lemmas ex_env_simps = exEnv_def exTranspiler_def exResolve_def exModuleA_def exModuleB_def exModuleC_def
  newTranspiledModule_def exState_def addDependency_def startsWith_def resolveTranspiledModule_def
  addTranspiledModule_def add_dependency_def upd_def set_add_def Let_def sourceURL_def upt_rec
  exSource_def mkError_def

lemmas ex4_simps = exEnv4_def exTranspiler4_def exResolve4_def exModuleD_def exModuleE_def exLoader4_def

lemma ex_walk: "wrun (Suc 0) exEnv [Call 0, Resume 0, Resume 0, Resume 1, Resume 1, Resume 1, Resume 0]
    (newWalk exFresh) = Some exWalkDone"
  by (simp add: walk_simps ex_env_simps exFresh_def exWalkDone_def exAfterTranspile_def exTranspiled_def)

lemma ex_walk_failed:
  "wrun (Suc (Suc 0)) exEnv [Call 0, Resume 0] (newWalk exLoaderCached) = Some exWalkFailed"
  by (simp add: walk_simps ex_env_simps exLoaderCached_def exWalkFailed_def exLoaderStale_def
      exCachedNode_def exSyntaxError_def forgetTranspilation_def)

lemma ex_twice:
  "map_option (\<lambda>w. transformerRuns (w_state w)) (wrun 0 exEnv [Call 0, Call 0] (newWalk exFresh))
     = Some [(0, 0), (0, 0)]"
  by (simp add: walk_simps ex_env_simps exFresh_def)

lemma ex_diamond:
  "map_option (\<lambda>w. transformerRuns (w_state w))
     (wrun 0 exEnv4 [Call 0, Resume 0, Resume 0, Resume 1, Resume 2, Resume 1, Resume 2]
        (newWalk exDiamond))
     = Some [(0, 0), (1, 0), (2, 0), (3, 0), (3, 0)]"
  by (simp add: walk_simps ex_env_simps ex4_simps exDiamond_def)

lemma ex_broken1:
  "map_option (\<lambda>w. (map c_phase (calls w), transformerRuns (w_state w)))
     (wrun (Suc 0) exEnv4 [Call 0, Resume 0, Resume 0, Resume 2, Resume 0] (newWalk exBroken))
     = Some ([Thrown exSyntaxError2, AtLoader [exLoader4] 0 ''B'' None, Thrown exSyntaxError2],
             [(0, 0), (1, 0), (2, 0)])"
  by (simp add: walk_simps ex_env_simps ex4_simps exBroken_def exSyntaxError2_def
      forgetTranspilation_def)

lemma ex_broken2:
  "map_option (\<lambda>w. transformerRuns (w_state w))
     (wrun (Suc 0) exEnv4 [Call 0, Resume 0, Resume 0, Resume 2, Resume 0, Resume 1, Resume 1]
        (newWalk exBroken))
     = Some [(0, 0), (1, 0), (2, 0), (3, 0)]"
  by (simp add: walk_simps ex_env_simps ex4_simps exBroken_def forgetTranspilation_def)

lemma ex_graph_loader: "graph_ok (heap exLoaderCached) \<and> noHmr (heap exLoaderCached)"
  by (simp add: exLoaderCached_def exCachedNode_def exState_def graph_ok_def refs_ok_def
      node_refs_ok_def edge_symmetry_def pair_sym_def noHmr_def newTranspiledModule_def less_Suc_eq)

lemma ex_awaiting:
  "wrun (Suc 0) exEnv4 [Call 0, Resume 0, Resume 0, Resume 2] (newWalk exBroken) = Some exAwaiting"
  by (simp add: walk_simps ex_env_simps ex4_simps exBroken_def exAwaiting_def exSyntaxError2_def
      forgetTranspilation_def)

lemma ex_busy_call:
  "wrun 0 exEnv4 [Call 0] (newWalk ((w_state exBusy)\<lparr>transformerRuns := []\<rparr>)) = Some exBusy"
  by (simp add: walk_simps ex_env_simps ex4_simps exBusy_def exCachedNode_def)

lemma ex_busy_failure:
  "transformerFailure exEnv4 0 exLoader4 ''E'' (heap (w_state exBusy))
     = Some (mkError ''bad import'', exBusyHeap, [''unused''])"
  by (simp add: transformerFailure_def ex_env_simps ex4_simps exBusy_def exBusyHeap_def exCachedNode_def)

lemma ex_busy_reset:
  "resetTranspilation (Suc (Suc 0)) 0 exBusyHeap = Some (heap (w_state exBusyFailed))"
  by (simp add: exBusyHeap_def exBusyFailed_def exCachedNode_def ex_env_simps ex4_simps
      forgetTranspilation_def delete_initiator_def set_delete_def)

lemma ex_busy_ok:
  "walk_ok exBusy \<and> ranked (\<lambda>m. if m = 0 then Suc 0 else 0) 0 exBusyHeap \<and> graph_ok exBusyHeap
   \<and> noHmr exBusyHeap \<and> hmrEnabled (exBusyHeap ! 0) = HmrOff"
  by (simp add: walk_ok_def phase_ok_def ranked_def graph_ok_def refs_ok_def node_refs_ok_def
      edge_symmetry_def pair_sym_def noHmr_def exBusy_def exBusyHeap_def exCachedNode_def
      exState_def newTranspiledModule_def less_Suc_eq)

lemma ex_busy_result:
  "reject 0 ((mkError ''bad import'')\<lparr>err_fileName := Some (path (module (heap (w_state exBusy) ! 0))),
                                        err_tModule := Some 0\<rparr>)
     (exBusy\<lparr>w_state := (w_state exBusy)\<lparr>heap := heap (w_state exBusyFailed),
                dispatched := dispatched (w_state exBusy) @ [''unused'']\<rparr>\<rparr>) = exBusyFailed"
  by (simp add: reject_def setPhase_def exBusy_def exBusyFailed_def exState_def newTranspiledModule_def
      exModuleE_def)

lemma ex_cycle_none: "resetTranspilation k n (heap exCycle) = None" if "n < 3" for k n
  using that
proof (induction k arbitrary: n)
  case 0
  then show ?case by simp
next
  case (Suc k)
  have c: "n = 0 \<or> n = 1 \<or> n = 2" using Suc.prems by auto
  have "forEachM (resetTranspilation k)
          (filter (\<lambda>t. source (heap exCycle ! t) \<noteq> None) (transpilationInitiators (heap exCycle ! n)))
          (heap exCycle) = None"
    using c Suc.IH[of 0] Suc.IH[of 1]
    by (auto simp: exCycle_def exState_def newTranspiledModule_def)
  moreover have "hmrEnabled (heap exCycle ! n) = HmrOff"
    using c by (auto simp: exCycle_def exState_def newTranspiledModule_def)
  ultimately show ?case unfolding resetTranspilation_Suc by simp
qed

lemma ex_cycle_start:
  "transpileStart exEnv 2 exCycle
     = (AtLoader [\<lparr>transpiler = exTranspiler, cacheable = True\<rparr>] 0 ''C'' None,
        exCycle\<lparr>transformerRuns := [(2, 0)]\<rparr>)"
  by (simp add: transpileStart_def nextLoader_def clearDependencies_def exCycle_def ex_env_simps)

lemma ex_cycle_failure:
  "transformerFailure exEnv 2 \<lparr>transpiler = exTranspiler, cacheable = True\<rparr> ''C'' (heap exCycle)
     = Some (mkError ''syntax error'', heap exCycle, [])"
  by (simp add: transformerFailure_def exTranspiler_def)

lemma ex_cycle_run: "wrun k exEnv [Call 2, Resume 0] (newWalk exCycle) = None"
proof -
  let ?t = "\<lparr>transpiler = exTranspiler, cacheable = True\<rparr>"
  let ?st1 = "exCycle\<lparr>transformerRuns := [(2, 0)]\<rparr>"
  let ?w1 = "\<lparr>w_state = ?st1, calls = [\<lparr>c_node = 2, c_phase = AtLoader [?t] 0 ''C'' None, c_children = []\<rparr>],
              rejections = []\<rparr>"
  have len: "2 < length (heap exCycle)" by (simp add: exCycle_def exState_def)
  have s1: "wstep k exEnv (Call 2) (newWalk exCycle) = Some ?w1"
    by (simp add: wstep_def transpile_def newWalk_def ex_cycle_start len)
  have f: "transformerFailure exEnv 2 ?t ''C'' (heap ?st1) = Some (mkError ''syntax error'', heap exCycle, [])"
    using ex_cycle_failure by simp
  have "settleLoader k exEnv 2 ?t ''C'' ?st1 = None"
    unfolding transformerFailure_settle[OF f] by (simp add: failTranspile_def ex_cycle_none)
  then have s2: "wstep k exEnv (Resume 0) ?w1 = None"
    by (simp add: wstep_def transpileResume_def)
  show ?thesis unfolding wrun_Cons s1 by (simp add: s2 wrun_Cons)
qed

lemma ex_cycle_ok: "graph_ok (heap exCycle) \<and> noHmr (heap exCycle) \<and> source_inv (heap exCycle)"
  by (simp add: graph_ok_def refs_ok_def node_refs_ok_def edge_symmetry_def pair_sym_def noHmr_def
      source_inv_def exCycle_def exState_def newTranspiledModule_def less_Suc_eq)

text \<open>
  Claim C1. Both edge pairs are symmetric, and every reference is a node, after
  \<^verbatim>\<open>resetCompilation\<close>, after \<^verbatim>\<open>evaluate\<close>, after each linking operation of the loader
  context and after calls of \<^verbatim>\<open>transpile\<close> of which none has thrown, whenever they were
  before; and after \<^verbatim>\<open>resetTranspilation\<close>, \<^verbatim>\<open>reset\<close>, \<^verbatim>\<open>update\<close> and calls of \<^verbatim>\<open>transpile\<close>
  that threw, on a graph on which no node has \<open>hmrEnabled\<close> set. For \<^verbatim>\<open>transpile\<close> this
  holds at every moment of a walk, whatever calls are made and in whatever order their
  stretches run. On a node with \<open>hmrEnabled\<close>
  set \<^verbatim>\<open>resetTranspilation\<close> empties the node's \<open>dependencies\<close> and leaves the \<open>initiators\<close>
  of every other node as they are: that is the counterexample, where \<^verbatim>\<open>/b.js\<close> keeps
  \<^verbatim>\<open>/a.js\<close> as an initiator and \<^verbatim>\<open>/a.js\<close> has no dependency left. The graph that \<^verbatim>\<open>load\<close>
  restores is not symmetric either, since it leaves \<open>transpilationInitiators\<close> empty.
\<close>

theorem edge_symmetry_preserved:
  "(graph_ok h \<and> noHmr h \<and> n < length h \<and> resetTranspilation k n h = Some h' \<longrightarrow> graph_ok h')
   \<and> (graph_ok h \<and> resetCompilation k n h = Some h' \<longrightarrow> graph_ok h')
   \<and> (graph_ok h \<and> noHmr h \<and> n < length h \<and> reset k n h = Some h' \<longrightarrow> graph_ok h')
   \<and> (graph_ok h \<and> noHmr h \<and> n < length h \<and> update k n m h = Some h' \<longrightarrow> graph_ok h')
   \<and> (graph_ok h \<and> n < length h
        \<longrightarrow> graph_ok (snd (emitModule e n p c d h)) \<and> graph_ok (snd (addDependency e n p a h))
          \<and> graph_ok (snd (addTranspilationDependency e n p a h))
          \<and> graph_ok (snd (addDependenciesInDirectory e n p a h)))
   \<and> (graph_ok (heap st) \<and> wrun k e mvs (newWalk st) = Some w
        \<and> (noHmr (heap st) \<or> rejections w = []) \<longrightarrow> graph_ok (heap (w_state w)))
   \<and> (graph_ok (heap st) \<and> n < length (heap st) \<and> evaluate k e n ps st = Some (r', st')
        \<longrightarrow> graph_ok (heap st'))
   \<and> (hmrEnabled (h ! n) \<noteq> HmrOff
        \<longrightarrow> resetTranspilation (Suc k) n h
            = Some (upd n (\<lambda>x. x\<lparr>dependencies := [], asyncDependencies := []\<rparr>)
                     (upd n (\<lambda>x. x\<lparr>source := None, errors := [], warnings := []\<rparr>) h)))"
proof (intro conjI impI)
  assume "graph_ok h \<and> noHmr h \<and> n < length h \<and> resetTranspilation k n h = Some h'"
  then show "graph_ok h'" using resetTranspilation_graph[of k n h h'] by simp
next
  assume "graph_ok h \<and> resetCompilation k n h = Some h'"
  then show "graph_ok h'" using rc_frame_graph[OF resetCompilation_frame, of k n h h'] by simp
next
  assume "graph_ok h \<and> noHmr h \<and> n < length h \<and> reset k n h = Some h'"
  then show "graph_ok h'" using reset_graph[of k n h h'] by simp
next
  assume "graph_ok h \<and> noHmr h \<and> n < length h \<and> update k n m h = Some h'"
  then show "graph_ok h'" using update_graph[of k n m h h'] by simp
next
  assume a: "graph_ok h \<and> n < length h"
  show "graph_ok (snd (emitModule e n p c d h))"
    using tr_ok_emitModule[of e n p c d h] a by (cases "emitModule e n p c d h") (simp add: tr_ok_def)
  show "graph_ok (snd (addDependency e n p a h))"
    using tr_ok_addDependency[of e n p a h] a by (cases "addDependency e n p a h") (simp add: tr_ok_def)
  show "graph_ok (snd (addTranspilationDependency e n p a h))"
    using tr_ok_addTranspilationDependency[of e n p a h] a
    by (cases "addTranspilationDependency e n p a h") (simp add: tr_ok_def)
  show "graph_ok (snd (addDependenciesInDirectory e n p a h))"
    using tr_ok_addDependenciesInDirectory[of e n p a h] a
    by (cases "addDependenciesInDirectory e n p a h") (simp add: tr_ok_def)
next
  assume a: "graph_ok (heap st) \<and> wrun k e mvs (newWalk st) = Some w
        \<and> (noHmr (heap st) \<or> rejections w = [])"
  then have ok: "walk_ok (newWalk st)" by (simp add: walk_ok_newWalk graph_ok_def)
  have st: "w_state (newWalk st) = st" "rejections (newWalk st) = []" by (simp_all add: newWalk_def)
  have r: "walk_rel (newWalk st) w" using a wrun_walk_rel[OF _ ok, of k e mvs w] by (simp add: st)
  have "tr_any (heap st) (heap (w_state w))" using walk_relD(1)[OF r] by (simp add: st)
  moreover have "tr_ok (heap st) (heap (w_state w))" if "rejections w = []"
    using walk_relD(4)[OF r] that by (simp add: st)
  ultimately show "graph_ok (heap (w_state w))" using a by (auto simp: tr_any_def tr_ok_def)
next
  assume "graph_ok (heap st) \<and> n < length (heap st) \<and> evaluate k e n ps st = Some (r', st')"
  then show "graph_ok (heap st')" using evaluate_graph[of k e n ps st r' st'] by simp
next
  assume "hmrEnabled (h ! n) \<noteq> HmrOff"
  then show "resetTranspilation (Suc k) n h
            = Some (upd n (\<lambda>x. x\<lparr>dependencies := [], asyncDependencies := []\<rparr>)
                     (upd n (\<lambda>x. x\<lparr>source := None, errors := [], warnings := []\<rparr>) h))"
    by (simp add: forgetTranspilation_hmr)
qed

theorem edge_symmetry_preserved_witness:
  "resetTranspilation (Suc 0) 0 (heap exTranspiled) = Some exReset \<and> graph_ok exReset
   \<and> resetCompilation (Suc 0) 0 (heap exTranspiled) = Some (heap exTranspiled)
   \<and> graph_ok (heap exTranspiled)
   \<and> reset (Suc (Suc 0)) 0 (heap exTranspiled) = Some exResetAll
   \<and> update (Suc (Suc 0)) 0 exModuleA (heap exTranspiled) = Some exResetAll
   \<and> graph_ok exResetAll
   \<and> graph_ok (snd (emitModule exEnv 0 ''b.js'' ''B'' None (heap exFresh)))
   \<and> graph_ok (snd (addDependency exEnv 0 ''./b'' False (heap exFresh)))
   \<and> graph_ok (snd (addTranspilationDependency exEnv 0 ''./b'' False (heap exFresh)))
   \<and> graph_ok (snd (addDependenciesInDirectory exEnv 0 ''./'' False (heap exFresh)))
   \<and> wrun (Suc 0) exEnv [Call 0, Resume 0, Resume 0, Resume 1, Resume 1, Resume 1, Resume 0]
         (newWalk exFresh) = Some exWalkDone
   \<and> graph_ok (heap (w_state exWalkDone))
   \<and> wrun (Suc (Suc 0)) exEnv [Call 0, Resume 0] (newWalk exLoaderCached) = Some exWalkFailed
   \<and> graph_ok (heap (w_state exWalkFailed))
   \<and> evaluate (Suc 0) exEnv 0 [] exCached = Some (Inr [(''a'', Num 1)], exCached)
   \<and> graph_ok (heap exCached)
   \<and> resetTranspilation (Suc 0) 0 exHmrGraph = Some exHmrReset"
proof -
  note T = edge_symmetry_preserved[where h = "heap exTranspiled" and n = 0 and k = "Suc 0"
      and h' = exReset]
  note c1 = T[THEN conjunct1]
  have g1: "graph_ok exReset"
    using c1 ex_graph_transpiled ex_resetTranspilation by blast
  note U = edge_symmetry_preserved[where h = "heap exTranspiled" and n = 0 and k = "Suc (Suc 0)"
      and h' = exResetAll and m = exModuleA]
  have g3: "graph_ok exResetAll"
    using U[THEN conjunct2, THEN conjunct2, THEN conjunct1] ex_graph_transpiled ex_reset by blast
  have g4: "graph_ok exResetAll"
    using U[THEN conjunct2, THEN conjunct2, THEN conjunct2, THEN conjunct1] ex_graph_transpiled
      ex_update by blast
  note V = edge_symmetry_preserved[where h = "heap exTranspiled" and n = 0 and k = "Suc 0"
      and h' = "heap exTranspiled"]
  have g2: "graph_ok (heap exTranspiled)"
    using V[THEN conjunct2, THEN conjunct1] ex_graph_transpiled ex_resetCompilation by blast
  note W1 = edge_symmetry_preserved[where h = "heap exFresh" and n = 0 and e = exEnv
      and p = "''b.js''" and c = "''B''" and d = None and a = False]
  note W2 = edge_symmetry_preserved[where h = "heap exFresh" and n = 0 and e = exEnv
      and p = "''./b''" and a = False]
  note W3 = edge_symmetry_preserved[where h = "heap exFresh" and n = 0 and e = exEnv
      and p = "''./''" and a = False]
  have g5: "graph_ok (snd (emitModule exEnv 0 ''b.js'' ''B'' None (heap exFresh)))
      \<and> graph_ok (snd (addDependency exEnv 0 ''./b'' False (heap exFresh)))
      \<and> graph_ok (snd (addTranspilationDependency exEnv 0 ''./b'' False (heap exFresh)))
      \<and> graph_ok (snd (addDependenciesInDirectory exEnv 0 ''./'' False (heap exFresh)))"
    using W1[THEN conjunct2, THEN conjunct2, THEN conjunct2, THEN conjunct2, THEN conjunct1]
      W2[THEN conjunct2, THEN conjunct2, THEN conjunct2, THEN conjunct2, THEN conjunct1]
      W3[THEN conjunct2, THEN conjunct2, THEN conjunct2, THEN conjunct2, THEN conjunct1]
      ex_graph_fresh by blast
  note W = edge_symmetry_preserved[where st = exFresh and e = exEnv and k = "Suc 0"
      and mvs = "[Call 0, Resume 0, Resume 0, Resume 1, Resume 1, Resume 1, Resume 0]"
      and w = exWalkDone]
  have m6: "rejections exWalkDone = []" by (simp add: exWalkDone_def)
  have g6: "graph_ok (heap (w_state exWalkDone))"
    using W[THEN conjunct2, THEN conjunct2, THEN conjunct2, THEN conjunct2, THEN conjunct2,
        THEN conjunct1] ex_graph_fresh ex_walk m6 by blast
  note W' = edge_symmetry_preserved[where st = exLoaderCached and e = exEnv and k = "Suc (Suc 0)"
      and mvs = "[Call 0, Resume 0]" and w = exWalkFailed]
  have g6': "graph_ok (heap (w_state exWalkFailed))"
    using W'[THEN conjunct2, THEN conjunct2, THEN conjunct2, THEN conjunct2, THEN conjunct2,
        THEN conjunct1] ex_graph_loader ex_walk_failed by blast
  note X = edge_symmetry_preserved[where st = exCached and n = 0 and k = "Suc 0" and e = exEnv
      and ps = "[]" and r' = "Inr [(''a'', Num 1)]" and st' = exCached]
  have g7: "graph_ok (heap exCached)"
    using X[THEN conjunct2, THEN conjunct2, THEN conjunct2, THEN conjunct2, THEN conjunct2,
        THEN conjunct2, THEN conjunct1] ex_graph_cached ex_evaluate_cached by blast
  note Y = edge_symmetry_preserved[where h = exHmrGraph and n = 0 and k = 0]
  have g8: "resetTranspilation (Suc 0) 0 exHmrGraph = Some exHmrReset"
    using Y[THEN conjunct2, THEN conjunct2, THEN conjunct2, THEN conjunct2, THEN conjunct2,
        THEN conjunct2, THEN conjunct2] ex_hmr_reset by simp
  show ?thesis
    using g1 g2 g3 g5 g6 g6' g7 g8 ex_resetTranspilation ex_resetCompilation ex_reset ex_update
      ex_walk ex_walk_failed ex_evaluate_cached by blast
qed

theorem edge_symmetry_preserved_counterexample:
  "graph_ok exHmrGraph
   \<and> resetTranspilation (Suc 0) 0 exHmrGraph = Some exHmrReset
   \<and> dependencies (exHmrReset ! 0) = [] \<and> initiators (exHmrReset ! 1) = [0]
   \<and> \<not> edge_symmetry exHmrReset
   \<and> graph_ok exLoaderGraph
   \<and> deserialize (serializeGraph exLoaderGraph) = ([], exLoaderRestored)
   \<and> \<not> edge_symmetry exLoaderRestored"
proof -
  have a: "graph_ok exHmrGraph \<and> graph_ok exLoaderGraph"
    by (simp add: exHmrGraph_def exLoaderGraph_def graph_ok_def refs_ok_def node_refs_ok_def
        edge_symmetry_def pair_sym_def newTranspiledModule_def less_Suc_eq)
  have b: "resetTranspilation (Suc 0) 0 exHmrGraph = Some exHmrReset"
    by (simp add: exHmrGraph_def exHmrReset_def forgetTranspilation_def upd_def
        newTranspiledModule_def)
  have c: "dependencies (exHmrReset ! 0) = [] \<and> initiators (exHmrReset ! 1) = [0]
      \<and> \<not> edge_symmetry exHmrReset"
    by (simp add: exHmrReset_def edge_symmetry_def pair_sym_def newTranspiledModule_def
        less_Suc_eq ex_disj_distrib conj_disj_distribR)
  have d: "deserialize (serializeGraph exLoaderGraph) = ([], exLoaderRestored)"
    by (simp add: exLoaderGraph_def exLoaderRestored_def serializeGraph_def deserialize_def
      serialize_def runCallbacks_def load_def lookupIds_def missingIds_def List.map_filter_def
      getId_def upd_def set_add_def newTranspiledModule_def exModuleA_def exModuleB_def upt_rec)
  have e: "\<not> edge_symmetry exLoaderRestored"
    by (simp add: exLoaderRestored_def edge_symmetry_def pair_sym_def newTranspiledModule_def
        less_Suc_eq ex_disj_distrib conj_disj_distribR)
  show ?thesis using a b c d e by blast
qed

text \<open>
  Claim C2. \<^verbatim>\<open>resetTranspilation\<close> clears the \<open>source\<close> of its node and changes no
  \<open>compilation\<close>, and no call of \<^verbatim>\<open>transpile\<close> changes a \<open>compilation\<close>, whether it returns
  or throws. \<^verbatim>\<open>reset\<close> and \<^verbatim>\<open>update\<close> leave their node, when its \<open>hmrEnabled\<close> is unset,
  without source and without compilation. That a node without source has no compilation
  is kept by \<^verbatim>\<open>resetCompilation\<close>, by \<^verbatim>\<open>evaluate\<close> and by calls of \<^verbatim>\<open>transpile\<close>, however
  their stretches interleave, while none has thrown. It is not kept by the error path of \<^verbatim>\<open>transpile\<close>: the reset of the failed node
  also resets every transpiled node that has it as a compile-time dependency, and such a
  node keeps its compilation. That is the counterexample, where the transpile of
  \<^verbatim>\<open>/c.js\<close> fails and the evaluated \<^verbatim>\<open>/a.js\<close> loses its source.
\<close>

theorem source_invariant:
  "(n < length h \<and> resetTranspilation k n h = Some h'
      \<longrightarrow> source (h' ! n) = None \<and> (\<forall>m<length h. compilation (h' ! m) = compilation (h ! m)))
   \<and> (n < length h \<and> hmrEnabled (h ! n) = HmrOff \<and> reset k n h = Some h'
      \<longrightarrow> source (h' ! n) = None \<and> compilation (h' ! n) = None)
   \<and> (n < length h \<and> hmrEnabled (h ! n) = HmrOff \<and> update k n m h = Some h'
      \<longrightarrow> source (h' ! n) = None \<and> compilation (h' ! n) = None)
   \<and> (source_inv h \<and> resetCompilation k n h = Some h' \<longrightarrow> source_inv h')
   \<and> (source_inv (heap st) \<and> n < length (heap st) \<and> evaluate k e n ps st = Some (r', st')
      \<longrightarrow> source_inv (heap st'))
   \<and> (source_inv (heap st) \<and> refs_ok (heap st)
        \<and> wrun k e mvs (newWalk st) = Some w \<and> rejections w = []
      \<longrightarrow> source_inv (heap (w_state w)))
   \<and> (refs_ok (heap st) \<and> wrun k e mvs (newWalk st) = Some w
      \<longrightarrow> (\<forall>m<length (heap st). compilation (heap (w_state w) ! m) = compilation (heap st ! m)))"
proof (intro conjI impI allI)
  assume a: "n < length h \<and> resetTranspilation k n h = Some h'"
  then show "source (h' ! n) = None" using resetTranspilation_node[of k n h h'] by simp
  fix m assume "m < length h"
  then show "compilation (h' ! m) = compilation (h ! m)"
    using a resetTranspilation_frame[of k n h h'] tr_frame_compilation[of h h' m] by simp
next
  assume a: "n < length h \<and> hmrEnabled (h ! n) = HmrOff \<and> reset k n h = Some h'"
  then show "source (h' ! n) = None" "compilation (h' ! n) = None"
    using reset_node[of k n h h'] by simp_all
next
  assume a: "n < length h \<and> hmrEnabled (h ! n) = HmrOff \<and> update k n m h = Some h'"
  then show "source (h' ! n) = None" "compilation (h' ! n) = None"
    using update_node[of k n m h h'] by simp_all
next
  assume "source_inv h \<and> resetCompilation k n h = Some h'"
  then show "source_inv h'" using rc_frame_source_inv[OF resetCompilation_frame, of k n h h'] by simp
next
  assume "source_inv (heap st) \<and> n < length (heap st) \<and> evaluate k e n ps st = Some (r', st')"
  then show "source_inv (heap st')" using evaluate_source_inv[of k e n ps st r' st'] by simp
next
  assume a: "source_inv (heap st) \<and> refs_ok (heap st)
        \<and> wrun k e mvs (newWalk st) = Some w \<and> rejections w = []"
  then have ok: "walk_ok (newWalk st)" by (simp add: walk_ok_newWalk)
  have st: "w_state (newWalk st) = st" "rejections (newWalk st) = []" by (simp_all add: newWalk_def)
  have r: "walk_rel (newWalk st) w" using a wrun_walk_rel[OF _ ok, of k e mvs w] by (simp add: st)
  have "tr_ok (heap st) (heap (w_state w))" using walk_relD(4)[OF r] a by (simp add: st)
  then show "source_inv (heap (w_state w))" using a by (auto simp: tr_ok_def intro: ok_frame_source_inv)
next
  fix m
  assume a: "refs_ok (heap st) \<and> wrun k e mvs (newWalk st) = Some w"
    and m: "m < length (heap st)"
  then have ok: "walk_ok (newWalk st)" by (simp add: walk_ok_newWalk)
  have st: "w_state (newWalk st) = st" by (simp add: newWalk_def)
  have r: "walk_rel (newWalk st) w" using a wrun_walk_rel[OF _ ok, of k e mvs w] by (simp add: st)
  have "tr_frame (heap st) (heap (w_state w))" using walk_relD(1)[OF r] by (simp add: st tr_any_def)
  then show "compilation (heap (w_state w) ! m) = compilation (heap st ! m)"
    using m by (rule tr_frame_compilation)
qed

theorem source_invariant_witness:
  "resetTranspilation (Suc 0) 0 (heap exCached) = Some (heap exStale)
   \<and> source (heap exStale ! 0) = None
   \<and> compilation (heap exStale ! 0) = compilation (heap exCached ! 0)
   \<and> reset (Suc (Suc 0)) 0 (heap exCached)
       = Some [(newTranspiledModule exModuleA [])\<lparr>emittedAssets := Some []\<rparr>]
   \<and> source ([(newTranspiledModule exModuleA [])\<lparr>emittedAssets := Some []\<rparr>] ! 0) = None
   \<and> compilation ([(newTranspiledModule exModuleA [])\<lparr>emittedAssets := Some []\<rparr>] ! 0) = None
   \<and> update (Suc (Suc 0)) 0 exModuleB (heap exCached)
       = Some [(newTranspiledModule exModuleB [])\<lparr>emittedAssets := Some []\<rparr>]
   \<and> source ([(newTranspiledModule exModuleB [])\<lparr>emittedAssets := Some []\<rparr>] ! 0) = None
   \<and> compilation ([(newTranspiledModule exModuleB [])\<lparr>emittedAssets := Some []\<rparr>] ! 0) = None
   \<and> resetCompilation (Suc 0) 0 (heap exCached) = Some [exCachedNode\<lparr>compilation := None\<rparr>]
   \<and> source_inv [exCachedNode\<lparr>compilation := None\<rparr>]
   \<and> evaluate (Suc 0) exEnv 0 [] exThrowing
       = Some (Inl ((mkError ''boom'')\<lparr>err_tModule := Some 0\<rparr>), exThrown)
   \<and> source_inv (heap exThrown)
   \<and> wrun (Suc 0) exEnv [Call 0, Resume 0, Resume 0, Resume 1, Resume 1, Resume 1, Resume 0]
         (newWalk exFresh) = Some exWalkDone
   \<and> source_inv (heap (w_state exWalkDone))
   \<and> wrun (Suc (Suc 0)) exEnv [Call 0, Resume 0] (newWalk exLoaderCached) = Some exWalkFailed
   \<and> compilation (heap (w_state exWalkFailed) ! 1) = compilation (heap exLoaderCached ! 1)"
proof -
  note A = source_invariant[where h = "heap exCached" and n = 0 and k = "Suc 0"
      and h' = "heap exStale"]
  have g1: "source (heap exStale ! 0) = None
      \<and> compilation (heap exStale ! 0) = compilation (heap exCached ! 0)"
    using A[THEN conjunct1] ex_source_inv ex_reset_cached by blast
  note B = source_invariant[where h = "heap exCached" and n = 0 and k = "Suc (Suc 0)"
      and h' = "[(newTranspiledModule exModuleA [])\<lparr>emittedAssets := Some []\<rparr>]"]
  have g2: "source ([(newTranspiledModule exModuleA [])\<lparr>emittedAssets := Some []\<rparr>] ! 0) = None
      \<and> compilation ([(newTranspiledModule exModuleA [])\<lparr>emittedAssets := Some []\<rparr>] ! 0) = None"
    using B[THEN conjunct2, THEN conjunct1] ex_source_inv ex_reset_cached by blast
  note C = source_invariant[where h = "heap exCached" and n = 0 and k = "Suc (Suc 0)"
      and m = exModuleB
      and h' = "[(newTranspiledModule exModuleB [])\<lparr>emittedAssets := Some []\<rparr>]"]
  have g3: "source ([(newTranspiledModule exModuleB [])\<lparr>emittedAssets := Some []\<rparr>] ! 0) = None
      \<and> compilation ([(newTranspiledModule exModuleB [])\<lparr>emittedAssets := Some []\<rparr>] ! 0) = None"
    using C[THEN conjunct2, THEN conjunct2, THEN conjunct1] ex_source_inv ex_reset_cached by blast
  note D = source_invariant[where h = "heap exCached" and n = 0 and k = "Suc 0"
      and h' = "[exCachedNode\<lparr>compilation := None\<rparr>]"]
  have g4: "source_inv [exCachedNode\<lparr>compilation := None\<rparr>]"
    using D[THEN conjunct2, THEN conjunct2, THEN conjunct2, THEN conjunct1] ex_source_inv
      ex_reset_cached by blast
  note E = source_invariant[where st = exThrowing and n = 0 and k = "Suc 0" and e = exEnv
      and ps = "[]" and r' = "Inl ((mkError ''boom'')\<lparr>err_tModule := Some 0\<rparr>)"
      and st' = exThrown]
  have g5: "source_inv (heap exThrown)"
    using E[THEN conjunct2, THEN conjunct2, THEN conjunct2, THEN conjunct2, THEN conjunct1]
      ex_source_inv ex_evaluate_throwing by blast
  note F = source_invariant[where st = exFresh and e = exEnv and k = "Suc 0"
      and mvs = "[Call 0, Resume 0, Resume 0, Resume 1, Resume 1, Resume 1, Resume 0]"
      and w = exWalkDone]
  have m6: "rejections exWalkDone = []" by (simp add: exWalkDone_def)
  have g6: "source_inv (heap (w_state exWalkDone))"
    using F[THEN conjunct2, THEN conjunct2, THEN conjunct2, THEN conjunct2, THEN conjunct2,
        THEN conjunct1] ex_source_inv ex_refs_fresh ex_walk m6 by blast
  note G = source_invariant[where st = exLoaderCached and e = exEnv and k = "Suc (Suc 0)"
      and mvs = "[Call 0, Resume 0]" and w = exWalkFailed]
  have g7: "compilation (heap (w_state exWalkFailed) ! 1) = compilation (heap exLoaderCached ! 1)"
    using G[THEN conjunct2, THEN conjunct2, THEN conjunct2, THEN conjunct2, THEN conjunct2,
        THEN conjunct2] ex_loader_cached ex_walk_failed by blast
  show ?thesis
    using g1 g2 g3 g4 g5 g6 g7 ex_reset_cached ex_evaluate_throwing ex_walk
      ex_walk_failed by blast
qed

theorem source_invariant_counterexample:
  "source_inv (heap exLoaderCached)
   \<and> wrun (Suc (Suc 0)) exEnv [Call 0, Resume 0] (newWalk exLoaderCached) = Some exWalkFailed
   \<and> c_phase (calls exWalkFailed ! 0) = Thrown exSyntaxError
   \<and> source (heap (w_state exWalkFailed) ! 1) = None
   \<and> compilation (heap (w_state exWalkFailed) ! 1) = Some \<lparr>exports = [(''a'', Num 1)]\<rparr>
   \<and> \<not> source_inv (heap (w_state exWalkFailed))"
proof -
  have a: "source (heap (w_state exWalkFailed) ! 1) = None
      \<and> compilation (heap (w_state exWalkFailed) ! 1) = Some \<lparr>exports = [(''a'', Num 1)]\<rparr>
      \<and> c_phase (calls exWalkFailed ! 0) = Thrown exSyntaxError"
    by (simp add: exWalkFailed_def exLoaderStale_def exCachedNode_def exState_def)
  have b: "1 < length (heap (w_state exWalkFailed))"
    by (simp add: exWalkFailed_def exLoaderStale_def exState_def)
  have c: "\<not> source_inv (heap (w_state exWalkFailed))"
    unfolding source_inv_def using a b by auto
  show ?thesis using a c ex_loader_cached ex_walk_failed by blast
qed

text \<open>
  Claim C5, as amended. On a node that has been transpiled (\<open>source\<close> is set), with a
  compilation record and \<open>changed\<close> unset, \<^verbatim>\<open>evaluate\<close> returns the exports of the record
  and changes nothing: the result needs no nested call (depth 1 suffices) and is the same
  for every unit and every resolver. A node entered again while its unit runs is in that
  case, so on a graph, cyclic or not, on which no node has \<open>changed\<close> set, \<^verbatim>\<open>evaluate\<close>
  returns on every node. Without the source the call raises, whatever the record: that is
  the counterexample, reached by \<^verbatim>\<open>resetTranspilation\<close> on an evaluated node.
\<close>

theorem evaluate_cached:
  "(source (heap st ! n) \<noteq> None \<and> compilation (heap st ! n) \<noteq> None \<and> \<not> changed (heap st ! n)
      \<longrightarrow> evaluate (Suc k) e n ps st = Some (Inr (exportsOf n st), st))
   \<and> (unchanged_all (heap st) \<and> n < length (heap st)
      \<longrightarrow> (\<exists>j r st'. evaluate j e n ps st = Some (r, st')))"
proof (intro conjI impI)
  assume "source (heap st ! n) \<noteq> None \<and> compilation (heap st ! n) \<noteq> None \<and> \<not> changed (heap st ! n)"
  then show "evaluate (Suc k) e n ps st = Some (Inr (exportsOf n st), st)"
    by (auto simp: evaluateBody_def)
next
  assume "unchanged_all (heap st) \<and> n < length (heap st)"
  then show "\<exists>j r st'. evaluate j e n ps st = Some (r, st')"
    by (simp add: evaluate_terminates_settled)
qed

lemma ex_simps:
  "heap (exState h) = h" "webpackHMR (exState h) = False" "reloads (exState h) = []"
  by (simp_all add: exState_def)

theorem evaluate_cached_witness:
  "evaluate (Suc 0) exEnv 0 [] exCached = Some (Inr [(''a'', Num 1)], exCached)
   \<and> unchanged_all (heap exTranspiled) \<and> 0 < length (heap exTranspiled)
   \<and> (\<exists>j r st'. evaluate j exEnv 0 [] exTranspiled = Some (r, st'))"
proof -
  have a: "source (heap exCached ! 0) \<noteq> None \<and> compilation (heap exCached ! 0) \<noteq> None
           \<and> \<not> changed (heap exCached ! 0)"
    by (simp add: exCached_def exCachedNode_def ex_simps newTranspiledModule_def)
  have b: "unchanged_all (heap exTranspiled) \<and> 0 < length (heap exTranspiled)"
    by (simp add: exTranspiled_def ex_simps unchanged_all_def newTranspiledModule_def less_Suc_eq)
  have c: "exportsOf 0 exCached = [(''a'', Num 1)]"
    by (simp add: exportsOf_def exCached_def exCachedNode_def ex_simps newTranspiledModule_def)
  from evaluate_cached[of exCached 0 0 exEnv "[]"] a c
       evaluate_cached[of exTranspiled 0 0 exEnv "[]"] b
  show ?thesis by simp
qed

theorem evaluate_cached_counterexample:
  "resetTranspilation (Suc 0) 0 (heap exCached) = Some (heap exStale)
   \<and> compilation (heap exStale ! 0) \<noteq> None \<and> \<not> changed (heap exStale ! 0)
   \<and> evaluate (Suc 0) exEnv 0 [] exStale = Some (Inl (notTranspiledError exModuleA), exStale)"
  by (simp add: exStale_def exCached_def exCachedNode_def ex_simps newTranspiledModule_def
      evaluateBody_def upd_def forgetTranspilation_def)

lemma evaluateBody_own_reload:
  assumes "evaluateBody ev e n ps st = Some (r, st')" "n < length (heap st)"
    and ev: "\<And>t ps s r s'. ev t ps s = Some (r, s') \<Longrightarrow> t < length (heap s) \<Longrightarrow> ev_rel s s'"
    and nc: "\<not> (source (heap st ! n) \<noteq> None \<and> webpackHMR st \<and> compilation (heap st ! n) = None
               \<and> isEntry (heap st ! n) \<and> hmrEnabled (heap st ! n) = HmrOff)"
  shows "n \<notin> set (newReloads st st')"
proof (cases "source (heap st ! n)")
  case None
  then show ?thesis using assms(1) by (auto simp: evaluateBody_def newReloads_def)
next
  case (Some src)
  show ?thesis
  proof (cases "compilation (heap st ! n) \<noteq> None \<and> \<not> changed (heap st ! n)")
    case True
    then show ?thesis using assms(1) Some nc by (auto simp: evaluateBody_def newReloads_def)
  next
    case False
    let ?req = "requireFn ev e n (module (heap st ! n)) ps"
    let ?st1 = "initCompilation n st"
    have r1: "reloads ?st1 = reloads st" by (simp add: initCompilation_def split: option.splits)
    have c1: "compilation (heap ?st1 ! n) \<noteq> None"
      using assms(2) by (auto simp: initCompilation_def nth_upd split: option.splits)
    have req: "\<And>p s r s'. ?req p s = Some (r, s') \<Longrightarrow> ev_rel s s'"
      by (rule ev_rel_require[where ev = ev]) (auto intro: ev)
    obtain r2 st2 where ev2: "evaluator ?req e n (parseUnit e (compiledCode src)) ?st1 = Some (r2, st2)"
      using assms(1) Some nc False by (auto simp: evaluateBody_def split: option.splits)
    have s2: "ev_rel ?st1 st2" using ev_rel_evaluator[OF ev2 req] by simp
    have "reloads st' = reloads st2"
      using assms(1) Some nc False ev2
      by (cases r2) (auto simp: evaluateBody_def runAcceptHook_def split: hmr.splits)
    then have "newReloads st st' = newReloads ?st1 st2" by (simp add: newReloads_def r1)
    moreover have "n \<notin> set (newReloads ?st1 st2)"
      using ev_relD(3)[OF s2, of n] c1 by (auto simp: reload_ok_def)
    ultimately show ?thesis by simp
  qed
qed

text \<open>
  Claim C7, as amended. A call of \<^verbatim>\<open>evaluate\<close> on node \<open>n\<close> requests a reload, and
  returns the empty export record, when the node has been transpiled, the manager's HMR
  flag is set, and the node is an entry without compilation and without \<open>hmrEnabled\<close>.
  In every other case the call requests no reload for \<open>n\<close>: the log of reloads gains no
  entry of \<open>n\<close>, whatever nested calls on other nodes add. On an entry that has not been
  transpiled the call raises before it looks at the flag: that is the counterexample.
\<close>

theorem evaluate_reload:
  "(source (heap st ! n) \<noteq> None \<and> webpackHMR st \<and> compilation (heap st ! n) = None
      \<and> isEntry (heap st ! n) \<and> hmrEnabled (heap st ! n) = HmrOff
      \<longrightarrow> evaluate (Suc k) e n ps st = Some (Inr [], st\<lparr>reloads := reloads st @ [n]\<rparr>))
   \<and> (n < length (heap st) \<and> evaluate j e n ps st = Some (r, st')
       \<and> \<not> (source (heap st ! n) \<noteq> None \<and> webpackHMR st \<and> compilation (heap st ! n) = None
             \<and> isEntry (heap st ! n) \<and> hmrEnabled (heap st ! n) = HmrOff)
      \<longrightarrow> n \<notin> set (newReloads st st'))"
proof (intro conjI impI)
  assume "source (heap st ! n) \<noteq> None \<and> webpackHMR st \<and> compilation (heap st ! n) = None
      \<and> isEntry (heap st ! n) \<and> hmrEnabled (heap st ! n) = HmrOff"
  then show "evaluate (Suc k) e n ps st = Some (Inr [], st\<lparr>reloads := reloads st @ [n]\<rparr>)"
    by (auto simp: evaluateBody_def)
next
  assume a: "n < length (heap st) \<and> evaluate j e n ps st = Some (r, st')
       \<and> \<not> (source (heap st ! n) \<noteq> None \<and> webpackHMR st \<and> compilation (heap st ! n) = None
             \<and> isEntry (heap st ! n) \<and> hmrEnabled (heap st ! n) = HmrOff)"
  then obtain i where j: "j = Suc i" by (cases j) auto
  with a have body: "evaluateBody (evaluate i e) e n ps st = Some (r, st')" by simp
  from a have n: "n < length (heap st)" by simp
  from a have nc: "\<not> (source (heap st ! n) \<noteq> None \<and> webpackHMR st \<and> compilation (heap st ! n) = None
             \<and> isEntry (heap st ! n) \<and> hmrEnabled (heap st ! n) = HmrOff)" by simp
  show "n \<notin> set (newReloads st st')"
    by (rule evaluateBody_own_reload[OF body n _ nc]) (auto intro: ev_rel_evaluate)
qed

theorem evaluate_reload_witness:
  "evaluate (Suc 0) exEnv 0 [] exEntry = Some (Inr [], exEntry\<lparr>reloads := reloads exEntry @ [0]\<rparr>)
   \<and> evaluate (Suc 0) exEnv 0 [] exCached = Some (Inr [(''a'', Num 1)], exCached)
   \<and> 0 \<notin> set (newReloads exCached exCached)"
proof -
  have a: "source (heap exEntry ! 0) \<noteq> None \<and> webpackHMR exEntry \<and> compilation (heap exEntry ! 0) = None
      \<and> isEntry (heap exEntry ! 0) \<and> hmrEnabled (heap exEntry ! 0) = HmrOff"
    by (simp add: exEntry_def exState_def newTranspiledModule_def)
  have b: "evaluate (Suc 0) exEnv 0 [] exCached = Some (Inr [(''a'', Num 1)], exCached)"
    by (simp add: evaluateBody_def exportsOf_def exCached_def exCachedNode_def exState_def
        newTranspiledModule_def)
  have c: "0 < length (heap exCached) \<and> compilation (heap exCached ! 0) \<noteq> None"
    by (simp add: exCached_def exCachedNode_def exState_def newTranspiledModule_def)
  from evaluate_reload[where st = exEntry and n = 0 and k = 0 and e = exEnv and ps = "[]"] a
       evaluate_reload[where st = exCached and n = 0 and j = "Suc 0" and e = exEnv and ps = "[]"
         and r = "Inr [(''a'', Num 1)]" and st' = exCached] b c
  show ?thesis by simp
qed

theorem evaluate_reload_counterexample:
  "webpackHMR exEntryUntranspiled \<and> isEntry (heap exEntryUntranspiled ! 0)
   \<and> compilation (heap exEntryUntranspiled ! 0) = None
   \<and> hmrEnabled (heap exEntryUntranspiled ! 0) = HmrOff
   \<and> evaluate (Suc 0) exEnv 0 [] exEntryUntranspiled
       = Some (Inl (notTranspiledError exModuleA), exEntryUntranspiled)
   \<and> reloads exEntryUntranspiled = []"
  by (simp add: exEntryUntranspiled_def exState_def newTranspiledModule_def evaluateBody_def)



text \<open>
  Claim C3, on the graph that breaks it: a graph with one compile-time edge, from
  \<^verbatim>\<open>/a.js\<close> to \<^verbatim>\<open>/b.js\<close>. \<^verbatim>\<open>serialize\<close> writes \<^verbatim>\<open>transpilationInitiators\<close>; \<^verbatim>\<open>load\<close>
  restores the other three edge sets and not this one, so the graph that comes back has
  the edge on one side only.
\<close>

theorem roundtrip_drops_transpilationInitiators:
  "transpilationDependencies (exLoaderGraph ! 0) = [1]
   \<and> transpilationInitiators (exLoaderGraph ! 1) = [0]
   \<and> deserialize (serializeGraph exLoaderGraph) = ([], exLoaderRestored)
   \<and> transpilationDependencies (exLoaderRestored ! 0) = [1]
   \<and> transpilationInitiators (exLoaderRestored ! 1) = []"
  by (simp add: exLoaderGraph_def exLoaderRestored_def serializeGraph_def deserialize_def
      serialize_def runCallbacks_def load_def lookupIds_def missingIds_def List.map_filter_def
      getId_def upd_def set_add_def newTranspiledModule_def exModuleA_def exModuleB_def upt_rec)

text \<open>
  Claim C8, on the input that breaks it. The record that \<^verbatim>\<open>serialize\<close> returns has an
  empty \<^verbatim>\<open>asyncDependencies\<close>, whatever the node holds: the ids are pushed by callbacks that
  run after the return. Once they have run, the field holds the ids of the resolved
  targets.
\<close>

theorem serialize_returns_no_asyncDependencies:
  "s_asyncDependencies (fst (serialize h n)) = []
   \<and> s_asyncDependencies (runCallbacks (serialize h n)) = thenCallbacks h (asyncDependencies (h ! n))
   \<and> asyncDependencies (exPending ! 0) = [Resolved 1]
   \<and> s_asyncDependencies (fst (serialize exPending 0)) = []
   \<and> s_asyncDependencies (runCallbacks (serialize exPending 0)) = [''/b.js:'']"
  by (simp add: serialize_def runCallbacks_def Let_def exPending_def getId_def
      newTranspiledModule_def exModuleB_def)

text \<open>
  Claim C9. After every sequence of requests and settlements the array \<^verbatim>\<open>tasks\<close> holds at
  most one task and at most one compile run is in flight; a request that arrives while a
  run is in flight replaces the pending task and starts nothing.
\<close>

theorem pipeline_single_slot:
  "length (tasks (run evs)) \<le> 1 \<and> length (inFlight (run evs)) \<le> 1
   \<and> (inFlight (run evs) \<noteq> []
        \<longrightarrow> step (run evs) (Request d) = (run evs)\<lparr>tasks := [d]\<rparr>)"
proof -
  have "step (run evs) (Request d) = (run evs)\<lparr>tasks := [d]\<rparr>" if "inFlight (run evs) \<noteq> []"
  proof -
    have r: "runningTask (run evs)" using pipeline_invariant[of evs] that by simp
    have "length (tasks (run evs)) \<le> 1" using pipeline_invariant[of evs] by simp
    then have "(case tasks (run evs) of [] \<Rightarrow> [d] | x # xs \<Rightarrow> d # xs) = [d]"
      by (cases "tasks (run evs)") auto
    then show ?thesis using r by (simp add: queueTask_def Let_def)
  qed
  then show ?thesis using pipeline_invariant[of evs] by simp
qed

theorem pipeline_single_slot_witness:
  "inFlight (run [Request ''first'', Request ''second'']) = [''first'']
   \<and> tasks (run [Request ''first'', Request ''second'']) = [''second'']
   \<and> step (run [Request ''first'', Request ''second'']) (Request ''third'')
       = \<lparr>tasks = [''third''], runningTask = True, inFlight = [''first''], started = [''first'']\<rparr>"
proof -
  have a: "run [Request ''first'', Request ''second'']
             = \<lparr>tasks = [''second''], runningTask = True, inFlight = [''first''],
                 started = [''first'']\<rparr>"
    by (simp add: run_def initialPipeline_def queueTask_def executeTaskIfAvailable_def Let_def)
  from pipeline_single_slot[of "[Request ''first'', Request ''second'']" "''third''"] show ?thesis
    by (simp add: a)
qed

text \<open>
  Claim C4. A call of \<^verbatim>\<open>transpile\<close> on a node whose \<open>source\<close> is set returns at once: it
  joins the walk as a call that has returned, and the state, with the log of transformer
  runs and the node, is as before. In a walk in which no call has thrown the node of a
  call that has returned has its source, so a further call on it does nothing. A call
  made before an earlier call on the node has stored the source runs the loader chain
  again: that is the counterexample, two calls on \<^verbatim>\<open>/a.js\<close> in a row, and one call on
  \<^verbatim>\<open>/a.js\<close> whose walk reaches \<^verbatim>\<open>/d.js\<close> through \<^verbatim>\<open>/b.js\<close> and through \<^verbatim>\<open>/c.js\<close>.
\<close>

theorem transpile_idempotent:
  "(source (heap (w_state w) ! n) \<noteq> None
      \<longrightarrow> transpile e n w
          = (length (calls w),
             w\<lparr>calls := calls w @ [\<lparr>c_node = n, c_phase = Returned, c_children = []\<rparr>]\<rparr>))
   \<and> (refs_ok (heap st) \<and> wrun k e mvs (newWalk st) = Some w
        \<and> rejections w = [] \<and> i < length (calls w) \<and> c_phase (calls w ! i) = Returned
      \<longrightarrow> source (heap (w_state w) ! c_node (calls w ! i)) \<noteq> None
        \<and> transpile e (c_node (calls w ! i)) w
            = (length (calls w),
               w\<lparr>calls := calls w @ [\<lparr>c_node = c_node (calls w ! i), c_phase = Returned,
                                      c_children = []\<rparr>]\<rparr>))"
proof (intro conjI impI)
  assume "source (heap (w_state w) ! n) \<noteq> None"
  then show "transpile e n w
          = (length (calls w),
             w\<lparr>calls := calls w @ [\<lparr>c_node = n, c_phase = Returned, c_children = []\<rparr>]\<rparr>)"
    by (rule transpile_stored)
next
  assume a: "refs_ok (heap st) \<and> wrun k e mvs (newWalk st) = Some w
        \<and> rejections w = [] \<and> i < length (calls w) \<and> c_phase (calls w ! i) = Returned"
  then have ok: "walk_ok (newWalk st)" by (simp add: walk_ok_newWalk)
  have st: "w_state (newWalk st) = st" "rejections (newWalk st) = []" by (simp_all add: newWalk_def)
  have r: "walk_rel (newWalk st) w" using a wrun_walk_rel[OF _ ok, of k e mvs w] by (simp add: st)
  have "sources_ok w" using walk_relD(5)[OF r] a sources_ok_newWalk by (simp add: st)
  then show s: "source (heap (w_state w) ! c_node (calls w ! i)) \<noteq> None"
    using a by (simp add: sources_ok_def)
  then show "transpile e (c_node (calls w ! i)) w
            = (length (calls w),
               w\<lparr>calls := calls w @ [\<lparr>c_node = c_node (calls w ! i), c_phase = Returned,
                                      c_children = []\<rparr>]\<rparr>)"
    by (rule transpile_stored)
qed

theorem transpile_idempotent_witness:
  "transpile exEnv 0 (newWalk exTranspiled)
     = (0, (newWalk exTranspiled)\<lparr>calls := [\<lparr>c_node = 0, c_phase = Returned, c_children = []\<rparr>]\<rparr>)
   \<and> wrun (Suc 0) exEnv [Call 0, Resume 0, Resume 0, Resume 1, Resume 1, Resume 1, Resume 0]
         (newWalk exFresh) = Some exWalkDone
   \<and> transformerRuns (w_state exWalkDone) = [(0, 0), (1, 0)]
   \<and> source (heap (w_state exWalkDone) ! 0) \<noteq> None
   \<and> transpile exEnv 0 exWalkDone
       = (3, exWalkDone\<lparr>calls := calls exWalkDone @ [\<lparr>c_node = 0, c_phase = Returned, c_children = []\<rparr>]\<rparr>)"
proof -
  have a: "source (heap (w_state (newWalk exTranspiled)) ! 0) \<noteq> None
      \<and> length (calls (newWalk exTranspiled)) = 0 \<and> calls (newWalk exTranspiled) = []"
    by (simp add: newWalk_def exTranspiled_def exState_def)
  have b: "transformerRuns (w_state exWalkDone) = [(0, 0), (1, 0)]
      \<and> rejections exWalkDone = [] \<and> 0 < length (calls exWalkDone)
      \<and> c_phase (calls exWalkDone ! 0) = Returned \<and> c_node (calls exWalkDone ! 0) = 0
      \<and> length (calls exWalkDone) = 3"
    by (simp add: exWalkDone_def exAfterTranspile_def)
  note A = transpile_idempotent[where w = "newWalk exTranspiled" and n = 0 and e = exEnv,
      THEN conjunct1]
  note B = transpile_idempotent[where st = exFresh and e = exEnv and k = "Suc 0"
      and mvs = "[Call 0, Resume 0, Resume 0, Resume 1, Resume 1, Resume 1, Resume 0]"
      and w = exWalkDone and i = 0, THEN conjunct2]
  have c: "transpile exEnv 0 (newWalk exTranspiled)
     = (0, (newWalk exTranspiled)\<lparr>calls := [\<lparr>c_node = 0, c_phase = Returned, c_children = []\<rparr>]\<rparr>)"
    using A a by simp
  have d: "source (heap (w_state exWalkDone) ! 0) \<noteq> None
   \<and> transpile exEnv 0 exWalkDone
       = (3, exWalkDone\<lparr>calls := calls exWalkDone @ [\<lparr>c_node = 0, c_phase = Returned, c_children = []\<rparr>]\<rparr>)"
    using B ex_refs_fresh ex_walk b by simp
  show ?thesis using b c d ex_walk by blast
qed

theorem transpile_idempotent_counterexample:
  "source (heap exFresh ! 0) = None
   \<and> map_option (\<lambda>w. transformerRuns (w_state w)) (wrun 0 exEnv [Call 0, Call 0] (newWalk exFresh))
       = Some [(0, 0), (0, 0)]
   \<and> map_option (\<lambda>w. transformerRuns (w_state w))
       (wrun 0 exEnv4 [Call 0, Resume 0, Resume 0, Resume 1, Resume 2, Resume 1, Resume 2]
          (newWalk exDiamond))
       = Some [(0, 0), (1, 0), (2, 0), (3, 0), (3, 0)]"
proof -
  have "source (heap exFresh ! 0) = None"
    by (simp add: exFresh_def exState_def newTranspiledModule_def)
  then show ?thesis using ex_twice ex_diamond by blast
qed

text \<open>
  Claim C6. A call awaits a transformer of its loader chain, at any position, and the
  transformer fails. When the edges that the reset follows from the node form no cycle,
  the reset returns, and the stretch ends with the call rejected with the error, tagged
  with \<open>fileName\<close>, the node's path, and \<open>tModule\<close>, the node. No later transformer of the
  chain is called and the call starts no call on a dependency. The node is left without
  source, diagnostics, dependencies and pending downloads. While its \<open>hmrEnabled\<close> is
  unset its transpilation initiators are left without source, and on a symmetric graph
  on which no node has \<open>hmrEnabled\<close> set no node keeps it as an initiator. A call that
  awaits the rejected one is rejected with the same error when that is the first of its
  fan-out to be rejected. The other calls of the walk are as they were and go on. On a
  cycle of transpiled transpilation initiators the reset does not return, for any bound
  on its depth, so the tagged error is not rethrown; and after the call on \<^verbatim>\<open>/a.js\<close> was
  rejected with the error of \<^verbatim>\<open>/c.js\<close>, the call on \<^verbatim>\<open>/b.js\<close> that it had started goes on
  to transform \<^verbatim>\<open>/d.js\<close>: these are the counterexample.
\<close>

theorem transpile_error:
  "(i < length (calls w) \<and> walk_ok w \<and> c_node (calls w ! i) = n
      \<and> c_phase (calls w ! i) = AtLoader (t # ts) j c sm
      \<and> transformerFailure e n t c (heap (w_state w)) = Some (err0, h1, ws) \<and> ranked rk n h1
     \<longrightarrow> (\<exists>k h2. resetTranspilation k n h1 = Some h2
            \<and> transpileResume k e i w
                = Some (reject i (err0\<lparr>err_fileName := Some (path (module (heap (w_state w) ! n))),
                                        err_tModule := Some n\<rparr>)
                         (w\<lparr>w_state := (w_state w)\<lparr>heap := h2,
                                dispatched := dispatched (w_state w) @ ws\<rparr>\<rparr>))
            \<and> source (h2 ! n) = None \<and> errors (h2 ! n) = [] \<and> warnings (h2 ! n) = []
            \<and> dependencies (h2 ! n) = [] \<and> asyncDependencies (h2 ! n) = []
            \<and> (hmrEnabled (h1 ! n) = HmrOff
                 \<longrightarrow> (\<forall>u\<in>set (transpilationInitiators (h1 ! n)). source (h2 ! u) = None))
            \<and> (graph_ok h1 \<and> noHmr h1
                 \<longrightarrow> graph_ok h2 \<and> (\<forall>d<length h2. n \<notin> set (initiators (h2 ! d))))))
   \<and> (i < length (calls w) \<and> c_phase (calls w ! i) = AtFanout
      \<and> find (\<lambda>x. x \<in> set (c_children (calls w ! i))) (rejections w) = Some x
      \<and> c_phase (calls w ! x) = Thrown err
     \<longrightarrow> transpileResume k' e i w = Some (reject i err w))"
proof (intro conjI impI)
  assume a: "i < length (calls w) \<and> walk_ok w \<and> c_node (calls w ! i) = n
      \<and> c_phase (calls w ! i) = AtLoader (t # ts) j c sm
      \<and> transformerFailure e n t c (heap (w_state w)) = Some (err0, h1, ws) \<and> ranked rk n h1"
  let ?st = "w_state w"
  have i: "i < length (calls w)" and ok: "walk_ok w" using a by simp_all
  have n: "n < length (heap ?st)" using walk_okD(1)[OF ok i] a by simp
  have refs: "refs_ok (heap ?st)" using ok by (simp add: walk_ok_def)
  have f: "transformerFailure e n t c (heap ?st) = Some (err0, h1, ws)" using a by simp
  note t1 = transformerFailure_rel[OF f n]
  have n1: "n < length h1" and m1: "module (h1 ! n) = module (heap ?st ! n)"
    using tr_ok_node(1,3)[OF t1 n] by simp_all
  have refs1: "refs_ok h1" using tr_ok_refs[OF t1 refs] .
  obtain k h2 where rt: "resetTranspilation k n h1 = Some h2"
    using resetTranspilation_terminates[OF refs1 _ n1, of rk] a by blast
  let ?err = "err0\<lparr>err_fileName := Some (path (module (heap ?st ! n))), err_tModule := Some n\<rparr>"
  let ?st2 = "?st\<lparr>heap := h2, dispatched := dispatched ?st @ ws\<rparr>"
  have "settleLoader k e n t c ?st = Some (Inl ?err, ?st2)"
    unfolding transformerFailure_settle[OF f] using rt m1 by (simp add: failTranspile_def)
  then have res: "transpileResume k e i w = Some (reject i ?err (w\<lparr>w_state := ?st2\<rparr>))"
    using a by (simp add: transpileResume_def Let_def)
  note nd = resetTranspilation_node[OF rt n1]
  have ini: "\<forall>u\<in>set (transpilationInitiators (h1 ! n)). source (h2 ! u) = None"
    if "hmrEnabled (h1 ! n) = HmrOff"
    using resetTranspilation_initiators[OF rt refs1 n1 that] .
  have gr: "graph_ok h2 \<and> (\<forall>d<length h2. n \<notin> set (initiators (h2 ! d)))" if g: "graph_ok h1 \<and> noHmr h1"
  proof -
    have g2: "graph_ok h2" using resetTranspilation_graph[OF rt _ _ n1] g by simp
    then have "edge_symmetry h2" by (simp add: graph_ok_def)
    then show ?thesis using g2 no_initiator_left[of h2 n] nd by simp
  qed
  show "\<exists>k h2. resetTranspilation k n h1 = Some h2
            \<and> transpileResume k e i w
                = Some (reject i (err0\<lparr>err_fileName := Some (path (module (heap (w_state w) ! n))),
                                        err_tModule := Some n\<rparr>)
                         (w\<lparr>w_state := (w_state w)\<lparr>heap := h2,
                                dispatched := dispatched (w_state w) @ ws\<rparr>\<rparr>))
            \<and> source (h2 ! n) = None \<and> errors (h2 ! n) = [] \<and> warnings (h2 ! n) = []
            \<and> dependencies (h2 ! n) = [] \<and> asyncDependencies (h2 ! n) = []
            \<and> (hmrEnabled (h1 ! n) = HmrOff
                 \<longrightarrow> (\<forall>u\<in>set (transpilationInitiators (h1 ! n)). source (h2 ! u) = None))
            \<and> (graph_ok h1 \<and> noHmr h1
                 \<longrightarrow> graph_ok h2 \<and> (\<forall>d<length h2. n \<notin> set (initiators (h2 ! d))))"
    using rt res nd ini gr by blast
next
  assume "i < length (calls w) \<and> c_phase (calls w ! i) = AtFanout
      \<and> find (\<lambda>x. x \<in> set (c_children (calls w ! i))) (rejections w) = Some x
      \<and> c_phase (calls w ! x) = Thrown err"
  then show "transpileResume k' e i w = Some (reject i err w)"
    by (simp add: transpileResume_def firstRejection_def Let_def)
qed

theorem transpile_error_witness:
  "wrun 0 exEnv4 [Call 0] (newWalk ((w_state exBusy)\<lparr>transformerRuns := []\<rparr>)) = Some exBusy
   \<and> transformerFailure exEnv4 0 exLoader4 ''E'' (heap (w_state exBusy))
       = Some (mkError ''bad import'', exBusyHeap, [''unused''])
   \<and> warnings (exBusyHeap ! 0) = [''unused''] \<and> dependencies (exBusyHeap ! 0) = [2]
   \<and> initiators (exBusyHeap ! 2) = [0] \<and> source (exBusyHeap ! 1) \<noteq> None
   \<and> (\<exists>k. transpileResume k exEnv4 0 exBusy = Some exBusyFailed)
   \<and> c_phase (calls exBusyFailed ! 0)
       = Thrown ((mkError ''bad import'')\<lparr>err_fileName := Some ''/e.js'', err_tModule := Some 0\<rparr>)
   \<and> transformerRuns (w_state exBusyFailed) = [(0, 0)] \<and> length (calls exBusyFailed) = 1
   \<and> warnings (heap (w_state exBusyFailed) ! 0) = []
   \<and> dependencies (heap (w_state exBusyFailed) ! 0) = []
   \<and> initiators (heap (w_state exBusyFailed) ! 2) = []
   \<and> source (heap (w_state exBusyFailed) ! 1) = None
   \<and> wrun (Suc 0) exEnv4 [Call 0, Resume 0, Resume 0, Resume 2] (newWalk exBroken) = Some exAwaiting
   \<and> transpileResume 0 exEnv4 0 exAwaiting = Some (reject 0 exSyntaxError2 exAwaiting)"
proof -
  let ?rk = "\<lambda>m::nat. if m = 0 then Suc 0 else 0"
  have a: "0 < length (calls exBusy) \<and> c_node (calls exBusy ! 0) = 0
      \<and> c_phase (calls exBusy ! 0) = AtLoader (exLoader4 # []) 0 ''E'' None"
    by (simp add: exBusy_def)
  note T = transpile_error[where w = exBusy and i = 0 and n = 0 and t = exLoader4 and ts = "[]"
      and j = 0 and c = "''E''" and sm = None and e = exEnv4 and ?err0.0 = "mkError ''bad import''"
      and ?h1.0 = exBusyHeap and ws = "[''unused'']" and rk = ?rk, THEN conjunct1]
  from T a ex_busy_ok ex_busy_failure
  obtain k h2 where rt: "resetTranspilation k 0 exBusyHeap = Some h2"
    and res: "transpileResume k exEnv4 0 exBusy
                = Some (reject 0 ((mkError ''bad import'')\<lparr>err_fileName :=
                                    Some (path (module (heap (w_state exBusy) ! 0))),
                                        err_tModule := Some 0\<rparr>)
                         (exBusy\<lparr>w_state := (w_state exBusy)\<lparr>heap := h2,
                                dispatched := dispatched (w_state exBusy) @ [''unused'']\<rparr>\<rparr>))"
    and nd: "dependencies (h2 ! 0) = []" "warnings (h2 ! 0) = []"
    and ini: "\<forall>u\<in>set (transpilationInitiators (exBusyHeap ! 0)). source (h2 ! u) = None"
    by blast
  have h2: "h2 = heap (w_state exBusyFailed)" using rt ex_busy_reset by (rule resetTranspilation_det)
  have r: "transpileResume k exEnv4 0 exBusy = Some exBusyFailed"
    using res unfolding h2 ex_busy_result .
  have b: "warnings (exBusyHeap ! 0) = [''unused''] \<and> dependencies (exBusyHeap ! 0) = [2]
      \<and> initiators (exBusyHeap ! 2) = [0] \<and> source (exBusyHeap ! 1) \<noteq> None
      \<and> transpilationInitiators (exBusyHeap ! 0) = [1]"
    by (simp add: exBusyHeap_def exCachedNode_def newTranspiledModule_def)
  have c': "c_phase (calls exBusyFailed ! 0)
       = Thrown ((mkError ''bad import'')\<lparr>err_fileName := Some ''/e.js'', err_tModule := Some 0\<rparr>)
      \<and> transformerRuns (w_state exBusyFailed) = [(0, 0)] \<and> length (calls exBusyFailed) = 1"
    by (simp add: exBusyFailed_def exState_def)
  have d1: "dependencies (heap (w_state exBusyFailed) ! 0) = []
      \<and> warnings (heap (w_state exBusyFailed) ! 0) = []"
    using nd unfolding h2 by simp
  have d2: "source (heap (w_state exBusyFailed) ! 1) = None" using ini b unfolding h2 by simp
  have d3: "initiators (heap (w_state exBusyFailed) ! 2) = []"
    by (simp add: exBusyFailed_def exState_def newTranspiledModule_def)
  have f: "0 < length (calls exAwaiting) \<and> c_phase (calls exAwaiting ! 0) = AtFanout
      \<and> find (\<lambda>x. x \<in> set (c_children (calls exAwaiting ! 0))) (rejections exAwaiting) = Some 2
      \<and> c_phase (calls exAwaiting ! 2) = Thrown exSyntaxError2"
    by (simp add: exAwaiting_def)
  note U = transpile_error[where w = exAwaiting and i = 0 and x = 2 and err = exSyntaxError2
      and e = exEnv4 and k' = 0, THEN conjunct2]
  have g: "transpileResume 0 exEnv4 0 exAwaiting = Some (reject 0 exSyntaxError2 exAwaiting)"
    using U f by blast
  show ?thesis using ex_busy_call ex_busy_failure b r c' d1 d2 d3 ex_awaiting g by blast
qed

theorem transpile_error_counterexample:
  "transformerFailure exEnv 2 \<lparr>transpiler = exTranspiler, cacheable = True\<rparr> ''C'' (heap exCycle)
     = Some (mkError ''syntax error'', heap exCycle, [])
   \<and> graph_ok (heap exCycle) \<and> noHmr (heap exCycle)
   \<and> (\<forall>k. resetTranspilation k 2 (heap exCycle) = None)
   \<and> (\<forall>k. wrun k exEnv [Call 2, Resume 0] (newWalk exCycle) = None)
   \<and> map_option (\<lambda>w. (map c_phase (calls w), transformerRuns (w_state w)))
       (wrun (Suc 0) exEnv4 [Call 0, Resume 0, Resume 0, Resume 2, Resume 0] (newWalk exBroken))
       = Some ([Thrown exSyntaxError2, AtLoader [exLoader4] 0 ''B'' None, Thrown exSyntaxError2],
               [(0, 0), (1, 0), (2, 0)])
   \<and> map_option (\<lambda>w. transformerRuns (w_state w))
       (wrun (Suc 0) exEnv4 [Call 0, Resume 0, Resume 0, Resume 2, Resume 0, Resume 1, Resume 1]
          (newWalk exBroken))
       = Some [(0, 0), (1, 0), (2, 0), (3, 0)]"
proof -
  have a: "\<forall>k. resetTranspilation k 2 (heap exCycle) = None" by (simp add: ex_cycle_none)
  have b: "\<forall>k. wrun k exEnv [Call 2, Resume 0] (newWalk exCycle) = None" by (simp add: ex_cycle_run)
  show ?thesis using a b ex_cycle_failure ex_cycle_ok ex_broken1 ex_broken2
    by blast
qed

end
